theory Spec2Isabelle
  imports Complex_Main
begin

section \<open>Dense matrices, views and the maximum searches\<close>

text \<open>
  The element type \<open>F\<close> of the templates is instantiated with the complex numbers over the
  exact reals, \<open>Base<F>\<close> with \<open>real\<close> and \<open>Abs\<close> with \<open>cmod\<close>; a real matrix is a
  complex matrix whose entries have no imaginary part.  Exceptions are values of \<open>error\<close>.
  A quotient whose divisor is zero has no value in an exact field (the floating point code
  would produce an infinity or a NaN there); the model makes that outcome explicit as
  \<open>DivisionByZero\<close>.
\<close>

datatype error = SingularMatrixException | LogicError | RuntimeError | DivisionByZero

record Matrix =
  Height :: nat
  Width :: nat
  Get :: "nat \<Rightarrow> nat \<Rightarrow> complex"

record ValueInt =
  val :: real
  index :: nat

record LDLPivot =
  nb :: nat
  from' :: "nat list"

text \<open>
  Modelled from the spec: \<open>LockedViewRange\<close> is not among the sources at hand.  A view is
  the window of rows \<open>[i0, i1)\<close> and columns \<open>[j0, j1)\<close> of its parent.
\<close>

definition LockedViewRange :: "Matrix \<Rightarrow> nat \<Rightarrow> nat \<Rightarrow> nat \<Rightarrow> nat \<Rightarrow> Matrix" where
  "LockedViewRange A i0 j0 i1 j1 =
     \<lparr>Height = i1 - i0, Width = j1 - j0, Get = (\<lambda>i j. Get A (i0 + i) (j0 + j))\<rparr>"

text \<open>
  Modelled from the spec: \<open>VectorMax\<close> is not among the sources at hand.  It returns the
  maximum magnitude of a vector together with the first position attaining it; the search
  starts from value zero at position zero, which is also the answer for an empty vector.
\<close>

primrec MaxLoop :: "(nat \<Rightarrow> complex) \<Rightarrow> nat \<Rightarrow> ValueInt" where
  "MaxLoop f 0 = \<lparr>val = 0, index = 0\<rparr>"
| "MaxLoop f (Suc m) =
     (let pivot = MaxLoop f m
      in if cmod (f m) > val pivot then \<lparr>val = cmod (f m), index = m\<rparr> else pivot)"

definition vecGet :: "Matrix \<Rightarrow> nat \<Rightarrow> complex" where
  "vecGet x t = (if Width x = 1 then Get x t 0 else Get x 0 t)"

definition vecLen :: "Matrix \<Rightarrow> nat" where
  "vecLen x = (if Width x = 1 then Height x else Width x)"

definition VectorMax :: "Matrix \<Rightarrow> ValueInt" where
  "VectorMax x = MaxLoop (vecGet x) (vecLen x)"

text \<open>
  Modelled from the spec: \<open>Gemv\<close> is not among the sources at hand.  With orientation
  \<open>NORMAL\<close> it computes \<open>y := alpha A x + beta y\<close>, where \<open>x\<close> and \<open>y\<close> may each be
  stored as a column or as a row.
\<close>

definition Gemv :: "complex \<Rightarrow> Matrix \<Rightarrow> Matrix \<Rightarrow> complex \<Rightarrow> Matrix \<Rightarrow> Matrix" where
  "Gemv alpha A x beta y =
     y\<lparr>Get := (\<lambda>i j. alpha * (\<Sum>t<Width A. Get A (if Width y = 1 then i else j) t * vecGet x t)
                        + beta * Get y i j)\<rparr>"

section \<open>Pivot selection\<close>

text \<open>
  \<open>ldl::pivot::BunchKaufmanA\<close> on a sequential matrix.  \<open>A.Get(0,0)\<close> on a matrix without
  rows is out of range, which the debug build reports as a logic error.
\<close>

definition a21MaxOf :: "Matrix \<Rightarrow> ValueInt" where
  "a21MaxOf A = VectorMax (LockedViewRange A 1 0 (Height A) 1)"

definition rowMaxValA :: "Matrix \<Rightarrow> nat \<Rightarrow> real" where
  "rowMaxValA A r =
     (let n = Height A;
          leftMax = VectorMax (LockedViewRange A r 0 (r + 1) r);
          bottomMax = VectorMax (LockedViewRange A (r + 1) r n (r + 1))
      in max (val leftMax) (val bottomMax))"

definition BunchKaufmanA :: "Matrix \<Rightarrow> real \<Rightarrow> error + LDLPivot" where
  "BunchKaufmanA A gamma0 =
     (let n = Height A;
          gamma = (if gamma0 = 0 then (1 + sqrt 17) / 8 else gamma0)
      in if n = 0 then Inl LogicError
      else
        let alpha11Abs = cmod (Get A 0 0);
            a21Max = a21MaxOf A
        in if val a21Max = 0 \<and> alpha11Abs = 0 then Inl SingularMatrixException
        else if alpha11Abs \<ge> gamma * val a21Max then Inr \<lparr>nb = 1, from' = [0]\<rparr>
        else
          let r = index a21Max + 1;
              rowMaxVal = rowMaxValA A r
          in if rowMaxVal = 0 then Inl DivisionByZero
          else if alpha11Abs \<ge> gamma * val a21Max * (val a21Max / rowMaxVal)
            then Inr \<lparr>nb = 1, from' = [0]\<rparr>
          else if cmod (Get A r r) \<ge> gamma * rowMaxVal
            then Inr \<lparr>nb = 1, from' = [r]\<rparr>
          else Inr \<lparr>nb = 2, from' = [0, r]\<rparr>)"

text \<open>
  \<open>ldl::pivot::BunchKaufmanD\<close>: the bottom view of the row search starts at row \<open>r\<close>, and
  there is no test of the diagonal entry \<open>(r,r)\<close>.
\<close>

definition rowMaxValD :: "Matrix \<Rightarrow> nat \<Rightarrow> real" where
  "rowMaxValD A r =
     (let n = Height A;
          leftMax = VectorMax (LockedViewRange A r 0 (r + 1) r);
          bottomMax = VectorMax (LockedViewRange A r r n (r + 1))
      in max (val leftMax) (val bottomMax))"

definition BunchKaufmanD :: "Matrix \<Rightarrow> real \<Rightarrow> error + LDLPivot" where
  "BunchKaufmanD A gamma0 =
     (let n = Height A;
          gamma = (if gamma0 = 0 then 525 / 1000 else gamma0)
      in if n = 0 then Inl LogicError
      else
        let alpha11Abs = cmod (Get A 0 0);
            a21Max = a21MaxOf A
        in if val a21Max = 0 \<and> alpha11Abs = 0 then Inl SingularMatrixException
        else if alpha11Abs \<ge> gamma * val a21Max then Inr \<lparr>nb = 1, from' = [0]\<rparr>
        else
          let r = index a21Max + 1;
              rowMaxVal = rowMaxValD A r
          in if rowMaxVal = 0 then Inl DivisionByZero
          else if alpha11Abs \<ge> gamma * val a21Max * (val a21Max / rowMaxVal)
            then Inr \<lparr>nb = 1, from' = [0]\<rparr>
          else Inr \<lparr>nb = 2, from' = [0, r]\<rparr>)"

text \<open>
  The panel variants first correct the column \<open>k\<close>, and later the row \<open>r\<close>, by the update
  factors \<open>X\<close> and \<open>Y\<close> accumulated in the panel, out of place.  \<open>zStrictBottom\<close> is a view
  of \<open>zBottom\<close> in the source, so it shows the corrected values.
\<close>

definition panelColumn :: "Matrix \<Rightarrow> Matrix \<Rightarrow> Matrix \<Rightarrow> nat \<Rightarrow> Matrix" where
  "panelColumn A X Y k =
     (let n = Height A;
          aB1 = LockedViewRange A k k n (k + 1);
          XBL = LockedViewRange X k 0 n k;
          yRow = LockedViewRange Y k 0 (k + 1) k
      in Gemv (- 1) XBL yRow 1 aB1)"

definition panelA21Max :: "Matrix \<Rightarrow> Matrix \<Rightarrow> Matrix \<Rightarrow> nat \<Rightarrow> ValueInt" where
  "panelA21Max A X Y k =
     VectorMax (LockedViewRange (panelColumn A X Y k) 1 0 (Height A - k) 1)"

definition panelLeft :: "Matrix \<Rightarrow> Matrix \<Rightarrow> Matrix \<Rightarrow> nat \<Rightarrow> nat \<Rightarrow> Matrix" where
  "panelLeft A X Y k r =
     (let aLeft = LockedViewRange A r k (r + 1) r;
          xMid = LockedViewRange X r 0 (r + 1) k;
          YBL = LockedViewRange Y k 0 r k
      in Gemv (- 1) YBL xMid 1 aLeft)"

definition panelBottom :: "Matrix \<Rightarrow> Matrix \<Rightarrow> Matrix \<Rightarrow> nat \<Rightarrow> nat \<Rightarrow> Matrix" where
  "panelBottom A X Y k r =
     (let n = Height A;
          aBottom = LockedViewRange A r r n (r + 1);
          XBL = LockedViewRange X r 0 n k;
          yRow = LockedViewRange Y r 0 (r + 1) k
      in Gemv (- 1) XBL yRow 1 aBottom)"

definition panelRowMaxValA :: "Matrix \<Rightarrow> Matrix \<Rightarrow> Matrix \<Rightarrow> nat \<Rightarrow> nat \<Rightarrow> real" where
  "panelRowMaxValA A X Y k r =
     (let n = Height A;
          zLeft = panelLeft A X Y k r;
          zBottom = panelBottom A X Y k r;
          zStrictBottom = LockedViewRange zBottom 1 0 (n - r) 1;
          leftMax = VectorMax zLeft;
          bottomMax = VectorMax zStrictBottom
      in max (val leftMax) (val bottomMax))"

definition PanelBunchKaufmanA ::
  "Matrix \<Rightarrow> Matrix \<Rightarrow> Matrix \<Rightarrow> nat \<Rightarrow> real \<Rightarrow> error + LDLPivot" where
  "PanelBunchKaufmanA A X Y k gamma0 =
     (let n = Height A;
          gamma = (if gamma0 = 0 then (1 + sqrt 17) / 8 else gamma0)
      in if n \<le> k then Inl LogicError
      else
        let zB1 = panelColumn A X Y k;
            alpha11Abs = cmod (Get zB1 0 0);
            a21Max = panelA21Max A X Y k
        in if val a21Max = 0 \<and> alpha11Abs = 0 then Inl SingularMatrixException
        else if alpha11Abs \<ge> gamma * val a21Max then Inr \<lparr>nb = 1, from' = [k]\<rparr>
        else
          let r = index a21Max + (k + 1);
              zBottom = panelBottom A X Y k r;
              rowMaxVal = panelRowMaxValA A X Y k r
          in if rowMaxVal = 0 then Inl DivisionByZero
          else if alpha11Abs \<ge> gamma * val a21Max * (val a21Max / rowMaxVal)
            then Inr \<lparr>nb = 1, from' = [k]\<rparr>
          else if cmod (Get zBottom 0 0) \<ge> gamma * rowMaxVal
            then Inr \<lparr>nb = 1, from' = [r]\<rparr>
          else Inr \<lparr>nb = 2, from' = [k, r]\<rparr>)"

definition panelRowMaxValD :: "Matrix \<Rightarrow> Matrix \<Rightarrow> Matrix \<Rightarrow> nat \<Rightarrow> nat \<Rightarrow> real" where
  "panelRowMaxValD A X Y k r =
     (let zLeft = panelLeft A X Y k r;
          zBottom = panelBottom A X Y k r;
          leftMax = VectorMax zLeft;
          bottomMax = VectorMax zBottom
      in max (val leftMax) (val bottomMax))"

definition PanelBunchKaufmanD ::
  "Matrix \<Rightarrow> Matrix \<Rightarrow> Matrix \<Rightarrow> nat \<Rightarrow> real \<Rightarrow> error + LDLPivot" where
  "PanelBunchKaufmanD A X Y k gamma0 =
     (let n = Height A;
          gamma = (if gamma0 = 0 then 525 / 1000 else gamma0)
      in if n \<le> k then Inl LogicError
      else
        let zB1 = panelColumn A X Y k;
            alpha11Abs = cmod (Get zB1 0 0);
            a21Max = panelA21Max A X Y k
        in if val a21Max = 0 \<and> alpha11Abs = 0 then Inl SingularMatrixException
        else if alpha11Abs \<ge> gamma * val a21Max then Inr \<lparr>nb = 1, from' = [k]\<rparr>
        else
          let r = index a21Max + (k + 1);
              rowMaxVal = panelRowMaxValD A X Y k r
          in if rowMaxVal = 0 then Inl DivisionByZero
          else if alpha11Abs \<ge> gamma * val a21Max * (val a21Max / rowMaxVal)
            then Inr \<lparr>nb = 1, from' = [k]\<rparr>
          else Inr \<lparr>nb = 2, from' = [k, r]\<rparr>)"


section \<open>The pivot decisions in terms of maxima over index sets\<close>

text \<open>
  The entry \<open>(i,j)\<close> of the matrix after the pending correction \<open>A - X Y\<^sup>T\<close> of the first
  \<open>k\<close> panel columns, and the trailing block of that corrected matrix.
\<close>

definition corrected :: "Matrix \<Rightarrow> Matrix \<Rightarrow> Matrix \<Rightarrow> nat \<Rightarrow> nat \<Rightarrow> nat \<Rightarrow> complex" where
  "corrected A X Y k i j = Get A i j - (\<Sum>t<k. Get X i t * Get Y j t)"

definition correctedTrailing :: "Matrix \<Rightarrow> Matrix \<Rightarrow> Matrix \<Rightarrow> nat \<Rightarrow> Matrix" where
  "correctedTrailing A X Y k =
     \<lparr>Height = Height A - k, Width = Width A - k,
      Get = (\<lambda>i j. corrected A X Y k (k + i) (k + j))\<rparr>"

definition shiftPivot :: "nat \<Rightarrow> LDLPivot \<Rightarrow> LDLPivot" where
  "shiftPivot k p = p\<lparr>from' := map (\<lambda>i. k + i) (from' p)\<rparr>"

text \<open>
  The quantities of the decision: \<open>omega\<close>, the largest magnitude of the strict sub-diagonal
  of column 0; the row \<open>r\<close> the search reports; \<open>rho\<close>, the largest magnitude of row \<open>r\<close> of the
  symmetric matrix, read from the stored lower triangle, without the diagonal entry
  (strategy A) and with it (strategy D).
\<close>

definition pivotRow :: "Matrix \<Rightarrow> nat" where
  "pivotRow A = index (a21MaxOf A) + 1"

definition colMaxAbs :: "Matrix \<Rightarrow> real" where
  "colMaxAbs A = Max (insert 0 ((\<lambda>i. cmod (Get A i 0)) ` {1..<Height A}))"

definition rowMaxAbsA :: "Matrix \<Rightarrow> nat \<Rightarrow> real" where
  "rowMaxAbsA A r =
     Max (insert 0 ((\<lambda>j. cmod (Get A r j)) ` {..<r}
                    \<union> (\<lambda>i. cmod (Get A i r)) ` {Suc r..<Height A}))"

definition rowMaxAbsD :: "Matrix \<Rightarrow> nat \<Rightarrow> real" where
  "rowMaxAbsD A r =
     Max (insert 0 ((\<lambda>j. cmod (Get A r j)) ` {..<r}
                    \<union> (\<lambda>i. cmod (Get A i r)) ` {r..<Height A}))"

text \<open>
  The decision of strategy A as the specification words it, with the second test
  \<open>alpha * omega \<ge> gamma * omega\<^sup>2\<close>, and as the code makes it, with
  \<open>alpha * rho \<ge> gamma * omega\<^sup>2\<close>.
\<close>

definition BunchKaufmanA_claimed :: "Matrix \<Rightarrow> real \<Rightarrow> error + LDLPivot" where
  "BunchKaufmanA_claimed A gamma0 =
     (let gamma = (if gamma0 = 0 then (1 + sqrt 17) / 8 else gamma0);
          alpha = cmod (Get A 0 0);
          omega = colMaxAbs A;
          r = pivotRow A;
          rho = rowMaxAbsA A r
      in if omega = 0 \<and> alpha = 0 then Inl SingularMatrixException
         else if alpha \<ge> gamma * omega then Inr \<lparr>nb = 1, from' = [0]\<rparr>
         else if alpha * omega \<ge> gamma * omega\<^sup>2 then Inr \<lparr>nb = 1, from' = [0]\<rparr>
         else if cmod (Get A r r) \<ge> gamma * rho then Inr \<lparr>nb = 1, from' = [r]\<rparr>
         else Inr \<lparr>nb = 2, from' = [0, r]\<rparr>)"

definition BunchKaufmanA_amended :: "Matrix \<Rightarrow> real \<Rightarrow> error + LDLPivot" where
  "BunchKaufmanA_amended A gamma0 =
     (let gamma = (if gamma0 = 0 then (1 + sqrt 17) / 8 else gamma0);
          alpha = cmod (Get A 0 0);
          omega = colMaxAbs A;
          r = pivotRow A;
          rho = rowMaxAbsA A r
      in if omega = 0 \<and> alpha = 0 then Inl SingularMatrixException
         else if alpha \<ge> gamma * omega then Inr \<lparr>nb = 1, from' = [0]\<rparr>
         else if alpha * rho \<ge> gamma * omega\<^sup>2 then Inr \<lparr>nb = 1, from' = [0]\<rparr>
         else if cmod (Get A r r) \<ge> gamma * rho then Inr \<lparr>nb = 1, from' = [r]\<rparr>
         else Inr \<lparr>nb = 2, from' = [0, r]\<rparr>)"

text \<open>
  The decision of strategy D as the specification words it, with a single test for a
  \<open>1 \<times> 1\<close> pivot, and as the code makes it, with the second test at index 0 kept.
\<close>

definition BunchKaufmanD_claimed :: "Matrix \<Rightarrow> real \<Rightarrow> error + LDLPivot" where
  "BunchKaufmanD_claimed A gamma0 =
     (let gamma = (if gamma0 = 0 then 525 / 1000 else gamma0);
          alpha = cmod (Get A 0 0);
          omega = colMaxAbs A;
          r = pivotRow A
      in if omega = 0 \<and> alpha = 0 then Inl SingularMatrixException
         else if alpha \<ge> gamma * omega then Inr \<lparr>nb = 1, from' = [0]\<rparr>
         else Inr \<lparr>nb = 2, from' = [0, r]\<rparr>)"

definition BunchKaufmanD_amended :: "Matrix \<Rightarrow> real \<Rightarrow> error + LDLPivot" where
  "BunchKaufmanD_amended A gamma0 =
     (let gamma = (if gamma0 = 0 then 525 / 1000 else gamma0);
          alpha = cmod (Get A 0 0);
          omega = colMaxAbs A;
          r = pivotRow A;
          rho = rowMaxAbsD A r
      in if omega = 0 \<and> alpha = 0 then Inl SingularMatrixException
         else if alpha \<ge> gamma * omega then Inr \<lparr>nb = 1, from' = [0]\<rparr>
         else if alpha * rho \<ge> gamma * omega\<^sup>2 then Inr \<lparr>nb = 1, from' = [0]\<rparr>
         else Inr \<lparr>nb = 2, from' = [0, r]\<rparr>)"

text \<open>Concrete matrices, given by their rows.\<close>

definition MatrixOfRows :: "complex list list \<Rightarrow> Matrix" where
  "MatrixOfRows rows =
     \<lparr>Height = length rows, Width = length rows, Get = (\<lambda>i j. rows ! i ! j)\<rparr>"

definition exampleDominatedRow :: Matrix where
  "exampleDominatedRow = MatrixOfRows [[1, 0, 0], [2, 0, 0], [0, 10, 0]]"

definition exampleZeroFactors :: Matrix where
  "exampleZeroFactors = MatrixOfRows [[0, 0, 0], [0, 0, 0], [0, 0, 0]]"


section \<open>The pivoted factorization\<close>

text \<open>
  Modelled from the spec: the enumeration \<open>LDLPivotType\<close> is declared outside the sources at
  hand.  The code names four selectors; its \<open>default\<close> branches show that there are others,
  for which \<open>BUNCH_KAUFMAN_BOUNDED\<close> stands.
\<close>

datatype LDLPivotType =
  BUNCH_KAUFMAN_A | BUNCH_KAUFMAN_C | BUNCH_KAUFMAN_D | BUNCH_KAUFMAN_BOUNDED | BUNCH_PARLETT

record ValueIntPair =
  pval :: real
  indices :: "nat list"

text \<open>Conjugation when the factorization is Hermitian, nothing when it is symmetric.\<close>

definition cj :: "bool \<Rightarrow> complex \<Rightarrow> complex" where
  "cj conjugate z = (if conjugate then cnj z else z)"

text \<open>
  Modelled from the spec: the matrix class and the BLAS-like routines are not among the
  sources at hand.  A mutable view shares the entries of its parent: the model takes the
  window out with \<open>ViewRange\<close>, lets the routine compute the new window, and puts it back
  with \<open>WriteView\<close>.  \<open>ResizeTo\<close> to fewer columns keeps the leading columns.
\<close>

definition ViewRange :: "Matrix \<Rightarrow> nat \<Rightarrow> nat \<Rightarrow> nat \<Rightarrow> nat \<Rightarrow> Matrix" where
  "ViewRange A i0 j0 i1 j1 = LockedViewRange A i0 j0 i1 j1"

definition WriteView :: "Matrix \<Rightarrow> nat \<Rightarrow> nat \<Rightarrow> Matrix \<Rightarrow> Matrix" where
  "WriteView A i0 j0 V =
     A\<lparr>Get := (\<lambda>i j. if i0 \<le> i \<and> i < i0 + Height V \<and> j0 \<le> j \<and> j < j0 + Width V
                      then Get V (i - i0) (j - j0) else Get A i j)\<rparr>"

definition Zeros :: "nat \<Rightarrow> nat \<Rightarrow> Matrix" where
  "Zeros m n = \<lparr>Height = m, Width = n, Get = (\<lambda>i j. 0)\<rparr>"

definition ResizeTo :: "Matrix \<Rightarrow> nat \<Rightarrow> nat \<Rightarrow> Matrix" where
  "ResizeTo A m n = A\<lparr>Height := m, Width := n\<rparr>"

definition Set :: "Matrix \<Rightarrow> nat \<Rightarrow> nat \<Rightarrow> complex \<Rightarrow> Matrix" where
  "Set A i j v = A\<lparr>Get := (Get A)(i := (Get A i)(j := v))\<rparr>"

definition MakeReal :: "Matrix \<Rightarrow> nat \<Rightarrow> nat \<Rightarrow> Matrix" where
  "MakeReal A i j = Set A i j (complex_of_real (Re (Get A i j)))"

definition Conjugate :: "Matrix \<Rightarrow> Matrix" where
  "Conjugate A = A\<lparr>Get := (\<lambda>i j. cnj (Get A i j))\<rparr>"

definition Scale :: "complex \<Rightarrow> Matrix \<Rightarrow> Matrix" where
  "Scale alpha A = A\<lparr>Get := (\<lambda>i j. alpha * Get A i j)\<rparr>"

definition swapIndex :: "nat \<Rightarrow> nat \<Rightarrow> nat \<Rightarrow> nat" where
  "swapIndex a b i = (if i = a then b else if i = b then a else i)"

definition RowSwap :: "Matrix \<Rightarrow> nat \<Rightarrow> nat \<Rightarrow> Matrix" where
  "RowSwap A ito ifrom = A\<lparr>Get := (\<lambda>i j. Get A (swapIndex ito ifrom i) j)\<rparr>"

text \<open>
  The symmetric (Hermitian) matrix that a stored lower triangle stands for, and the
  symmetric permutation exchanging two indices of it, again as a lower triangle.
\<close>

definition symGet :: "bool \<Rightarrow> Matrix \<Rightarrow> nat \<Rightarrow> nat \<Rightarrow> complex" where
  "symGet conjugate A i j = (if j \<le> i then Get A i j else cj conjugate (Get A j i))"

definition SymmetricSwap :: "Matrix \<Rightarrow> nat \<Rightarrow> nat \<Rightarrow> bool \<Rightarrow> Matrix" where
  "SymmetricSwap A ito ifrom conjugate =
     A\<lparr>Get := (\<lambda>i j. if j \<le> i
                      then symGet conjugate A (swapIndex ito ifrom i) (swapIndex ito ifrom j)
                      else Get A i j)\<rparr>"

text \<open>
  \<open>Syr\<close>: \<open>A := A + alpha x x\<^sup>T\<close> (\<open>x\<^sup>H\<close> when conjugating) on the lower triangle.
  \<open>Trr2\<close>: \<open>A := A + alpha X Y\<^sup>T\<close> (\<open>Y\<^sup>H\<close>) on the lower triangle, for two columns.
  \<open>Trrk\<close> and \<open>Gemm\<close> with orientations normal and transpose: \<open>C := alpha A B\<^sup>T + beta C\<close>,
  on the lower triangle and on the whole matrix.
\<close>

definition Syr :: "complex \<Rightarrow> Matrix \<Rightarrow> Matrix \<Rightarrow> bool \<Rightarrow> Matrix" where
  "Syr alpha x A conjugate =
     A\<lparr>Get := (\<lambda>i j. if j \<le> i then Get A i j + alpha * vecGet x i * cj conjugate (vecGet x j)
                      else Get A i j)\<rparr>"

definition Trr2 :: "complex \<Rightarrow> Matrix \<Rightarrow> Matrix \<Rightarrow> Matrix \<Rightarrow> bool \<Rightarrow> Matrix" where
  "Trr2 alpha X Y A conjugate =
     A\<lparr>Get := (\<lambda>i j. if j \<le> i
                      then Get A i j + alpha * (Get X i 0 * cj conjugate (Get Y j 0)
                                               + Get X i 1 * cj conjugate (Get Y j 1))
                      else Get A i j)\<rparr>"

definition Gemm :: "complex \<Rightarrow> Matrix \<Rightarrow> Matrix \<Rightarrow> complex \<Rightarrow> Matrix \<Rightarrow> Matrix" where
  "Gemm alpha A B beta C =
     C\<lparr>Get := (\<lambda>i j. alpha * (\<Sum>t<Width A. Get A i t * Get B j t) + beta * Get C i j)\<rparr>"

definition Trrk :: "complex \<Rightarrow> Matrix \<Rightarrow> Matrix \<Rightarrow> complex \<Rightarrow> Matrix \<Rightarrow> Matrix" where
  "Trrk alpha A B beta C =
     C\<lparr>Get := (\<lambda>i j. if j \<le> i
                      then alpha * (\<Sum>t<Width A. Get A i t * Get B j t) + beta * Get C i j
                      else Get C i j)\<rparr>"

text \<open>
  \<open>Symmetric2x2Solve\<close> from the right with the lower triangle of \<open>D\<close>: \<open>A := A D\<^sup>-\<^sup>1\<close> for the
  symmetric (Hermitian) \<open>2 \<times> 2\<close> matrix \<open>D\<close>.  A singular \<open>D\<close> has no inverse.
\<close>

definition Symmetric2x2Solve :: "Matrix \<Rightarrow> Matrix \<Rightarrow> bool \<Rightarrow> error + Matrix" where
  "Symmetric2x2Solve D A conjugate =
     (let delta11 = Get D 0 0;
          delta21 = Get D 1 0;
          delta22 = Get D 1 1;
          det = delta11 * delta22 - delta21 * cj conjugate delta21
      in if det = 0 then Inl DivisionByZero
         else Inr (A\<lparr>Get := (\<lambda>i j.
                if j = 0 then (Get A i 0 * delta22 - Get A i 1 * delta21) / det
                else if j = 1 then (Get A i 1 * delta11 - Get A i 0 * cj conjugate delta21) / det
                else Get A i j)\<rparr>))"

text \<open>
  \<open>DiagonalMax\<close>: the largest magnitude on the diagonal and the first position attaining it.
  \<open>SymmetricMax\<close>: the largest magnitude in the strict lower triangle and the first pair
  attaining it, columns in order and rows in order within a column.
\<close>

definition DiagonalMax :: "Matrix \<Rightarrow> ValueInt" where
  "DiagonalMax A = MaxLoop (\<lambda>i. Get A i i) (min (Height A) (Width A))"

definition SymmetricMax :: "Matrix \<Rightarrow> ValueIntPair" where
  "SymmetricMax A =
     foldl (\<lambda>pivot (i, j).
              if cmod (Get A i j) > pval pivot
              then \<lparr>pval = cmod (Get A i j), indices = [i, j]\<rparr> else pivot)
       \<lparr>pval = 0, indices = [0, 0]\<rparr>
       (concat (map (\<lambda>j. map (\<lambda>i. (i, j)) [j + 1..<Height A]) [0..<Height A]))"

text \<open>\<open>ldl::pivot::BunchParlett\<close>, which has no failure.\<close>

definition BunchParlett :: "Matrix \<Rightarrow> real \<Rightarrow> LDLPivot" where
  "BunchParlett A gamma0 =
     (let gamma = (if gamma0 = 0 then (1 + sqrt 17) / 8 else gamma0);
          diagMax = DiagonalMax A;
          offDiagMax = SymmetricMax A
      in if val diagMax \<ge> gamma * pval offDiagMax
         then \<lparr>nb = 1, from' = [index diagMax]\<rparr>
         else \<lparr>nb = 2, from' = [indices offDiagMax ! 0, indices offDiagMax ! 1]\<rparr>)"

definition ChoosePivot :: "Matrix \<Rightarrow> LDLPivotType \<Rightarrow> real \<Rightarrow> error + LDLPivot" where
  "ChoosePivot A pivotType gamma =
     (case pivotType of
        BUNCH_KAUFMAN_A \<Rightarrow> BunchKaufmanA A gamma
      | BUNCH_KAUFMAN_C \<Rightarrow> BunchKaufmanA A gamma
      | BUNCH_KAUFMAN_D \<Rightarrow> BunchKaufmanD A gamma
      | BUNCH_PARLETT \<Rightarrow> Inr (BunchParlett A gamma)
      | _ \<Rightarrow> Inl LogicError)"

definition ChoosePanelPivot ::
  "Matrix \<Rightarrow> Matrix \<Rightarrow> Matrix \<Rightarrow> nat \<Rightarrow> LDLPivotType \<Rightarrow> real \<Rightarrow> error + LDLPivot" where
  "ChoosePanelPivot A X Y k pivotType gamma =
     (case pivotType of
        BUNCH_KAUFMAN_A \<Rightarrow> PanelBunchKaufmanA A X Y k gamma
      | BUNCH_KAUFMAN_C \<Rightarrow> PanelBunchKaufmanA A X Y k gamma
      | BUNCH_KAUFMAN_D \<Rightarrow> PanelBunchKaufmanD A X Y k gamma
      | _ \<Rightarrow> Inl LogicError)"

text \<open>
  \<open>ldl::UnblockedPivoted\<close>.  The two branches of the loop body, after the pivot is chosen:
  the symmetric swaps, then the rank-one or rank-two update of the trailing block, then
  the storing of the sub-diagonal entry and of the pivots.  \<open>ABR\<close> is the view of \<open>A\<close> from
  \<open>(k,k)\<close>, so its entry \<open>(i,j)\<close> is the entry \<open>(k+i, k+j)\<close> of \<open>A\<close>.
\<close>

definition UnblockedPivoted_1x1 ::
  "bool \<Rightarrow> nat \<Rightarrow> nat \<Rightarrow> LDLPivot \<Rightarrow> Matrix \<times> Matrix \<times> nat list
    \<Rightarrow> error + Matrix \<times> Matrix \<times> nat list" where
  "UnblockedPivoted_1x1 conjugate n k pivot = (\<lambda>(A, dSub, p).
     (let ifrom = k + from' pivot ! 0;
          A = SymmetricSwap A k ifrom conjugate
      in if Get A k k = 0 then Inl DivisionByZero
         else
           let delta11Inv = 1 / Get A k k;
               a21 = ViewRange A (k + 1) k n (k + 1);
               A22 = ViewRange A (k + 1) (k + 1) n n;
               A = WriteView A (k + 1) (k + 1) (Syr (- delta11Inv) a21 A22 conjugate);
               A = WriteView A (k + 1) k (Scale delta11Inv a21)
           in Inr (A, dSub, p[k := ifrom])))"

definition UnblockedPivoted_2x2 ::
  "bool \<Rightarrow> nat \<Rightarrow> nat \<Rightarrow> LDLPivot \<Rightarrow> Matrix \<times> Matrix \<times> nat list
    \<Rightarrow> error + Matrix \<times> Matrix \<times> nat list" where
  "UnblockedPivoted_2x2 conjugate n k pivot = (\<lambda>(A, dSub, p).
     (let from0 = k + from' pivot ! 0;
          from1 = k + from' pivot ! 1;
          A = SymmetricSwap A k from0 conjugate;
          A = SymmetricSwap A (k + 1) from1 conjugate;
          D11 = ViewRange A k k (k + 2) (k + 2);
          A21 = ViewRange A (k + 2) k n (k + 2);
          A22 = ViewRange A (k + 2) (k + 2) n n;
          Y21 = A21
      in case Symmetric2x2Solve D11 A21 conjugate of
           Inl e \<Rightarrow> Inl e
         | Inr A21 \<Rightarrow>
             let A = WriteView A (k + 2) k A21;
                 A = WriteView A (k + 2) (k + 2) (Trr2 (- 1) A21 Y21 A22 conjugate);
                 dSub = Set dSub k 0 (Get D11 1 0);
                 A = Set A (k + 1) k 0;
                 p = p[k := from0];
                 p = p[k + 1 := from1]
             in Inr (A, dSub, p)))"

function UnblockedPivoted_loop ::
  "bool \<Rightarrow> LDLPivotType \<Rightarrow> real \<Rightarrow> nat \<Rightarrow> Matrix \<times> Matrix \<times> nat list \<Rightarrow> nat
    \<Rightarrow> error + Matrix \<times> Matrix \<times> nat list" where
  "UnblockedPivoted_loop conjugate pivotType gamma n st k =
     (if k < n then
        if pivotType = BUNCH_KAUFMAN_C then Inl LogicError
        else
          case ChoosePivot (ViewRange (fst st) k k n n) pivotType gamma of
            Inl e \<Rightarrow> Inl e
          | Inr pivot \<Rightarrow>
              if nb pivot = 1 then
                case UnblockedPivoted_1x1 conjugate n k pivot st of
                  Inl e \<Rightarrow> Inl e
                | Inr st' \<Rightarrow> UnblockedPivoted_loop conjugate pivotType gamma n st' (k + 1)
              else
                case UnblockedPivoted_2x2 conjugate n k pivot st of
                  Inl e \<Rightarrow> Inl e
                | Inr st' \<Rightarrow> UnblockedPivoted_loop conjugate pivotType gamma n st' (k + 2)
      else Inr st)"
  by pat_completeness auto
termination
  by (relation "measure (\<lambda>(conjugate, pivotType, gamma, n, st, k). n - k)") auto

definition UnblockedPivoted ::
  "Matrix \<Rightarrow> bool \<Rightarrow> LDLPivotType \<Rightarrow> real \<Rightarrow> error + Matrix \<times> Matrix \<times> nat list" where
  "UnblockedPivoted A conjugate pivotType gamma =
     (if Height A \<noteq> Width A then Inl LogicError
      else
        let n = Height A
        in if n = 0 then Inr (A, Zeros 0 1, [])
           else UnblockedPivoted_loop conjugate pivotType gamma n
                  (A, Zeros (n - 1) 1, replicate n 0) 0)"

text \<open>
  \<open>ldl::PanelPivoted\<close>.  \<open>ABR\<close> is the view of \<open>A\<close> from \<open>(off,off)\<close>; the pivot is chosen on a
  locked view of it, with indices relative to \<open>ABR\<close>.  The two branches update the active
  columns by the pending correction and store the new columns of the update factors.
\<close>

definition PanelPivoted_1x1 ::
  "bool \<Rightarrow> nat \<Rightarrow> nat \<Rightarrow> nat \<Rightarrow> Matrix \<times> Matrix \<times> Matrix \<Rightarrow> error + Matrix \<times> Matrix \<times> Matrix" where
  "PanelPivoted_1x1 conjugate n off k = (\<lambda>(A, X, Y).
     (let XB0 = LockedViewRange X k 0 (n - off) k;
          y10 = LockedViewRange Y k 0 (k + 1) k;
          aB1 = ViewRange A (off + k) (off + k) n (off + k + 1);
          aB1 = Gemv (- 1) XB0 y10 1 aB1;
          aB1 = (if conjugate then MakeReal aB1 0 0 else aB1);
          A = WriteView A (off + k) (off + k) aB1
      in if Get A (off + k) (off + k) = 0 then Inl DivisionByZero
         else
           let delta11Inv = 1 / Get A (off + k) (off + k);
               a21 = ViewRange A (off + k + 1) (off + k) n (off + k + 1);
               y21 = (if conjugate then Conjugate a21 else a21);
               Y = WriteView Y (k + 1) k y21;
               a21 = Scale delta11Inv a21;
               A = WriteView A (off + k + 1) (off + k) a21;
               X = WriteView X (k + 1) k a21
           in Inr (A, X, Y)))"

definition PanelPivoted_2x2 ::
  "bool \<Rightarrow> nat \<Rightarrow> nat \<Rightarrow> nat \<Rightarrow> Matrix \<times> Matrix \<times> Matrix \<times> Matrix
    \<Rightarrow> error + Matrix \<times> Matrix \<times> Matrix \<times> Matrix" where
  "PanelPivoted_2x2 conjugate n off k = (\<lambda>(A, dSub, X, Y).
     (let XB0 = LockedViewRange X k 0 (n - off) k;
          Y10 = LockedViewRange Y k 0 (k + 2) k;
          AB1 = ViewRange A (off + k) (off + k) n (off + k + 2);
          psi = Get AB1 0 1;
          AB1 = Gemm (- 1) XB0 Y10 1 AB1;
          AB1 = Set AB1 0 1 psi;
          AB1 = (if conjugate then MakeReal (MakeReal AB1 0 0) 1 1 else AB1);
          A = WriteView A (off + k) (off + k) AB1;
          D11 = ViewRange A (off + k) (off + k) (off + k + 2) (off + k + 2);
          A21 = ViewRange A (off + k + 2) (off + k) n (off + k + 2);
          Y21 = (if conjugate then Conjugate A21 else A21);
          Y = WriteView Y (k + 2) k Y21
      in case Symmetric2x2Solve D11 A21 conjugate of
           Inl e \<Rightarrow> Inl e
         | Inr A21 \<Rightarrow>
             let A = WriteView A (off + k + 2) (off + k) A21;
                 X = WriteView X (k + 2) k A21;
                 dSub = Set dSub (off + k) 0 (Get D11 1 0);
                 A = Set A (off + k + 1) (off + k) 0
             in Inr (A, dSub, X, Y)))"

function PanelPivoted_loop ::
  "bool \<Rightarrow> LDLPivotType \<Rightarrow> real \<Rightarrow> nat \<Rightarrow> nat \<Rightarrow> nat
    \<Rightarrow> Matrix \<times> Matrix \<times> nat list \<times> Matrix \<times> Matrix \<Rightarrow> nat
    \<Rightarrow> error + Matrix \<times> Matrix \<times> nat list \<times> Matrix \<times> Matrix" where
  "PanelPivoted_loop conjugate pivotType gamma n off bsize st k =
     (case st of (A, dSub, p, X, Y) \<Rightarrow>
        if k < bsize then
          if pivotType = BUNCH_KAUFMAN_C then Inl LogicError
          else
            case ChoosePanelPivot (LockedViewRange A off off n n) X Y k pivotType gamma of
              Inl e \<Rightarrow> Inl e
            | Inr pivot \<Rightarrow>
                let ifrom = off + from' pivot ! (nb pivot - 1);
                    ito = (off + k) + (nb pivot - 1)
                in if k + nb pivot > bsize
                   then Inr (A, dSub, p, ResizeTo X (n - off) (bsize - 1),
                             ResizeTo Y (n - off) (bsize - 1))
                   else
                     let A = SymmetricSwap A ito ifrom conjugate;
                         X = RowSwap X (ito - off) (ifrom - off);
                         Y = RowSwap Y (ito - off) (ifrom - off)
                     in if nb pivot = 1 then
                          case PanelPivoted_1x1 conjugate n off k (A, X, Y) of
                            Inl e \<Rightarrow> Inl e
                          | Inr (A, X, Y) \<Rightarrow>
                              PanelPivoted_loop conjugate pivotType gamma n off bsize
                                (A, dSub, p[off + k := ifrom], X, Y) (k + 1)
                        else
                          case PanelPivoted_2x2 conjugate n off k (A, dSub, X, Y) of
                            Inl e \<Rightarrow> Inl e
                          | Inr (A, dSub, X, Y) \<Rightarrow>
                              PanelPivoted_loop conjugate pivotType gamma n off bsize
                                (A, dSub, (p[off + k := off + k])[off + k + 1 := ifrom], X, Y)
                                (k + 2)
        else Inr st)"
  by pat_completeness auto
termination
  by (relation "measure (\<lambda>(conjugate, pivotType, gamma, n, off, bsize, st, k). bsize - k)") auto

definition PanelPivoted ::
  "Matrix \<Rightarrow> Matrix \<Rightarrow> nat list \<Rightarrow> Matrix \<Rightarrow> Matrix \<Rightarrow> nat \<Rightarrow> nat \<Rightarrow> bool \<Rightarrow> LDLPivotType \<Rightarrow> real
    \<Rightarrow> error + Matrix \<times> Matrix \<times> nat list \<times> Matrix \<times> Matrix" where
  "PanelPivoted A dSub p X Y bsize off conjugate pivotType gamma =
     (let n = Height A
      in if n = 0 then Inr (A, dSub, p, X, Y)
         else if Width A \<noteq> n then Inl LogicError
         else if Height dSub \<noteq> n - 1 \<or> Width dSub \<noteq> 1 then Inl LogicError
         else if length p \<noteq> n then Inl LogicError
         else PanelPivoted_loop conjugate pivotType gamma n off bsize
                (A, dSub, p, Zeros (n - off) bsize, Zeros (n - off) bsize) 0)"

text \<open>
  \<open>ldl::BlockedPivoted\<close>.  \<open>Blocksize()\<close> reads a global setting and is a parameter here.  The
  loop advances by the width of \<open>X\<close>, which can be zero; the first parameter bounds the
  number of iterations, and \<open>None\<close> stands for not having returned within it.
  \<open>trailingUpdate\<close> is the update of the bottom-right block after a panel.
\<close>

definition trailingUpdate :: "nat \<Rightarrow> nat \<Rightarrow> Matrix \<Rightarrow> Matrix \<Rightarrow> Matrix \<Rightarrow> Matrix" where
  "trailingUpdate n k A X Y =
     (let nb = Width X;
          X21B = ViewRange X nb 0 (n - k) nb;
          Y21B = ViewRange Y nb 0 (n - k) nb;
          A22BR = ViewRange A (k + nb) (k + nb) n n
      in WriteView A (k + nb) (k + nb) (Trrk (- 1) X21B Y21B 1 A22BR))"

fun BlockedPivoted_loop ::
  "nat \<Rightarrow> nat \<Rightarrow> bool \<Rightarrow> LDLPivotType \<Rightarrow> real \<Rightarrow> nat
    \<Rightarrow> Matrix \<times> Matrix \<times> nat list \<times> Matrix \<times> Matrix \<Rightarrow> nat
    \<Rightarrow> (error + Matrix \<times> Matrix \<times> nat list) option" where
  "BlockedPivoted_loop fuel bsize conjugate pivotType gamma n (A, dSub, p, X, Y) k =
     (if k < n then
        case fuel of
          0 \<Rightarrow> None
        | Suc fuel' \<Rightarrow>
            let nbProp = min bsize (n - k)
            in case PanelPivoted A dSub p X Y nbProp k conjugate pivotType gamma of
                 Inl e \<Rightarrow> Some (Inl e)
               | Inr (A, dSub, p, X, Y) \<Rightarrow>
                   let nb = Width X;
                       A = trailingUpdate n k A X Y
                   in BlockedPivoted_loop fuel' bsize conjugate pivotType gamma n
                        (A, dSub, p, X, Y) (k + nb)
      else Some (Inr (A, dSub, p)))"

definition BlockedPivoted ::
  "nat \<Rightarrow> nat \<Rightarrow> Matrix \<Rightarrow> bool \<Rightarrow> LDLPivotType \<Rightarrow> real
    \<Rightarrow> (error + Matrix \<times> Matrix \<times> nat list) option" where
  "BlockedPivoted fuel bsize A conjugate pivotType gamma =
     (if Height A \<noteq> Width A then Some (Inl LogicError)
      else
        let n = Height A
        in if n = 0 then Some (Inr (A, Zeros 0 1, []))
           else BlockedPivoted_loop fuel bsize conjugate pivotType gamma n
                  (A, Zeros (n - 1) 1, replicate n 0, Zeros 0 0, Zeros 0 0) 0)"

text \<open>\<open>ldl::Pivoted\<close>: strategies A, C and D take the blocked driver, the others the unblocked.\<close>

definition Pivoted ::
  "nat \<Rightarrow> nat \<Rightarrow> Matrix \<Rightarrow> bool \<Rightarrow> LDLPivotType \<Rightarrow> real
    \<Rightarrow> (error + Matrix \<times> Matrix \<times> nat list) option" where
  "Pivoted fuel bsize A conjugate pivotType gamma =
     (case pivotType of
        BUNCH_KAUFMAN_A \<Rightarrow> BlockedPivoted fuel bsize A conjugate pivotType gamma
      | BUNCH_KAUFMAN_C \<Rightarrow> BlockedPivoted fuel bsize A conjugate pivotType gamma
      | BUNCH_KAUFMAN_D \<Rightarrow> BlockedPivoted fuel bsize A conjugate pivotType gamma
      | _ \<Rightarrow> Some (UnblockedPivoted A conjugate pivotType gamma))"


definition exampleOne :: Matrix where
  "exampleOne = MatrixOfRows [[5]]"

definition exampleSwap :: Matrix where
  "exampleSwap = MatrixOfRows [[0, 1], [1, 0]]"

text \<open>
  A symmetric matrix with an inverse on which the search of Bunch and Parlett chooses the
  pivot of rows 2 and 0, with its inverse and with factors for the pivot vector \<open>(2, 2, 2)\<close>.
\<close>

definition exampleParlett :: Matrix where
  "exampleParlett = MatrixOfRows [[0, 0, 5], [0, 1, 0], [5, 0, 0]]"

definition exampleParlettInverse :: Matrix where
  "exampleParlettInverse = MatrixOfRows [[0, 0, 1 / 5], [0, 1, 0], [1 / 5, 0, 0]]"

definition exampleParlettFactor :: Matrix where
  "exampleParlettFactor = MatrixOfRows [[0, 0, 0], [0, 0, 0], [0, 0, 1]]"

definition exampleParlettSub :: Matrix where
  "exampleParlettSub = \<lparr>Height = 2, Width = 1, Get = (\<lambda>i j. if i = 0 \<and> j = 0 then 5 else 0)\<rparr>"


section \<open>What the factorization returns, read as factors\<close>

text \<open>
  The unit lower triangular factor \<open>L\<close> is the strict lower triangle of the overwritten
  matrix with a unit diagonal; the block diagonal factor \<open>D\<close> has the diagonal of the
  overwritten matrix and the entries of the sub-diagonal vector below it, mirrored
  (conjugated in the Hermitian case) above it.  \<open>LDLt\<close> is the entry \<open>(i,j)\<close> of the product
  \<open>L D L\<^sup>T\<close> (\<open>L D L\<^sup>H\<close>) restricted to the first \<open>k\<close> columns of \<open>L\<close>.
\<close>

definition Lf :: "(nat \<Rightarrow> nat \<Rightarrow> complex) \<Rightarrow> nat \<Rightarrow> nat \<Rightarrow> complex" where
  "Lf a i s = (if i = s then 1 else if s < i then a i s else 0)"

definition Df :: "bool \<Rightarrow> (nat \<Rightarrow> nat \<Rightarrow> complex) \<Rightarrow> (nat \<Rightarrow> complex) \<Rightarrow> nat \<Rightarrow> nat \<Rightarrow> complex" where
  "Df c a d s t =
     (if s = t then a s s else if s = Suc t then d t else if t = Suc s then cj c (d s) else 0)"

definition LDLt ::
  "bool \<Rightarrow> (nat \<Rightarrow> nat \<Rightarrow> complex) \<Rightarrow> (nat \<Rightarrow> complex) \<Rightarrow> nat \<Rightarrow> nat \<Rightarrow> nat \<Rightarrow> complex" where
  "LDLt c a d k i j = (\<Sum>s<k. \<Sum>t<k. Lf a i s * Df c a d s t * cj c (Lf a j t))"

definition factorL :: "Matrix \<Rightarrow> nat \<Rightarrow> nat \<Rightarrow> complex" where
  "factorL A = Lf (Get A)"

definition factorD :: "bool \<Rightarrow> Matrix \<Rightarrow> Matrix \<Rightarrow> nat \<Rightarrow> nat \<Rightarrow> complex" where
  "factorD conjugate A dSub = Df conjugate (Get A) (\<lambda>t. Get dSub t 0)"

text \<open>
  The pivot vector stands for the permutation that exchanges \<open>k\<close> and \<open>p[k]\<close> for
  \<open>k = 0, 1, ...\<close> in turn; \<open>pivotPerm p k i\<close> is the original index of what the first \<open>k\<close>
  exchanges bring to position \<open>i\<close>.
\<close>

primrec pivotPerm :: "nat list \<Rightarrow> nat \<Rightarrow> nat \<Rightarrow> nat" where
  "pivotPerm p 0 i = i"
| "pivotPerm p (Suc k) i = pivotPerm p k (swapIndex k (p ! k) i)"

text \<open>
  The state of a factorization that has finished \<open>k\<close> columns: \<open>B\<close> is the permuted input,
  \<open>a\<close> holds the finished columns, \<open>d\<close> the sub-diagonal entries, and \<open>S\<close> is the trailing
  block still to be factored.
\<close>

definition factored ::
  "bool \<Rightarrow> nat \<Rightarrow> nat \<Rightarrow> (nat \<Rightarrow> nat \<Rightarrow> complex) \<Rightarrow> (nat \<Rightarrow> nat \<Rightarrow> complex) \<Rightarrow> (nat \<Rightarrow> complex)
    \<Rightarrow> (nat \<Rightarrow> nat \<Rightarrow> complex) \<Rightarrow> bool" where
  "factored c n k B a d S \<longleftrightarrow>
     (\<forall>i j. j \<le> i \<and> i < n \<longrightarrow> B i j = LDLt c a d k i j + (if k \<le> j then S i j else 0))
     \<and> (\<forall>i j. i < n \<and> j < n \<longrightarrow> B j i = cj c (B i j))
     \<and> (\<forall>t. k \<le> Suc t \<longrightarrow> d t = 0)
     \<and> (\<forall>t. d t \<noteq> 0 \<longrightarrow> d (Suc t) = 0 \<and> a (Suc t) t = 0)
     \<and> (c \<longrightarrow> (\<forall>s<k. Im (a s s) = 0) \<and> (\<forall>i. k \<le> i \<and> i < n \<longrightarrow> Im (S i i) = 0))"

text \<open>
  The input permuted by the first \<open>k\<close> exchanges, read from its stored lower triangle.
\<close>

definition permuted :: "bool \<Rightarrow> Matrix \<Rightarrow> nat list \<Rightarrow> nat \<Rightarrow> nat \<Rightarrow> nat \<Rightarrow> complex" where
  "permuted c A p k i j = symGet c A (pivotPerm p k i) (pivotPerm p k j)"

text \<open>
  The state of \<open>UnblockedPivoted\<close> before the iteration at \<open>k\<close>, and of \<open>PanelPivoted\<close> at
  offset \<open>off\<close> before the iteration at \<open>k\<close>: there the trailing block is \<open>A - X Y\<^sup>T\<close> with the
  \<open>k\<close> columns of the update factors, whose product is symmetric (Hermitian) on the rows
  still to be factored.
\<close>

definition unblockedInv ::
  "bool \<Rightarrow> Matrix \<Rightarrow> nat \<Rightarrow> nat \<Rightarrow> Matrix \<Rightarrow> Matrix \<Rightarrow> nat list \<Rightarrow> bool" where
  "unblockedInv c A0 n k A dSub p \<longleftrightarrow>
     length p = n \<and> (\<forall>t<k. p ! t < n)
     \<and> factored c n k (permuted c A0 p k) (Get A) (\<lambda>t. Get dSub t 0) (Get A)"

definition panelS :: "Matrix \<Rightarrow> Matrix \<Rightarrow> Matrix \<Rightarrow> nat \<Rightarrow> nat \<Rightarrow> nat \<Rightarrow> nat \<Rightarrow> complex" where
  "panelS A X Y off k i j = Get A i j - (\<Sum>t<k. Get X (i - off) t * Get Y (j - off) t)"

definition panelInv ::
  "bool \<Rightarrow> Matrix \<Rightarrow> nat \<Rightarrow> nat \<Rightarrow> nat \<Rightarrow> Matrix \<Rightarrow> Matrix \<Rightarrow> nat list \<Rightarrow> Matrix \<Rightarrow> Matrix \<Rightarrow> bool" where
  "panelInv c A0 n off k A dSub p X Y \<longleftrightarrow>
     length p = n \<and> (\<forall>t<off + k. p ! t < n)
     \<and> factored c n (off + k) (permuted c A0 p (off + k)) (Get A) (\<lambda>t. Get dSub t 0)
         (panelS A X Y off k)
     \<and> (\<forall>i j. k \<le> i \<and> i < n - off \<and> k \<le> j \<and> j < n - off \<longrightarrow>
           (\<Sum>t<k. Get X j t * Get Y i t) = cj c (\<Sum>t<k. Get X i t * Get Y j t))"

text \<open>
  What the factorization is to return for the input \<open>A\<close>: a pivot vector \<open>p\<close> whose
  entries name rows, so that it stands for a permutation, and factors with
  \<open>P A P\<^sup>T = L D L\<^sup>T\<close> (\<open>L D L\<^sup>H\<close>), where \<open>D\<close> has no two adjacent sub-diagonal entries, that
  is, blocks of order one and two only.
\<close>

definition factorizes :: "bool \<Rightarrow> Matrix \<Rightarrow> Matrix \<Rightarrow> Matrix \<Rightarrow> nat list \<Rightarrow> bool" where
  "factorizes conjugate A A' dSub p \<longleftrightarrow>
     (let n = Height A
      in length p = n \<and> (\<forall>k<n. p ! k < n)
         \<and> bij_betw (pivotPerm p n) {..<n} {..<n}
         \<and> (\<forall>i<n. \<forall>j<n. permuted conjugate A p n i j
               = (\<Sum>s<n. \<Sum>t<n. factorL A' i s * factorD conjugate A' dSub s t
                                    * cj conjugate (factorL A' j t)))
         \<and> (\<forall>t. Get dSub t 0 \<noteq> 0 \<longrightarrow> Suc t < n \<and> Get dSub (Suc t) 0 = 0 \<and> Get A' (Suc t) t = 0))"


section \<open>Distributed matrices, the store and the distribution proxies\<close>

datatype Dist = MC | MD | MR | VC | VR | STAR | CIRC

datatype DistWrap = ELEMENT | BLOCK

datatype Scalar = Float | Double | ComplexFloat | ComplexDouble

text \<open>
  What a proxy and the C interface read of a distributed matrix: its element type, its
  distribution pair and wrapping, its alignments and root, its grid, and its entries by
  global index.
\<close>

record AbstractDistMatrix =
  ElemType :: Scalar
  ColDist :: Dist
  RowDist :: Dist
  Wrap :: DistWrap
  ColAlign :: int
  RowAlign :: int
  Root :: int
  Grid :: nat
  DHeight :: nat
  DWidth :: nat
  Entries :: "nat \<Rightarrow> nat \<Rightarrow> complex"

record ElementalProxyCtrl =
  colConstrain :: bool
  rowConstrain :: bool
  rootConstrain :: bool
  colAlign :: int
  rowAlign :: int
  root' :: int

definition ElementalProxyCtrl_default :: ElementalProxyCtrl where
  "ElementalProxyCtrl_default =
     \<lparr>colConstrain = False, rowConstrain = False, rootConstrain = False,
      colAlign = 0, rowAlign = 0, root' = 0\<rparr>"

text \<open>
  The store holds the matrix objects by address; \<open>new\<close> takes the next address and
  \<open>delete\<close> empties a cell.  Allocations, copies and deletions are logged, so that a claim
  that none happens can be stated.
\<close>

datatype event = Alloc nat | CopyData nat nat | Delete nat

record Store =
  cells :: "AbstractDistMatrix option list"
  events :: "event list"

definition lookup :: "Store \<Rightarrow> nat \<Rightarrow> AbstractDistMatrix option" where
  "lookup s a = (if a < length (cells s) then cells s ! a else None)"

definition new :: "Store \<Rightarrow> AbstractDistMatrix \<Rightarrow> nat \<times> Store" where
  "new s m = (length (cells s), s\<lparr>cells := cells s @ [Some m], events := events s @ [Alloc (length (cells s))]\<rparr>)"

definition delete :: "Store \<Rightarrow> nat \<Rightarrow> Store" where
  "delete s a = s\<lparr>cells := (cells s)[a := None], events := events s @ [Delete a]\<rparr>"

definition modify :: "Store \<Rightarrow> nat \<Rightarrow> (AbstractDistMatrix \<Rightarrow> AbstractDistMatrix) \<Rightarrow> Store" where
  "modify s a f =
     (case lookup s a of None \<Rightarrow> s | Some m \<Rightarrow> s\<lparr>cells := (cells s)[a := Some (f m)]\<rparr>)"

text \<open>
  Modelled from the spec: the constructor \<open>DistMatrix<T,U,V>(grid)\<close>, \<open>SetRoot\<close>,
  \<open>AlignCols\<close>, \<open>AlignRows\<close>, \<open>Resize\<close> and \<open>Copy\<close> are not among the sources at hand.  A matrix
  is created bound to a grid with zero size; \<open>Copy\<close> moves every entry of the source into the
  destination, which takes the size of the source and keeps its own element type,
  distribution and alignments.
\<close>

definition DistMatrix_new :: "Scalar \<Rightarrow> Dist \<Rightarrow> Dist \<Rightarrow> nat \<Rightarrow> AbstractDistMatrix" where
  "DistMatrix_new T U V g =
     \<lparr>ElemType = T, ColDist = U, RowDist = V, Wrap = ELEMENT, ColAlign = 0, RowAlign = 0,
      Root = 0, Grid = g, DHeight = 0, DWidth = 0, Entries = (\<lambda>i j. 0)\<rparr>"

definition CopyInto :: "AbstractDistMatrix \<Rightarrow> AbstractDistMatrix \<Rightarrow> AbstractDistMatrix" where
  "CopyInto A B = B\<lparr>DHeight := DHeight A, DWidth := DWidth A, Entries := Entries A\<rparr>"

definition Copy :: "Store \<Rightarrow> nat \<Rightarrow> nat \<Rightarrow> Store" where
  "Copy s src dst =
     (case lookup s src of
        None \<Rightarrow> s
      | Some A \<Rightarrow> (modify s dst (CopyInto A))\<lparr>events := events s @ [CopyData src dst]\<rparr>)"

definition Resize :: "nat \<Rightarrow> nat \<Rightarrow> AbstractDistMatrix \<Rightarrow> AbstractDistMatrix" where
  "Resize h w B = B\<lparr>DHeight := h, DWidth := w\<rparr>"

text \<open>
  The allocation branch shared by the constructors of the three proxies: a fresh
  \<open>DistMatrix<T,U,V>\<close> on the grid of the source, with the constrained root and alignments.
\<close>

definition proxyAlloc ::
  "Scalar \<Rightarrow> Dist \<Rightarrow> Dist \<Rightarrow> Store \<Rightarrow> AbstractDistMatrix \<Rightarrow> ElementalProxyCtrl \<Rightarrow> nat \<times> Store" where
  "proxyAlloc T U V s A ctrl =
     (let m0 = DistMatrix_new T U V (Grid A);
          m1 = (if rootConstrain ctrl then m0\<lparr>Root := root' ctrl\<rparr> else m0);
          m2 = (if colConstrain ctrl then m1\<lparr>ColAlign := colAlign ctrl\<rparr> else m1);
          m3 = (if rowConstrain ctrl then m2\<lparr>RowAlign := rowAlign ctrl\<rparr> else m2)
      in new s m3)"

text \<open>
  The test of the constructors: same element type, same distribution pair, element-wise
  wrapping, and no active constraint violated.
\<close>

definition proxyMatches ::
  "Scalar \<Rightarrow> Dist \<Rightarrow> Dist \<Rightarrow> AbstractDistMatrix \<Rightarrow> ElementalProxyCtrl \<Rightarrow> bool" where
  "proxyMatches T U V A ctrl =
     (if ElemType A = T \<and> ColDist A = U \<and> RowDist A = V \<and> Wrap A = ELEMENT then
        (let colMisalign = (colConstrain ctrl \<and> ColAlign A \<noteq> colAlign ctrl);
             rowMisalign = (rowConstrain ctrl \<and> RowAlign A \<noteq> rowAlign ctrl);
             rootMisalign = (rootConstrain ctrl \<and> Root A \<noteq> root' ctrl)
         in \<not> colMisalign \<and> \<not> rowMisalign \<and> \<not> rootMisalign)
      else False)"

record DistMatrixReadProxy =
  locked :: bool
  needDelete :: bool
  orig :: nat
  prox :: nat

record DistMatrixWriteProxy =
  wNeedDelete :: bool
  wNeedWriteCopy :: bool
  wOrig :: nat
  wProx :: nat

text \<open>
  \<open>DistMatrixReadProxy\<close>: the constructor from a constant source sets \<open>locked\<close>, the one from
  a mutable source clears it; both are the same otherwise.  The result is \<open>None\<close> when the
  address of the source holds no matrix.
\<close>

definition DistMatrixReadProxy_ctor ::
  "Scalar \<Rightarrow> Dist \<Rightarrow> Dist \<Rightarrow> bool \<Rightarrow> Store \<Rightarrow> nat \<Rightarrow> ElementalProxyCtrl
    \<Rightarrow> (DistMatrixReadProxy \<times> Store) option" where
  "DistMatrixReadProxy_ctor T U V isConst s a ctrl =
     (case lookup s a of
        None \<Rightarrow> None
      | Some A \<Rightarrow>
          if proxyMatches T U V A ctrl
          then Some (\<lparr>locked = isConst, needDelete = False, orig = a, prox = a\<rparr>, s)
          else
            let (p, s1) = proxyAlloc T U V s A ctrl
            in Some (\<lparr>locked = isConst, needDelete = True, orig = a, prox = p\<rparr>, Copy s1 a p))"

definition DistMatrixReadProxy_dtor :: "Store \<Rightarrow> DistMatrixReadProxy \<Rightarrow> Store" where
  "DistMatrixReadProxy_dtor s p = (if needDelete p then delete s (prox p) else s)"

definition DistMatrixReadProxy_GetLocked :: "DistMatrixReadProxy \<Rightarrow> nat" where
  "DistMatrixReadProxy_GetLocked p = prox p"

definition DistMatrixReadProxy_Get :: "DistMatrixReadProxy \<Rightarrow> error + nat" where
  "DistMatrixReadProxy_Get p = (if locked p then Inl LogicError else Inr (prox p))"

text \<open>
  \<open>DistMatrixWriteProxy\<close>: without a match the fresh matrix only takes the size of the
  source.  The destructor receives the value of \<open>uncaught_exception()\<close>.
\<close>

definition DistMatrixWriteProxy_ctor ::
  "Scalar \<Rightarrow> Dist \<Rightarrow> Dist \<Rightarrow> Store \<Rightarrow> nat \<Rightarrow> ElementalProxyCtrl
    \<Rightarrow> (DistMatrixWriteProxy \<times> Store) option" where
  "DistMatrixWriteProxy_ctor T U V s a ctrl =
     (case lookup s a of
        None \<Rightarrow> None
      | Some A \<Rightarrow>
          if proxyMatches T U V A ctrl
          then Some (\<lparr>wNeedDelete = False, wNeedWriteCopy = False, wOrig = a, wProx = a\<rparr>, s)
          else
            let (p, s1) = proxyAlloc T U V s A ctrl
            in Some (\<lparr>wNeedDelete = True, wNeedWriteCopy = True, wOrig = a, wProx = p\<rparr>,
                     modify s1 p (Resize (DHeight A) (DWidth A))))"

definition DistMatrixWriteProxy_dtor :: "Store \<Rightarrow> DistMatrixWriteProxy \<Rightarrow> bool \<Rightarrow> Store" where
  "DistMatrixWriteProxy_dtor s p uncaught_exception =
     (let s1 = (if wNeedWriteCopy p \<and> \<not> uncaught_exception then Copy s (wProx p) (wOrig p) else s)
      in if wNeedDelete p then delete s1 (wProx p) else s1)"

definition DistMatrixWriteProxy_GetLocked :: "DistMatrixWriteProxy \<Rightarrow> nat" where
  "DistMatrixWriteProxy_GetLocked p = wProx p"

definition DistMatrixWriteProxy_Get :: "DistMatrixWriteProxy \<Rightarrow> nat" where
  "DistMatrixWriteProxy_Get p = wProx p"

text \<open>
  \<open>DistMatrixReadWriteProxy\<close> has the fields and the destructor of the write proxy; its
  constructor copies the source into the fresh matrix.
\<close>

definition DistMatrixReadWriteProxy_ctor ::
  "Scalar \<Rightarrow> Dist \<Rightarrow> Dist \<Rightarrow> Store \<Rightarrow> nat \<Rightarrow> ElementalProxyCtrl
    \<Rightarrow> (DistMatrixWriteProxy \<times> Store) option" where
  "DistMatrixReadWriteProxy_ctor T U V s a ctrl =
     (case lookup s a of
        None \<Rightarrow> None
      | Some A \<Rightarrow>
          if proxyMatches T U V A ctrl
          then Some (\<lparr>wNeedDelete = False, wNeedWriteCopy = False, wOrig = a, wProx = a\<rparr>, s)
          else
            let (p, s1) = proxyAlloc T U V s A ctrl
            in Some (\<lparr>wNeedDelete = True, wNeedWriteCopy = True, wOrig = a, wProx = p\<rparr>,
                     Copy s1 a p))"

definition DistMatrixReadWriteProxy_dtor :: "Store \<Rightarrow> DistMatrixWriteProxy \<Rightarrow> bool \<Rightarrow> Store" where
  "DistMatrixReadWriteProxy_dtor s p uncaught_exception =
     (let s1 = (if wNeedWriteCopy p \<and> \<not> uncaught_exception then Copy s (wProx p) (wOrig p) else s)
      in if wNeedDelete p then delete s1 (wProx p) else s1)"

definition DistMatrixReadWriteProxy_GetLocked :: "DistMatrixWriteProxy \<Rightarrow> nat" where
  "DistMatrixReadWriteProxy_GetLocked p = wProx p"

definition DistMatrixReadWriteProxy_Get :: "DistMatrixWriteProxy \<Rightarrow> nat" where
  "DistMatrixReadWriteProxy_Get p = wProx p"

text \<open>A store with one \<open>[MC,MR]\<close> matrix of doubles at address 0, for the examples.\<close>

definition exampleDistMatrix :: AbstractDistMatrix where
  "exampleDistMatrix =
     (DistMatrix_new Double MC MR 0)\<lparr>DHeight := 2, DWidth := 2,
        Entries := (\<lambda>i j. if i = j then 1 else 0)\<rparr>"

definition exampleStore :: Store where
  "exampleStore = \<lparr>cells = [Some exampleDistMatrix], events = []\<rparr>"

definition exampleWriteProxy :: DistMatrixWriteProxy where
  "exampleWriteProxy = \<lparr>wNeedDelete = True, wNeedWriteCopy = True, wOrig = 0, wProx = 1\<rparr>"

definition exampleStoreAfterWrite :: Store where
  "exampleStoreAfterWrite =
     \<lparr>cells = [Some exampleDistMatrix,
               Some ((DistMatrix_new Double MC STAR 0)\<lparr>DHeight := 2, DWidth := 2\<rparr>)],
      events = [Alloc 1]\<rparr>"

definition exampleStoreAfterReadWrite :: Store where
  "exampleStoreAfterReadWrite =
     \<lparr>cells = [Some exampleDistMatrix,
               Some (CopyInto exampleDistMatrix (DistMatrix_new Double MC STAR 0))],
      events = [Alloc 1, CopyData 0 1]\<rparr>"


section \<open>The C interface: creation with a given distribution pair, and the diagonal\<close>

datatype ElError = EL_SUCCESS | EL_ALLOC_ERROR | EL_LOGIC_ERROR | EL_RUNTIME_ERROR | EL_ERROR

text \<open>
  The four instances \<open>_s\<close>, \<open>_d\<close>, \<open>_c\<close>, \<open>_z\<close> of each function differ in the element type
  only, which is the first parameter here.  \<open>RuntimeError\<close> throws a \<open>std::runtime_error\<close>,
  which \<open>CATCH\<close> turns into \<open>EL_RUNTIME_ERROR\<close>; the handle is then not written.
\<close>

definition ElDistMatrixCreateSpecific ::
  "Scalar \<Rightarrow> Dist \<Rightarrow> Dist \<Rightarrow> nat \<Rightarrow> ElError \<times> AbstractDistMatrix option" where
  "ElDistMatrixCreateSpecific T U V grid =
     (if U = CIRC \<and> V = CIRC then (EL_SUCCESS, Some (DistMatrix_new T CIRC CIRC grid))
      else if U = MC \<and> V = MR then (EL_SUCCESS, Some (DistMatrix_new T MC MR grid))
      else if U = MC \<and> V = STAR then (EL_SUCCESS, Some (DistMatrix_new T MC STAR grid))
      else if U = MD \<and> V = STAR then (EL_SUCCESS, Some (DistMatrix_new T MD STAR grid))
      else if U = MR \<and> V = MC then (EL_SUCCESS, Some (DistMatrix_new T MR MC grid))
      else if U = MR \<and> V = STAR then (EL_SUCCESS, Some (DistMatrix_new T MR STAR grid))
      else if U = STAR \<and> V = MC then (EL_SUCCESS, Some (DistMatrix_new T STAR MC grid))
      else if U = STAR \<and> V = MD then (EL_SUCCESS, Some (DistMatrix_new T STAR MD grid))
      else if U = STAR \<and> V = MR then (EL_SUCCESS, Some (DistMatrix_new T STAR MR grid))
      else if U = STAR \<and> V = STAR then (EL_SUCCESS, Some (DistMatrix_new T STAR STAR grid))
      else if U = STAR \<and> V = VC then (EL_SUCCESS, Some (DistMatrix_new T STAR VC grid))
      else if U = STAR \<and> V = VR then (EL_SUCCESS, Some (DistMatrix_new T STAR VR grid))
      else if U = VC \<and> V = STAR then (EL_SUCCESS, Some (DistMatrix_new T VC STAR grid))
      else if U = VR \<and> V = STAR then (EL_SUCCESS, Some (DistMatrix_new T VR STAR grid))
      else (EL_RUNTIME_ERROR, None))"

text \<open>
  Modelled from the spec: the member function \<open>GetDiagonal(d, offset)\<close> is not among the
  sources at hand.  It fills \<open>d\<close> with the diagonal of the given offset, as a column vector.
\<close>

definition DiagonalLength :: "nat \<Rightarrow> nat \<Rightarrow> int \<Rightarrow> nat" where
  "DiagonalLength h w offset =
     (if offset \<ge> 0 then min h (w - nat offset) else min (h - nat (- offset)) w)"

definition GetDiagonal :: "AbstractDistMatrix \<Rightarrow> AbstractDistMatrix \<Rightarrow> int \<Rightarrow> AbstractDistMatrix" where
  "GetDiagonal A d offset =
     d\<lparr>DHeight := DiagonalLength (DHeight A) (DWidth A) offset, DWidth := 1,
       Entries := (\<lambda>i j. if offset \<ge> 0 then Entries A i (i + nat offset)
                          else Entries A (i + nat (- offset)) i)\<rparr>"

definition ElDistMatrixGetDiagonal ::
  "Scalar \<Rightarrow> AbstractDistMatrix \<Rightarrow> int \<Rightarrow> ElError \<times> AbstractDistMatrix option" where
  "ElDistMatrixGetDiagonal T A offset =
     (let grid = Grid A;
          U = ColDist A;
          V = RowDist A
      in if U = CIRC \<and> V = CIRC
           then (EL_SUCCESS, Some (GetDiagonal A (DistMatrix_new T CIRC CIRC grid) offset))
         else if U = MC \<and> V = MR
           then (EL_SUCCESS, Some (GetDiagonal A (DistMatrix_new T MD STAR grid) offset))
         else if U = MC \<and> V = STAR
           then (EL_SUCCESS, Some (GetDiagonal A (DistMatrix_new T MC STAR grid) offset))
         else if U = MD \<and> V = STAR
           then (EL_SUCCESS, Some (GetDiagonal A (DistMatrix_new T MD STAR grid) offset))
         else if U = STAR \<and> V = MC
           then (EL_SUCCESS, Some (GetDiagonal A (DistMatrix_new T MC STAR grid) offset))
         else if U = STAR \<and> V = MD
           then (EL_SUCCESS, Some (GetDiagonal A (DistMatrix_new T MD STAR grid) offset))
         else if U = STAR \<and> V = MR
           then (EL_SUCCESS, Some (GetDiagonal A (DistMatrix_new T MR STAR grid) offset))
         else if U = STAR \<and> V = STAR
           then (EL_SUCCESS, Some (GetDiagonal A (DistMatrix_new T STAR STAR grid) offset))
         else if U = STAR \<and> V = VC
           then (EL_SUCCESS, Some (GetDiagonal A (DistMatrix_new T VC STAR grid) offset))
         else if U = STAR \<and> V = VR
           then (EL_SUCCESS, Some (GetDiagonal A (DistMatrix_new T VR STAR grid) offset))
         else if U = VC \<and> V = STAR
           then (EL_SUCCESS, Some (GetDiagonal A (DistMatrix_new T VC STAR grid) offset))
         else if U = VR \<and> V = STAR
           then (EL_SUCCESS, Some (GetDiagonal A (DistMatrix_new T VR STAR grid) offset))
         else (EL_RUNTIME_ERROR, None))"

text \<open>The pairs the two functions accept, and the distribution of the diagonal.\<close>

definition createPairs :: "(Dist \<times> Dist) list" where
  "createPairs =
     [(CIRC, CIRC), (MC, MR), (MC, STAR), (MD, STAR), (MR, MC), (MR, STAR), (STAR, MC),
      (STAR, MD), (STAR, MR), (STAR, STAR), (STAR, VC), (STAR, VR), (VC, STAR), (VR, STAR)]"

definition diagonalTable :: "((Dist \<times> Dist) \<times> (Dist \<times> Dist)) list" where
  "diagonalTable =
     [((CIRC, CIRC), (CIRC, CIRC)), ((MC, MR), (MD, STAR)), ((MC, STAR), (MC, STAR)),
      ((MD, STAR), (MD, STAR)), ((STAR, MC), (MC, STAR)), ((STAR, MD), (MD, STAR)),
      ((STAR, MR), (MR, STAR)), ((STAR, STAR), (STAR, STAR)), ((STAR, VC), (VC, STAR)),
      ((STAR, VR), (VR, STAR)), ((VC, STAR), (VC, STAR)), ((VR, STAR), (VR, STAR))]"

section \<open>Properties of the maximum searches\<close>

lemma MaxLoop_nonneg: "0 \<le> val (MaxLoop f m)"
  by (induction m) (auto simp: Let_def intro: order_trans)

lemma MaxLoop_ge: "i < m \<Longrightarrow> cmod (f i) \<le> val (MaxLoop f m)"
  by (induction m) (auto simp: Let_def less_Suc_eq)

lemma MaxLoop_index:
  "0 < m \<Longrightarrow> index (MaxLoop f m) < m \<and> cmod (f (index (MaxLoop f m))) = val (MaxLoop f m)"
proof (induction m)
  case 0
  then show ?case by simp
next
  case (Suc m)
  show ?case
  proof (cases "m = 0")
    case True
    then show ?thesis by (auto simp: Let_def)
  next
    case False
    with Suc show ?thesis by (auto simp: Let_def)
  qed
qed

lemma MaxLoop_first: "j < index (MaxLoop f m) \<Longrightarrow> cmod (f j) < val (MaxLoop f m)"
proof (induction m)
  case 0
  then show ?case by simp
next
  case (Suc m)
  show ?case
  proof (cases "cmod (f m) > val (MaxLoop f m)")
    case True
    with Suc.prems have "j < m" by (simp add: Let_def)
    then have "cmod (f j) \<le> val (MaxLoop f m)" by (rule MaxLoop_ge)
    with True show ?thesis by (simp add: Let_def)
  next
    case False
    with Suc show ?thesis by (simp add: Let_def)
  qed
qed

lemma MaxLoop_zero_iff: "val (MaxLoop f m) = 0 \<longleftrightarrow> (\<forall>i<m. f i = 0)"
proof
  assume z: "val (MaxLoop f m) = 0"
  show "\<forall>i<m. f i = 0"
  proof (intro allI impI)
    fix i assume "i < m"
    then have "cmod (f i) \<le> 0" using MaxLoop_ge [of i m f] z by simp
    then show "f i = 0" by simp
  qed
next
  assume "\<forall>i<m. f i = 0"
  then show "val (MaxLoop f m) = 0"
    by (induction m) (auto simp: Let_def)
qed

lemma MaxLoop_pos: "0 < val (MaxLoop f m) \<Longrightarrow> 0 < m"
  by (cases m) auto

lemma MaxLoop_cong: "(\<And>i. i < m \<Longrightarrow> f i = g i) \<Longrightarrow> MaxLoop f m = MaxLoop g m"
  by (induction m) (auto simp: Let_def)

lemma MaxLoop_Max: "val (MaxLoop f m) = Max (insert 0 ((\<lambda>i. cmod (f i)) ` {..<m}))"
proof (induction m)
  case 0
  then show ?case by simp
next
  case (Suc m)
  have fin: "finite (insert 0 ((\<lambda>i. cmod (f i)) ` {..<m}))" by simp
  have "Max (insert 0 ((\<lambda>i. cmod (f i)) ` {..<Suc m}))
        = Max (insert (cmod (f m)) (insert 0 ((\<lambda>i. cmod (f i)) ` {..<m})))"
    by (simp add: lessThan_Suc insert_commute)
  also have "\<dots> = max (cmod (f m)) (Max (insert 0 ((\<lambda>i. cmod (f i)) ` {..<m})))"
    by (rule Max_insert) (use fin in auto)
  also have "\<dots> = max (cmod (f m)) (val (MaxLoop f m))" by (simp add: Suc.IH)
  finally show ?case by (auto simp: Let_def max_def)
qed

text \<open>Column views and row views as vectors.\<close>

lemma VectorMax_column:
  "VectorMax (LockedViewRange A i0 j0 i1 (Suc j0)) = MaxLoop (\<lambda>t. Get A (i0 + t) j0) (i1 - i0)"
  by (simp add: VectorMax_def vecGet_def [abs_def] vecLen_def LockedViewRange_def)

lemma VectorMax_row:
  "VectorMax (LockedViewRange A i0 j0 (Suc i0) j1) = MaxLoop (\<lambda>t. Get A i0 (j0 + t)) (j1 - j0)"
proof -
  have "vecLen (LockedViewRange A i0 j0 (Suc i0) j1) = j1 - j0"
    by (simp add: vecLen_def LockedViewRange_def)
  moreover have "MaxLoop (vecGet (LockedViewRange A i0 j0 (Suc i0) j1)) (j1 - j0)
      = MaxLoop (\<lambda>t. Get A i0 (j0 + t)) (j1 - j0)"
    by (rule MaxLoop_cong) (auto simp: vecGet_def LockedViewRange_def)
  ultimately show ?thesis by (simp add: VectorMax_def)
qed

lemma a21MaxOf_eq: "a21MaxOf A = MaxLoop (\<lambda>t. Get A (Suc t) 0) (Height A - 1)"
  using VectorMax_column [of A 1 0 "Height A"] by (simp add: a21MaxOf_def)

lemma rowMaxValA_eq:
  "rowMaxValA A r = max (val (MaxLoop (\<lambda>t. Get A r t) r))
                       (val (MaxLoop (\<lambda>t. Get A (Suc (r + t)) r) (Height A - Suc r)))"
  using VectorMax_column [of A "Suc r" r "Height A"] VectorMax_row [of A r 0 r]
  by (simp add: rowMaxValA_def)

lemma rowMaxValD_eq:
  "rowMaxValD A r = max (val (MaxLoop (\<lambda>t. Get A r t) r))
                       (val (MaxLoop (\<lambda>t. Get A (r + t) r) (Height A - r)))"
  using VectorMax_column [of A r r "Height A"] VectorMax_row [of A r 0 r]
  by (simp add: rowMaxValD_def)

text \<open>The corrected vectors of the panel variants, entry by entry.\<close>

lemma vecGet_row: "Height x = 1 \<Longrightarrow> t < Width x \<Longrightarrow> vecGet x t = Get x 0 t"
  by (auto simp: vecGet_def)

lemma Get_panelColumn: "Get (panelColumn A X Y k) i 0 = corrected A X Y k (k + i) k"
proof -
  have "(\<Sum>t<k. Get X (k + i) t * vecGet (LockedViewRange Y k 0 (Suc k) k) t)
        = (\<Sum>t<k. Get X (k + i) t * Get Y k t)"
    by (rule sum.cong) (auto simp: vecGet_def LockedViewRange_def)
  then show ?thesis
    by (simp add: panelColumn_def Gemv_def corrected_def LockedViewRange_def)
qed

lemma Get_panelBottom: "Get (panelBottom A X Y k r) i 0 = corrected A X Y k (r + i) r"
proof -
  have "(\<Sum>t<k. Get X (r + i) t * vecGet (LockedViewRange Y r 0 (Suc r) k) t)
        = (\<Sum>t<k. Get X (r + i) t * Get Y r t)"
    by (rule sum.cong) (auto simp: vecGet_def LockedViewRange_def)
  then show ?thesis
    by (simp add: panelBottom_def Gemv_def corrected_def LockedViewRange_def)
qed

lemma dims_panelColumn: "Height (panelColumn A X Y k) = Height A - k" "Width (panelColumn A X Y k) = 1"
  by (simp_all add: panelColumn_def Gemv_def LockedViewRange_def)

lemma dims_panelBottom: "Height (panelBottom A X Y k r) = Height A - r" "Width (panelBottom A X Y k r) = 1"
  by (simp_all add: panelBottom_def Gemv_def LockedViewRange_def)

lemma dims_panelLeft: "Height (panelLeft A X Y k r) = 1" "Width (panelLeft A X Y k r) = r - k"
  by (simp_all add: panelLeft_def Gemv_def LockedViewRange_def)

lemma vecGet_rowview:
  "t < j1 - j0 \<Longrightarrow> vecGet (LockedViewRange M i0 j0 (Suc i0) j1) t = Get M i0 (j0 + t)"
  by (auto simp: vecGet_def LockedViewRange_def)

lemma Gemv_sel:
  "Height (Gemv a M x b y) = Height y" "Width (Gemv a M x b y) = Width y"
  "Get (Gemv a M x b y) i j =
     a * (\<Sum>t<Width M. Get M (if Width y = 1 then i else j) t * vecGet x t) + b * Get y i j"
  by (simp_all add: Gemv_def)

lemma vecGet_panelLeft:
  assumes "t < r - k"
  shows "vecGet (panelLeft A X Y k r) t = corrected A X Y k r (k + t)"
proof -
  let ?xMid = "LockedViewRange X r 0 (Suc r) k"
  let ?YBL = "LockedViewRange Y k 0 r k"
  let ?aLeft = "LockedViewRange A r k (Suc r) r"
  have s: "(\<Sum>s<k. Get ?YBL t s * vecGet ?xMid s) = (\<Sum>s<k. Get X r s * Get Y (k + t) s)"
    by (rule sum.cong) (simp_all add: vecGet_rowview, simp add: LockedViewRange_def)
  have w: "Width ?YBL = k" "Width ?aLeft = r - k"
    by (simp_all add: LockedViewRange_def)
  have g: "Get ?aLeft 0 t = Get A r (k + t)"
    by (simp add: LockedViewRange_def)
  have p: "panelLeft A X Y k r = Gemv (- 1) ?YBL ?xMid 1 ?aLeft"
    by (simp add: panelLeft_def)
  have "vecGet (panelLeft A X Y k r) t = Get (Gemv (- 1) ?YBL ?xMid 1 ?aLeft) 0 t"
    unfolding p using assms by (auto simp: vecGet_def Gemv_sel w)
  also have "\<dots> = - (\<Sum>s<k. Get ?YBL t s * vecGet ?xMid s) + Get ?aLeft 0 t"
    using assms by (auto simp: Gemv_sel w)
  finally show ?thesis
    by (simp add: s g corrected_def)
qed

lemma panelA21Max_eq:
  "panelA21Max A X Y k = MaxLoop (\<lambda>t. corrected A X Y k (Suc (k + t)) k) (Height A - Suc k)"
  by (simp add: panelA21Max_def VectorMax_def vecGet_def [abs_def] vecLen_def LockedViewRange_def
      Get_panelColumn)

lemma VectorMax_panelLeft:
  "VectorMax (panelLeft A X Y k r) = MaxLoop (\<lambda>t. corrected A X Y k r (k + t)) (r - k)"
proof -
  have "vecLen (panelLeft A X Y k r) = r - k"
    by (simp add: vecLen_def dims_panelLeft)
  moreover have "MaxLoop (vecGet (panelLeft A X Y k r)) (r - k)
      = MaxLoop (\<lambda>t. corrected A X Y k r (k + t)) (r - k)"
    by (rule MaxLoop_cong) (simp add: vecGet_panelLeft)
  ultimately show ?thesis by (simp add: VectorMax_def)
qed

lemma panelRowMaxValA_eq:
  "panelRowMaxValA A X Y k r =
     max (val (MaxLoop (\<lambda>t. corrected A X Y k r (k + t)) (r - k)))
         (val (MaxLoop (\<lambda>t. corrected A X Y k (Suc (r + t)) r) (Height A - Suc r)))"
proof -
  have "VectorMax (LockedViewRange (panelBottom A X Y k r) 1 0 (Height A - r) 1)
      = MaxLoop (\<lambda>t. corrected A X Y k (Suc (r + t)) r) (Height A - Suc r)"
    using VectorMax_column [of "panelBottom A X Y k r" 1 0 "Height A - r"]
    by (simp add: Get_panelBottom)
  then show ?thesis
    by (simp add: panelRowMaxValA_def VectorMax_panelLeft)
qed

lemma panelRowMaxValD_eq:
  "panelRowMaxValD A X Y k r =
     max (val (MaxLoop (\<lambda>t. corrected A X Y k r (k + t)) (r - k)))
         (val (MaxLoop (\<lambda>t. corrected A X Y k (r + t) r) (Height A - r)))"
proof -
  have "VectorMax (panelBottom A X Y k r)
      = MaxLoop (\<lambda>t. corrected A X Y k (r + t) r) (Height A - r)"
    by (simp add: VectorMax_def vecGet_def [abs_def] vecLen_def dims_panelBottom Get_panelBottom)
  then show ?thesis
    by (simp add: panelRowMaxValD_def VectorMax_panelLeft)
qed

lemma Get_correctedTrailing:
  "Get (correctedTrailing A X Y k) i j = corrected A X Y k (k + i) (k + j)"
  "Height (correctedTrailing A X Y k) = Height A - k"
  by (simp_all add: correctedTrailing_def)

lemma a21MaxOf_correctedTrailing:
  "a21MaxOf (correctedTrailing A X Y k) = panelA21Max A X Y k"
  by (simp add: a21MaxOf_eq panelA21Max_eq Get_correctedTrailing)

lemma rowMaxValA_correctedTrailing:
  "rowMaxValA (correctedTrailing A X Y k) r = panelRowMaxValA A X Y k (k + r)"
  by (simp add: rowMaxValA_eq panelRowMaxValA_eq Get_correctedTrailing add.assoc)

lemma rowMaxValD_correctedTrailing:
  "rowMaxValD (correctedTrailing A X Y k) r = panelRowMaxValD A X Y k (k + r)"
  by (simp add: rowMaxValD_eq panelRowMaxValD_eq Get_correctedTrailing add.assoc)

lemma PanelBunchKaufmanA_refines:
  "k < Height A \<Longrightarrow>
   PanelBunchKaufmanA A X Y k g
     = map_sum id (shiftPivot k) (BunchKaufmanA (correctedTrailing A X Y k) g)"
  by (simp add: PanelBunchKaufmanA_def BunchKaufmanA_def Let_def shiftPivot_def
      a21MaxOf_correctedTrailing rowMaxValA_correctedTrailing Get_correctedTrailing
      Get_panelColumn Get_panelBottom add.commute add.left_commute)

lemma PanelBunchKaufmanD_refines:
  "k < Height A \<Longrightarrow>
   PanelBunchKaufmanD A X Y k g
     = map_sum id (shiftPivot k) (BunchKaufmanD (correctedTrailing A X Y k) g)"
  by (simp add: PanelBunchKaufmanD_def BunchKaufmanD_def Let_def shiftPivot_def
      a21MaxOf_correctedTrailing rowMaxValD_correctedTrailing Get_correctedTrailing
      Get_panelColumn Get_panelBottom add.commute add.left_commute)

text \<open>When the first test fails, the column maximum is positive and bounds the row maximum
  from below.\<close>

lemma first_test_fails_pos:
  assumes "\<not> alpha \<ge> gamma * val (MaxLoop f m)" "0 \<le> alpha"
  shows "0 < val (MaxLoop f m)"
proof (rule ccontr)
  assume "\<not> 0 < val (MaxLoop f m)"
  with MaxLoop_nonneg [of f m] have "val (MaxLoop f m) = 0" by simp
  with assms show False by simp
qed

lemma a21MaxOf_attained:
  assumes "0 < val (a21MaxOf A)"
  shows "index (a21MaxOf A) + 1 < Height A"
    and "cmod (Get A (index (a21MaxOf A) + 1) 0) = val (a21MaxOf A)"
proof -
  from assms have "0 < Height A - 1"
    unfolding a21MaxOf_eq by (rule MaxLoop_pos)
  from MaxLoop_index [OF this, of "\<lambda>t. Get A (Suc t) 0"]
  show "index (a21MaxOf A) + 1 < Height A"
    and "cmod (Get A (index (a21MaxOf A) + 1) 0) = val (a21MaxOf A)"
    by (auto simp: a21MaxOf_eq)
qed

lemma rowMaxValA_ge_left: "j < r \<Longrightarrow> cmod (Get A r j) \<le> rowMaxValA A r"
  using MaxLoop_ge [of j r "\<lambda>t. Get A r t"] by (simp add: rowMaxValA_eq)

lemma rowMaxValD_ge_left: "j < r \<Longrightarrow> cmod (Get A r j) \<le> rowMaxValD A r"
  using MaxLoop_ge [of j r "\<lambda>t. Get A r t"] by (simp add: rowMaxValD_eq)

lemma rowMaxValA_pos:
  assumes "0 < val (a21MaxOf A)"
  shows "val (a21MaxOf A) \<le> rowMaxValA A (index (a21MaxOf A) + 1)"
  using rowMaxValA_ge_left [of 0 "index (a21MaxOf A) + 1" A] a21MaxOf_attained(2) [OF assms]
  by simp

lemma rowMaxValD_pos:
  assumes "0 < val (a21MaxOf A)"
  shows "val (a21MaxOf A) \<le> rowMaxValD A (index (a21MaxOf A) + 1)"
  using rowMaxValD_ge_left [of 0 "index (a21MaxOf A) + 1" A] a21MaxOf_attained(2) [OF assms]
  by simp

lemma BunchKaufmanA_no_div:
  "BunchKaufmanA A g \<noteq> Inl DivisionByZero"
proof -
  { fix gamma :: real
    assume f: "\<not> cmod (Get A 0 0) \<ge> gamma * val (a21MaxOf A)"
    then have "0 < val (a21MaxOf A)"
      unfolding a21MaxOf_eq by (rule first_test_fails_pos) simp
    then have "rowMaxValA A (index (a21MaxOf A) + 1) \<noteq> 0"
      using rowMaxValA_pos [of A] by linarith }
  then show ?thesis
    by (auto simp: BunchKaufmanA_def Let_def)
qed

lemma BunchKaufmanD_no_div:
  "BunchKaufmanD A g \<noteq> Inl DivisionByZero"
proof -
  { fix gamma :: real
    assume f: "\<not> cmod (Get A 0 0) \<ge> gamma * val (a21MaxOf A)"
    then have "0 < val (a21MaxOf A)"
      unfolding a21MaxOf_eq by (rule first_test_fails_pos) simp
    then have "rowMaxValD A (index (a21MaxOf A) + 1) \<noteq> 0"
      using rowMaxValD_pos [of A] by linarith }
  then show ?thesis
    by (auto simp: BunchKaufmanD_def Let_def)
qed

lemma image_shift: "(\<lambda>t. g (a + t)) ` {..<m} = g ` {a..<a + m}" for a m :: nat
proof -
  have "(\<lambda>t. a + t) ` {..<m} = {a..<a + m}"
  proof (intro set_eqI iffI)
    fix x assume "x \<in> {a..<a + m}"
    then have "x = a + (x - a)" "x - a < m" by auto
    then show "x \<in> (\<lambda>t. a + t) ` {..<m}" by blast
  qed auto
  then show ?thesis by (metis image_image)
qed

lemma val_a21MaxOf: "val (a21MaxOf A) = colMaxAbs A"
proof -
  have "(\<lambda>t. cmod (Get A (Suc t) 0)) ` {..<Height A - 1}
      = (\<lambda>i. cmod (Get A i 0)) ` {1..<1 + (Height A - 1)}"
    using image_shift [of "\<lambda>i. cmod (Get A i 0)" 1 "Height A - 1"] by simp
  moreover have "{1..<1 + (Height A - 1)} = {1..<Height A}" by auto
  ultimately show ?thesis
    by (simp add: a21MaxOf_eq MaxLoop_Max colMaxAbs_def)
qed

lemma max_Max_insert0:
  assumes "finite S" "finite T"
  shows "max (Max (insert (0::real) S)) (Max (insert 0 T)) = Max (insert 0 (S \<union> T))"
proof -
  have "Max (insert 0 S \<union> insert 0 T) = max (Max (insert 0 S)) (Max (insert 0 T))"
    by (rule Max_Un) (use assms in auto)
  then show ?thesis by simp
qed

lemma rowMaxValA_Max: "rowMaxValA A r = rowMaxAbsA A r"
proof -
  have "(\<lambda>t. cmod (Get A (Suc (r + t)) r)) ` {..<Height A - Suc r}
      = (\<lambda>i. cmod (Get A i r)) ` {Suc r..<Suc r + (Height A - Suc r)}"
    using image_shift [of "\<lambda>i. cmod (Get A i r)" "Suc r" "Height A - Suc r"] by simp
  moreover have "{Suc r..<Suc r + (Height A - Suc r)} = {Suc r..<Height A}" by auto
  ultimately show ?thesis
    by (simp add: rowMaxValA_eq MaxLoop_Max rowMaxAbsA_def max_Max_insert0)
qed

lemma rowMaxValD_Max: "rowMaxValD A r = rowMaxAbsD A r"
proof -
  have "(\<lambda>t. cmod (Get A (r + t) r)) ` {..<Height A - r}
      = (\<lambda>i. cmod (Get A i r)) ` {r..<r + (Height A - r)}"
    using image_shift [of "\<lambda>i. cmod (Get A i r)" r "Height A - r"] by simp
  moreover have "{r..<r + (Height A - r)} = {r..<Height A}" by auto
  ultimately show ?thesis
    by (simp add: rowMaxValD_eq MaxLoop_Max rowMaxAbsD_def max_Max_insert0)
qed

lemma second_test_iff:
  fixes alpha gamma omega rho :: real
  assumes "0 < rho"
  shows "alpha \<ge> gamma * omega * (omega / rho) \<longleftrightarrow> alpha * rho \<ge> gamma * omega\<^sup>2"
  using assms by (simp add: field_simps power2_eq_square)

lemma decide_arith:
  fixes al ga om rho :: real
  assumes "\<not> al \<ge> ga * om \<Longrightarrow> 0 < rho"
  shows "(if al \<ge> ga * om then a else if rho = 0 then d
          else if al \<ge> ga * om * (om / rho) then b else c)
       = (if al \<ge> ga * om then a else if al * rho \<ge> ga * om\<^sup>2 then b else c)"
proof (cases "al \<ge> ga * om")
  case True
  then show ?thesis by simp
next
  case False
  then have "0 < rho" by (rule assms)
  then have "rho \<noteq> 0" by simp
  with False second_test_iff [OF \<open>0 < rho\<close>, of ga om al] show ?thesis
    by (simp only: if_False)
qed

lemma rowMaxValA_pos':
  assumes "\<not> cmod (Get A 0 0) \<ge> gamma * val (a21MaxOf A)"
  shows "0 < rowMaxValA A (index (a21MaxOf A) + 1)"
proof -
  from assms have "0 < val (a21MaxOf A)"
    unfolding a21MaxOf_eq by (rule first_test_fails_pos) simp
  then show ?thesis
    using rowMaxValA_pos [of A] by linarith
qed

lemma BunchKaufmanA_eq_amended:
  assumes "0 < Height A"
  shows "BunchKaufmanA A g = BunchKaufmanA_amended A g"
proof -
  from assms have h: "(Height A = 0) = False" by simp
  show ?thesis
    unfolding BunchKaufmanA_def BunchKaufmanA_amended_def Let_def pivotRow_def
      val_a21MaxOf [symmetric] rowMaxValA_Max [symmetric]
    by (simp only: h if_False decide_arith [OF rowMaxValA_pos'])
qed

lemma sqrt17_bounds: "4 < sqrt 17" "sqrt 17 < 5"
  by (rule real_less_rsqrt, simp) (rule real_less_lsqrt, simp_all)

lemmas pivot_eval = MatrixOfRows_def rowMaxValA_def rowMaxValD_def VectorMax_def vecGet_def
  vecLen_def LockedViewRange_def Let_def eval_nat_numeral a21MaxOf_def colMaxAbs_def
  rowMaxAbsA_def rowMaxAbsD_def pivotRow_def atLeastLessThanSuc lessThan_Suc

lemma rowMaxValD_pos':
  assumes "\<not> cmod (Get A 0 0) \<ge> gamma * val (a21MaxOf A)"
  shows "0 < rowMaxValD A (index (a21MaxOf A) + 1)"
proof -
  from assms have "0 < val (a21MaxOf A)"
    unfolding a21MaxOf_eq by (rule first_test_fails_pos) simp
  then show ?thesis
    using rowMaxValD_pos [of A] by linarith
qed

lemma BunchKaufmanD_eq_amended:
  assumes "0 < Height A"
  shows "BunchKaufmanD A g = BunchKaufmanD_amended A g"
proof -
  from assms have h: "(Height A = 0) = False" by simp
  show ?thesis
    unfolding BunchKaufmanD_def BunchKaufmanD_amended_def Let_def pivotRow_def
      val_a21MaxOf [symmetric] rowMaxValD_Max [symmetric]
    by (simp only: h if_False decide_arith [OF rowMaxValD_pos'])
qed

lemma pivotRow_props:
  assumes "0 < colMaxAbs A"
  shows "1 \<le> pivotRow A \<and> pivotRow A < Height A
       \<and> cmod (Get A (pivotRow A) 0) = colMaxAbs A
       \<and> (\<forall>i. 1 \<le> i \<and> i < pivotRow A \<longrightarrow> cmod (Get A i 0) < colMaxAbs A)"
proof -
  from assms have pos: "0 < val (a21MaxOf A)" by (simp add: val_a21MaxOf)
  have "cmod (Get A i 0) < colMaxAbs A" if "1 \<le> i" "i < pivotRow A" for i
  proof -
    from that have "i - 1 < index (MaxLoop (\<lambda>t. Get A (Suc t) 0) (Height A - 1))"
      by (simp add: pivotRow_def a21MaxOf_eq)
    from MaxLoop_first [OF this] that show ?thesis
      by (simp add: val_a21MaxOf [symmetric] a21MaxOf_eq)
  qed
  with a21MaxOf_attained [OF pos] show ?thesis
    by (simp add: pivotRow_def val_a21MaxOf)
qed

lemma rowMaxAbsD_diag:
  assumes "r < Height A"
  shows "rowMaxAbsD A r = max (rowMaxAbsA A r) (cmod (Get A r r))"
proof -
  let ?L = "(\<lambda>j. cmod (Get A r j)) ` {..<r}"
  let ?T = "(\<lambda>i. cmod (Get A i r)) ` {Suc r..<Height A}"
  from assms have "{r..<Height A} = insert r {Suc r..<Height A}" by auto
  then have "insert 0 (?L \<union> (\<lambda>i. cmod (Get A i r)) ` {r..<Height A})
      = insert (cmod (Get A r r)) (insert 0 (?L \<union> ?T))"
    by auto
  moreover have "Max (insert (cmod (Get A r r)) (insert 0 (?L \<union> ?T)))
      = max (cmod (Get A r r)) (Max (insert 0 (?L \<union> ?T)))"
    by (rule Max_insert) auto
  ultimately show ?thesis
    by (simp add: rowMaxAbsD_def rowMaxAbsA_def max.commute)
qed

lemma Panel_singular_transfer:
  "(map_sum id (shiftPivot k) R = Inl e) = (R = Inl e)"
  "(\<exists>p. map_sum id (shiftPivot k) R = Inr p) = (\<exists>p. R = Inr p)"
  by (cases R; simp)+

lemma BunchKaufmanA_singular_iff:
  assumes "0 < Height A"
  shows "BunchKaufmanA A g = Inl SingularMatrixException
         \<longleftrightarrow> cmod (Get A 0 0) = 0 \<and> val (a21MaxOf A) = 0"
    and "\<not> (cmod (Get A 0 0) = 0 \<and> val (a21MaxOf A) = 0) \<Longrightarrow> \<exists>p. BunchKaufmanA A g = Inr p"
  using assms BunchKaufmanA_no_div [of A g]
  by (auto simp: BunchKaufmanA_def Let_def split: if_splits)

lemma BunchKaufmanD_singular_iff:
  assumes "0 < Height A"
  shows "BunchKaufmanD A g = Inl SingularMatrixException
         \<longleftrightarrow> cmod (Get A 0 0) = 0 \<and> val (a21MaxOf A) = 0"
    and "\<not> (cmod (Get A 0 0) = 0 \<and> val (a21MaxOf A) = 0) \<Longrightarrow> \<exists>p. BunchKaufmanD A g = Inr p"
  using assms BunchKaufmanD_no_div [of A g]
  by (auto simp: BunchKaufmanD_def Let_def split: if_splits)

lemma column_zero_iff:
  assumes "0 < Height A"
  shows "cmod (Get A 0 0) = 0 \<and> val (a21MaxOf A) = 0 \<longleftrightarrow> (\<forall>i<Height A. Get A i 0 = 0)"
proof -
  have "(\<forall>i<Height A - 1. Get A (Suc i) 0 = 0) \<longleftrightarrow> (\<forall>i. 1 \<le> i \<and> i < Height A \<longrightarrow> Get A i 0 = 0)"
  proof (intro iffI allI impI)
    fix i assume a: "\<forall>i<Height A - 1. Get A (Suc i) 0 = 0" and "1 \<le> i \<and> i < Height A"
    then have "i - 1 < Height A - 1" "Suc (i - 1) = i" by auto
    with a show "Get A i 0 = 0" by metis
  qed auto
  moreover have "(\<forall>i<Height A. Get A i 0 = 0)
      \<longleftrightarrow> Get A 0 0 = 0 \<and> (\<forall>i. 1 \<le> i \<and> i < Height A \<longrightarrow> Get A i 0 = 0)"
    using assms by (metis One_nat_def Suc_leI not_gr_zero)
  ultimately show ?thesis
    by (simp add: a21MaxOf_eq MaxLoop_zero_iff)
qed

lemma PanelBunchKaufmanA_no_div: "PanelBunchKaufmanA A X Y k g \<noteq> Inl DivisionByZero"
proof (cases "k < Height A")
  case True
  then show ?thesis
    using BunchKaufmanA_no_div [of "correctedTrailing A X Y k" g]
    by (simp add: PanelBunchKaufmanA_refines Panel_singular_transfer)
next
  case False
  then show ?thesis by (simp add: PanelBunchKaufmanA_def)
qed

lemma PanelBunchKaufmanD_no_div: "PanelBunchKaufmanD A X Y k g \<noteq> Inl DivisionByZero"
proof (cases "k < Height A")
  case True
  then show ?thesis
    using BunchKaufmanD_no_div [of "correctedTrailing A X Y k" g]
    by (simp add: PanelBunchKaufmanD_refines Panel_singular_transfer)
next
  case False
  then show ?thesis by (simp add: PanelBunchKaufmanD_def)
qed

lemma panel_first_test_fails:
  assumes "\<not> cmod (Get (panelColumn A X Y k) 0 0) \<ge> gamma * val (panelA21Max A X Y k)"
  shows "0 < val (panelA21Max A X Y k)"
    and "cmod (vecGet (panelLeft A X Y k (index (panelA21Max A X Y k) + (k + 1))) 0)
         = val (panelA21Max A X Y k)"
    and "val (panelA21Max A X Y k)
         \<le> panelRowMaxValA A X Y k (index (panelA21Max A X Y k) + (k + 1))"
    and "val (panelA21Max A X Y k)
         \<le> panelRowMaxValD A X Y k (index (panelA21Max A X Y k) + (k + 1))"
proof -
  let ?Z = "correctedTrailing A X Y k"
  let ?r = "index (panelA21Max A X Y k) + (k + 1)"
  have r: "?r = k + (index (a21MaxOf ?Z) + 1)"
    by (simp add: a21MaxOf_correctedTrailing)
  from assms show pos: "0 < val (panelA21Max A X Y k)"
    unfolding panelA21Max_eq by (rule first_test_fails_pos) simp
  then have posZ: "0 < val (a21MaxOf ?Z)"
    by (simp add: a21MaxOf_correctedTrailing)
  have "vecGet (panelLeft A X Y k ?r) 0 = corrected A X Y k ?r (k + 0)"
    by (rule vecGet_panelLeft) simp
  also have "\<dots> = Get ?Z (index (a21MaxOf ?Z) + 1) 0"
    by (simp add: Get_correctedTrailing a21MaxOf_correctedTrailing add.commute add.left_commute)
  finally show "cmod (vecGet (panelLeft A X Y k ?r) 0) = val (panelA21Max A X Y k)"
    using a21MaxOf_attained(2) [OF posZ] by (simp add: a21MaxOf_correctedTrailing)
  show "val (panelA21Max A X Y k) \<le> panelRowMaxValA A X Y k ?r"
    using rowMaxValA_pos [OF posZ] unfolding r rowMaxValA_correctedTrailing
    by (simp add: a21MaxOf_correctedTrailing)
  show "val (panelA21Max A X Y k) \<le> panelRowMaxValD A X Y k ?r"
    using rowMaxValD_pos [OF posZ] unfolding r rowMaxValD_correctedTrailing
    by (simp add: a21MaxOf_correctedTrailing)
qed

lemmas panel_eval = PanelBunchKaufmanA_def PanelBunchKaufmanD_def panelColumn_def
  panelA21Max_def panelLeft_def panelBottom_def panelRowMaxValA_def panelRowMaxValD_def
  Gemv_def corrected_def correctedTrailing_def shiftPivot_def

section \<open>Claims about the pivot selection\<close>

text \<open>
  C2 (as amended).  On a matrix with at least one row, \<open>BunchKaufmanA\<close> (with the default
  \<open>(1 + sqrt 17) / 8\<close> for a zero \<open>gamma\<close>) decides, in this order: the singular-matrix
  exception if \<open>alpha\<close> and \<open>omega\<close> are both zero; a 1x1 pivot at 0 if
  \<open>alpha \<ge> gamma * omega\<close>; a 1x1 pivot at 0 if \<open>alpha * rho \<ge> gamma * omega\<^sup>2\<close>; a 1x1 pivot
  at \<open>r\<close> if \<open>|A(r,r)| \<ge> gamma * rho\<close>; otherwise a 2x2 pivot at 0 and \<open>r\<close>.  Here \<open>omega\<close> is
  the largest magnitude of the strict sub-diagonal of column 0, \<open>r\<close> the first row attaining
  it, and \<open>rho\<close> the largest magnitude of row \<open>r\<close> without its diagonal entry, read from the
  leading row segment and the trailing column segment.  The panel variant makes the same
  decision on the lazily corrected trailing block, with the indices shifted by \<open>k\<close>.
\<close>

theorem BunchKaufmanA_decision:
  assumes "0 < Height A"
  shows "BunchKaufmanA A gamma0 = BunchKaufmanA_amended A gamma0
       \<and> (0 < colMaxAbs A \<longrightarrow>
            1 \<le> pivotRow A \<and> pivotRow A < Height A
            \<and> cmod (Get A (pivotRow A) 0) = colMaxAbs A
            \<and> (\<forall>i. 1 \<le> i \<and> i < pivotRow A \<longrightarrow> cmod (Get A i 0) < colMaxAbs A))
       \<and> (\<forall>X Y k. k < Height A \<longrightarrow>
            PanelBunchKaufmanA A X Y k gamma0
              = map_sum id (shiftPivot k) (BunchKaufmanA (correctedTrailing A X Y k) gamma0))"
  using assms BunchKaufmanA_eq_amended [OF assms] pivotRow_props [of A]
    PanelBunchKaufmanA_refines [of _ A]
  by blast

theorem BunchKaufmanA_decision_witness:
  "0 < Height exampleDominatedRow
   \<and> BunchKaufmanA exampleDominatedRow 0 = BunchKaufmanA_amended exampleDominatedRow 0
   \<and> BunchKaufmanA_amended exampleDominatedRow 0 = Inr \<lparr>nb = 1, from' = [0]\<rparr>
   \<and> pivotRow exampleDominatedRow = 1
   \<and> PanelBunchKaufmanA exampleDominatedRow exampleZeroFactors exampleZeroFactors 0 0
       = map_sum id (shiftPivot 0)
           (BunchKaufmanA (correctedTrailing exampleDominatedRow exampleZeroFactors
              exampleZeroFactors 0) 0)"
proof -
  have h: "0 < Height exampleDominatedRow"
    by (simp add: exampleDominatedRow_def MatrixOfRows_def)
  have e: "BunchKaufmanA_amended exampleDominatedRow 0 = Inr \<lparr>nb = 1, from' = [0]\<rparr>"
    using sqrt17_bounds
    by (simp add: BunchKaufmanA_amended_def exampleDominatedRow_def pivot_eval)
  have r: "pivotRow exampleDominatedRow = 1"
    by (simp add: exampleDominatedRow_def pivot_eval)
  from BunchKaufmanA_decision [OF h, of 0] h e r show ?thesis
    by simp
qed

theorem BunchKaufmanA_claimed_counterexample:
  "BunchKaufmanA exampleDominatedRow 0 = Inr \<lparr>nb = 1, from' = [0]\<rparr>
   \<and> BunchKaufmanA_claimed exampleDominatedRow 0 = Inr \<lparr>nb = 2, from' = [0, 1]\<rparr>"
  using sqrt17_bounds
  by (simp add: BunchKaufmanA_def BunchKaufmanA_claimed_def exampleDominatedRow_def pivot_eval)

text \<open>
  C3.  Each of the four Bunch-Kaufman pivot searches raises the singular-matrix exception
  exactly when \<open>alpha\<close>, the magnitude of the leading active diagonal entry, and \<open>omega\<close>, the
  largest magnitude of the strict sub-diagonal of the first active column, are both zero
  (for the panel variants: of the lazily corrected column); otherwise it returns a pivot.
\<close>

theorem pivot_singular_iff:
  "(0 < Height A \<longrightarrow>
      (BunchKaufmanA A g = Inl SingularMatrixException
         \<longleftrightarrow> cmod (Get A 0 0) = 0 \<and> colMaxAbs A = 0)
    \<and> (BunchKaufmanD A g = Inl SingularMatrixException
         \<longleftrightarrow> cmod (Get A 0 0) = 0 \<and> colMaxAbs A = 0)
    \<and> (\<not> (cmod (Get A 0 0) = 0 \<and> colMaxAbs A = 0) \<longrightarrow>
         (\<exists>p. BunchKaufmanA A g = Inr p) \<and> (\<exists>p. BunchKaufmanD A g = Inr p)))
   \<and> (k < Height A \<longrightarrow>
      (PanelBunchKaufmanA A X Y k g = Inl SingularMatrixException
         \<longleftrightarrow> cmod (corrected A X Y k k k) = 0 \<and> colMaxAbs (correctedTrailing A X Y k) = 0)
    \<and> (PanelBunchKaufmanD A X Y k g = Inl SingularMatrixException
         \<longleftrightarrow> cmod (corrected A X Y k k k) = 0 \<and> colMaxAbs (correctedTrailing A X Y k) = 0)
    \<and> (\<not> (cmod (corrected A X Y k k k) = 0 \<and> colMaxAbs (correctedTrailing A X Y k) = 0) \<longrightarrow>
         (\<exists>p. PanelBunchKaufmanA A X Y k g = Inr p)
         \<and> (\<exists>p. PanelBunchKaufmanD A X Y k g = Inr p)))"
proof (intro conjI impI)
  assume h: "0 < Height A"
  show "BunchKaufmanA A g = Inl SingularMatrixException
         \<longleftrightarrow> cmod (Get A 0 0) = 0 \<and> colMaxAbs A = 0"
    using BunchKaufmanA_singular_iff(1) [OF h] by (simp add: val_a21MaxOf)
  show "BunchKaufmanD A g = Inl SingularMatrixException
         \<longleftrightarrow> cmod (Get A 0 0) = 0 \<and> colMaxAbs A = 0"
    using BunchKaufmanD_singular_iff(1) [OF h] by (simp add: val_a21MaxOf)
  assume "\<not> (cmod (Get A 0 0) = 0 \<and> colMaxAbs A = 0)"
  then have n: "\<not> (cmod (Get A 0 0) = 0 \<and> val (a21MaxOf A) = 0)"
    by (simp add: val_a21MaxOf)
  show "\<exists>p. BunchKaufmanA A g = Inr p" by (rule BunchKaufmanA_singular_iff(2) [OF h n])
  show "\<exists>p. BunchKaufmanD A g = Inr p" by (rule BunchKaufmanD_singular_iff(2) [OF h n])
next
  let ?Z = "correctedTrailing A X Y k"
  assume k: "k < Height A"
  then have h: "0 < Height ?Z" by (simp add: Get_correctedTrailing)
  have z: "Get ?Z 0 0 = corrected A X Y k k k" by (simp add: Get_correctedTrailing)
  show "PanelBunchKaufmanA A X Y k g = Inl SingularMatrixException
         \<longleftrightarrow> cmod (corrected A X Y k k k) = 0 \<and> colMaxAbs ?Z = 0"
    using BunchKaufmanA_singular_iff(1) [OF h, of g] k
    by (simp add: PanelBunchKaufmanA_refines Panel_singular_transfer val_a21MaxOf z)
  show "PanelBunchKaufmanD A X Y k g = Inl SingularMatrixException
         \<longleftrightarrow> cmod (corrected A X Y k k k) = 0 \<and> colMaxAbs ?Z = 0"
    using BunchKaufmanD_singular_iff(1) [OF h, of g] k
    by (simp add: PanelBunchKaufmanD_refines Panel_singular_transfer val_a21MaxOf z)
  assume "\<not> (cmod (corrected A X Y k k k) = 0 \<and> colMaxAbs ?Z = 0)"
  then have n: "\<not> (cmod (Get ?Z 0 0) = 0 \<and> val (a21MaxOf ?Z) = 0)"
    by (simp add: val_a21MaxOf z)
  show "\<exists>p. PanelBunchKaufmanA A X Y k g = Inr p"
    using BunchKaufmanA_singular_iff(2) [OF h n, of g] k
    by (simp add: PanelBunchKaufmanA_refines Panel_singular_transfer)
  show "\<exists>p. PanelBunchKaufmanD A X Y k g = Inr p"
    using BunchKaufmanD_singular_iff(2) [OF h n, of g] k
    by (simp add: PanelBunchKaufmanD_refines Panel_singular_transfer)
qed

theorem pivot_singular_iff_witness:
  "BunchKaufmanA exampleZeroFactors 0 = Inl SingularMatrixException
   \<and> BunchKaufmanD exampleZeroFactors 0 = Inl SingularMatrixException
   \<and> (\<exists>p. BunchKaufmanA exampleDominatedRow 0 = Inr p)
   \<and> (\<exists>p. BunchKaufmanD exampleDominatedRow 0 = Inr p)
   \<and> PanelBunchKaufmanA exampleZeroFactors exampleZeroFactors exampleZeroFactors 1 0
       = Inl SingularMatrixException
   \<and> PanelBunchKaufmanD exampleZeroFactors exampleZeroFactors exampleZeroFactors 1 0
       = Inl SingularMatrixException
   \<and> (\<exists>p. PanelBunchKaufmanA exampleDominatedRow exampleZeroFactors exampleZeroFactors 1 0 = Inr p)
   \<and> (\<exists>p. PanelBunchKaufmanD exampleDominatedRow exampleZeroFactors exampleZeroFactors 1 0 = Inr p)"
proof -
  have z: "0 < Height exampleZeroFactors" "1 < Height exampleZeroFactors"
    "cmod (Get exampleZeroFactors 0 0) = 0 \<and> colMaxAbs exampleZeroFactors = 0"
    "cmod (corrected exampleZeroFactors exampleZeroFactors exampleZeroFactors 1 1 1) = 0
     \<and> colMaxAbs (correctedTrailing exampleZeroFactors exampleZeroFactors exampleZeroFactors 1) = 0"
    by (simp_all add: exampleZeroFactors_def pivot_eval panel_eval)
  have d: "0 < Height exampleDominatedRow" "1 < Height exampleDominatedRow"
    "\<not> (cmod (Get exampleDominatedRow 0 0) = 0 \<and> colMaxAbs exampleDominatedRow = 0)"
    "\<not> (cmod (corrected exampleDominatedRow exampleZeroFactors exampleZeroFactors 1 1 1) = 0
     \<and> colMaxAbs (correctedTrailing exampleDominatedRow exampleZeroFactors exampleZeroFactors 1) = 0)"
    by (simp_all add: exampleDominatedRow_def exampleZeroFactors_def pivot_eval panel_eval)
  from pivot_singular_iff [where A = exampleZeroFactors and g = 0 and k = 1
      and X = exampleZeroFactors and Y = exampleZeroFactors]
    pivot_singular_iff [where A = exampleDominatedRow and g = 0 and k = 1
      and X = exampleZeroFactors and Y = exampleZeroFactors] z d
  show ?thesis by blast
qed

text \<open>
  C7 (as amended).  \<open>BunchKaufmanD\<close> (with the default \<open>0.525\<close> for a zero \<open>gamma\<close>) returns only
  a 1x1 pivot at 0 or a 2x2 pivot at 0 and \<open>r\<close>, never a 1x1 pivot at \<open>r\<close>: after the first
  test \<open>alpha \<ge> gamma * omega\<close> fails it still makes the second test at index 0,
  \<open>alpha * rho \<ge> gamma * omega\<^sup>2\<close>, and has no test of \<open>|A(r,r)|\<close>.  Its row maximum is
  the one of strategy A together with the diagonal entry \<open>(r,r)\<close>.  The panel variant makes
  the same decision on the corrected trailing block.
\<close>

theorem BunchKaufmanD_decision:
  assumes "0 < Height A"
  shows "BunchKaufmanD A gamma0 = BunchKaufmanD_amended A gamma0
       \<and> (\<forall>p. BunchKaufmanD A gamma0 = Inr p \<longrightarrow>
            p = \<lparr>nb = 1, from' = [0]\<rparr> \<or> p = \<lparr>nb = 2, from' = [0, pivotRow A]\<rparr>)
       \<and> 1 \<le> pivotRow A
       \<and> (\<forall>r. r < Height A \<longrightarrow>
            rowMaxValD A r = max (rowMaxValA A r) (cmod (Get A r r))
            \<and> rowMaxValD A r = rowMaxAbsD A r)
       \<and> (\<forall>X Y k. k < Height A \<longrightarrow>
            PanelBunchKaufmanD A X Y k gamma0
              = map_sum id (shiftPivot k) (BunchKaufmanD (correctedTrailing A X Y k) gamma0))"
proof (intro conjI allI impI)
  show "BunchKaufmanD A gamma0 = BunchKaufmanD_amended A gamma0"
    by (rule BunchKaufmanD_eq_amended [OF assms])
  show "1 \<le> pivotRow A" by (simp add: pivotRow_def)
  show "p = \<lparr>nb = 1, from' = [0]\<rparr> \<or> p = \<lparr>nb = 2, from' = [0, pivotRow A]\<rparr>"
    if "BunchKaufmanD A gamma0 = Inr p" for p
    using that by (auto simp: BunchKaufmanD_def Let_def pivotRow_def split: if_splits)
  show "rowMaxValD A r = max (rowMaxValA A r) (cmod (Get A r r))" if "r < Height A" for r
    using rowMaxAbsD_diag [OF that] by (simp add: rowMaxValD_Max rowMaxValA_Max)
  show "rowMaxValD A r = rowMaxAbsD A r" for r
    by (rule rowMaxValD_Max)
  show "PanelBunchKaufmanD A X Y k gamma0
      = map_sum id (shiftPivot k) (BunchKaufmanD (correctedTrailing A X Y k) gamma0)"
    if "k < Height A" for X Y k
    by (rule PanelBunchKaufmanD_refines [OF that])
qed

theorem BunchKaufmanD_decision_witness:
  "0 < Height exampleDominatedRow
   \<and> BunchKaufmanD exampleDominatedRow 0 = BunchKaufmanD_amended exampleDominatedRow 0
   \<and> BunchKaufmanD_amended exampleDominatedRow 0 = Inr \<lparr>nb = 1, from' = [0]\<rparr>
   \<and> rowMaxValD exampleDominatedRow 1 = max (rowMaxValA exampleDominatedRow 1) 0
   \<and> PanelBunchKaufmanD exampleDominatedRow exampleZeroFactors exampleZeroFactors 0 0
       = map_sum id (shiftPivot 0)
           (BunchKaufmanD (correctedTrailing exampleDominatedRow exampleZeroFactors
              exampleZeroFactors 0) 0)"
proof -
  have h: "0 < Height exampleDominatedRow" "1 < Height exampleDominatedRow"
    "cmod (Get exampleDominatedRow 1 1) = 0"
    by (simp_all add: exampleDominatedRow_def MatrixOfRows_def)
  have e: "BunchKaufmanD_amended exampleDominatedRow 0 = Inr \<lparr>nb = 1, from' = [0]\<rparr>"
    by (simp add: BunchKaufmanD_amended_def exampleDominatedRow_def pivot_eval)
  from BunchKaufmanD_decision [OF h(1), of 0] h e show ?thesis
    by (metis (no_types, lifting))
qed

theorem BunchKaufmanD_claimed_counterexample:
  "BunchKaufmanD exampleDominatedRow 0 = Inr \<lparr>nb = 1, from' = [0]\<rparr>
   \<and> BunchKaufmanD_claimed exampleDominatedRow 0 = Inr \<lparr>nb = 2, from' = [0, 1]\<rparr>"
  by (simp add: BunchKaufmanD_def BunchKaufmanD_claimed_def exampleDominatedRow_def pivot_eval)

text \<open>
  C9.  Whenever the first test \<open>alpha \<ge> gamma * omega\<close> fails, \<open>omega\<close> is positive, the first
  entry of the left segment of row \<open>r\<close> has magnitude \<open>omega\<close>, and therefore the row maximum
  \<open>rho\<close> by which the second test divides is at least \<open>omega\<close>, for strategies A and D, plain
  and panel; none of the four searches divides by zero.
\<close>

theorem second_test_divisor_positive:
  "(\<not> cmod (Get A 0 0) \<ge> gamma * val (a21MaxOf A) \<longrightarrow>
      0 < val (a21MaxOf A)
    \<and> cmod (Get A (pivotRow A) 0) = val (a21MaxOf A)
    \<and> val (a21MaxOf A) \<le> rowMaxValA A (pivotRow A)
    \<and> val (a21MaxOf A) \<le> rowMaxValD A (pivotRow A))
   \<and> (\<not> cmod (Get (panelColumn A X Y k) 0 0) \<ge> gamma * val (panelA21Max A X Y k) \<longrightarrow>
      0 < val (panelA21Max A X Y k)
    \<and> cmod (vecGet (panelLeft A X Y k (index (panelA21Max A X Y k) + (k + 1))) 0)
        = val (panelA21Max A X Y k)
    \<and> val (panelA21Max A X Y k)
        \<le> panelRowMaxValA A X Y k (index (panelA21Max A X Y k) + (k + 1))
    \<and> val (panelA21Max A X Y k)
        \<le> panelRowMaxValD A X Y k (index (panelA21Max A X Y k) + (k + 1)))
   \<and> BunchKaufmanA A g \<noteq> Inl DivisionByZero
   \<and> BunchKaufmanD A g \<noteq> Inl DivisionByZero
   \<and> PanelBunchKaufmanA A X Y k g \<noteq> Inl DivisionByZero
   \<and> PanelBunchKaufmanD A X Y k g \<noteq> Inl DivisionByZero"
proof (intro conjI impI)
  assume f: "\<not> cmod (Get A 0 0) \<ge> gamma * val (a21MaxOf A)"
  then show pos: "0 < val (a21MaxOf A)"
    unfolding a21MaxOf_eq by (rule first_test_fails_pos) simp
  show "cmod (Get A (pivotRow A) 0) = val (a21MaxOf A)"
    using a21MaxOf_attained(2) [OF pos] by (simp add: pivotRow_def)
  show "val (a21MaxOf A) \<le> rowMaxValA A (pivotRow A)"
    using rowMaxValA_pos [OF pos] by (simp add: pivotRow_def)
  show "val (a21MaxOf A) \<le> rowMaxValD A (pivotRow A)"
    using rowMaxValD_pos [OF pos] by (simp add: pivotRow_def)
next
  assume f: "\<not> cmod (Get (panelColumn A X Y k) 0 0) \<ge> gamma * val (panelA21Max A X Y k)"
  show "0 < val (panelA21Max A X Y k)"
    by (rule panel_first_test_fails(1) [OF f])
  show "cmod (vecGet (panelLeft A X Y k (index (panelA21Max A X Y k) + (k + 1))) 0)
        = val (panelA21Max A X Y k)"
    by (rule panel_first_test_fails(2) [OF f])
  show "val (panelA21Max A X Y k)
        \<le> panelRowMaxValA A X Y k (index (panelA21Max A X Y k) + (k + 1))"
    by (rule panel_first_test_fails(3) [OF f])
  show "val (panelA21Max A X Y k)
        \<le> panelRowMaxValD A X Y k (index (panelA21Max A X Y k) + (k + 1))"
    by (rule panel_first_test_fails(4) [OF f])
qed (rule BunchKaufmanA_no_div BunchKaufmanD_no_div PanelBunchKaufmanA_no_div
      PanelBunchKaufmanD_no_div)+

theorem second_test_divisor_positive_witness:
  "0 < val (a21MaxOf exampleDominatedRow)
   \<and> val (a21MaxOf exampleDominatedRow) \<le> rowMaxValA exampleDominatedRow (pivotRow exampleDominatedRow)
   \<and> val (a21MaxOf exampleDominatedRow) \<le> rowMaxValD exampleDominatedRow (pivotRow exampleDominatedRow)
   \<and> 0 < val (panelA21Max exampleDominatedRow exampleZeroFactors exampleZeroFactors 0)
   \<and> val (panelA21Max exampleDominatedRow exampleZeroFactors exampleZeroFactors 0)
       \<le> panelRowMaxValA exampleDominatedRow exampleZeroFactors exampleZeroFactors 0
            (index (panelA21Max exampleDominatedRow exampleZeroFactors exampleZeroFactors 0) + (0 + 1))"
proof -
  have f: "\<not> cmod (Get exampleDominatedRow 0 0) \<ge> 1 * val (a21MaxOf exampleDominatedRow)"
    by (simp add: exampleDominatedRow_def pivot_eval)
  have p: "\<not> cmod (Get (panelColumn exampleDominatedRow exampleZeroFactors exampleZeroFactors 0) 0 0)
             \<ge> 1 * val (panelA21Max exampleDominatedRow exampleZeroFactors exampleZeroFactors 0)"
    by (simp add: exampleDominatedRow_def exampleZeroFactors_def pivot_eval panel_eval)
  from second_test_divisor_positive
         [where A = exampleDominatedRow and gamma = 1 and X = exampleZeroFactors
            and Y = exampleZeroFactors and k = 0 and g = 0] f p
  show ?thesis by blast
qed

section \<open>Properties of the store and the proxies\<close>

lemma lookup_new_old: "a < length (cells s) \<Longrightarrow> lookup (snd (new s m)) a = lookup s a"
  by (simp add: lookup_def new_def nth_append)

lemma new_fresh: "fst (new s m) = length (cells s)" "lookup (snd (new s m)) (length (cells s)) = Some m"
  "length (cells (snd (new s m))) = Suc (length (cells s))"
  by (simp_all add: lookup_def new_def)

lemma lookup_Some_length: "lookup s a = Some A \<Longrightarrow> a < length (cells s)"
  by (simp add: lookup_def split: if_splits)

lemma lookup_modify: "lookup (modify s a f) b = (if a = b then map_option f (lookup s a) else lookup s b)"
  by (auto simp: modify_def lookup_def split: option.splits)

lemma events_modify: "events (modify s a f) = events s"
  by (simp add: modify_def split: option.splits)

lemma length_modify: "length (cells (modify s a f)) = length (cells s)"
  by (simp add: modify_def split: option.splits)

lemma lookup_delete: "lookup (delete s a) b = (if a = b then None else lookup s b)"
  by (auto simp: delete_def lookup_def)

lemma lookup_events_update [simp]: "lookup (s\<lparr>events := e\<rparr>) a = lookup s a"
  by (simp add: lookup_def)

lemma lookup_Copy:
  "lookup (Copy s src dst) b =
     (case lookup s src of
        None \<Rightarrow> lookup s b
      | Some A \<Rightarrow> if b = dst then map_option (CopyInto A) (lookup s dst) else lookup s b)"
  by (auto simp: Copy_def lookup_modify split: option.splits)

lemma lookup_Copy_other: "b \<noteq> dst \<Longrightarrow> lookup (Copy s src dst) b = lookup s b"
  by (auto simp: Copy_def lookup_def modify_def split: option.splits)

lemma proxyAlloc_props:
  assumes "proxyAlloc T U V s A ctrl = (p, s1)"
  shows "p = length (cells s)" "length (cells s1) = Suc (length (cells s))"
    "a < length (cells s) \<Longrightarrow> lookup s1 a = lookup s a"
    "events s1 = events s @ [Alloc p]"
    "\<exists>m. lookup s1 p = Some m \<and> ElemType m = T \<and> ColDist m = U \<and> RowDist m = V"
  using assms
  by (auto simp: proxyAlloc_def Let_def new_def lookup_def nth_append DistMatrix_new_def)

lemma WriteProxy_ctor_cases:
  assumes "DistMatrixWriteProxy_ctor T U V s a ctrl = Some (p, s1)"
  obtains A where "lookup s a = Some A" "proxyMatches T U V A ctrl"
      "p = \<lparr>wNeedDelete = False, wNeedWriteCopy = False, wOrig = a, wProx = a\<rparr>" "s1 = s"
  | A where "lookup s a = Some A" "\<not> proxyMatches T U V A ctrl"
      "p = \<lparr>wNeedDelete = True, wNeedWriteCopy = True, wOrig = a, wProx = length (cells s)\<rparr>"
      "a < length (cells s)"
  using assms
  by (auto simp: DistMatrixWriteProxy_ctor_def Let_def split: option.splits if_splits prod.splits
      dest: proxyAlloc_props(1) lookup_Some_length)

lemma ReadWriteProxy_ctor_cases:
  assumes "DistMatrixReadWriteProxy_ctor T U V s a ctrl = Some (p, s1)"
  obtains A where "lookup s a = Some A" "proxyMatches T U V A ctrl"
      "p = \<lparr>wNeedDelete = False, wNeedWriteCopy = False, wOrig = a, wProx = a\<rparr>" "s1 = s"
  | A where "lookup s a = Some A" "\<not> proxyMatches T U V A ctrl"
      "p = \<lparr>wNeedDelete = True, wNeedWriteCopy = True, wOrig = a, wProx = length (cells s)\<rparr>"
      "a < length (cells s)"
  using assms
  by (auto simp: DistMatrixReadWriteProxy_ctor_def Let_def split: option.splits if_splits prod.splits
      dest: proxyAlloc_props(1) lookup_Some_length)

lemma WriteProxy_dtor_events:
  "events (DistMatrixWriteProxy_dtor s p u) =
     events s @ (if wNeedWriteCopy p \<and> \<not> u \<and> lookup s (wProx p) \<noteq> None then [CopyData (wProx p) (wOrig p)] else [])
              @ (if wNeedDelete p then [Delete (wProx p)] else [])"
  by (auto simp: DistMatrixWriteProxy_dtor_def Let_def Copy_def delete_def events_modify split: option.splits)

lemma WriteProxy_dtor_unwind:
  assumes "wNeedDelete p \<Longrightarrow> wProx p \<noteq> wOrig p"
  shows "lookup (DistMatrixWriteProxy_dtor s p True) (wOrig p) = lookup s (wOrig p)"
  using assms by (auto simp: DistMatrixWriteProxy_dtor_def lookup_delete)

lemma WriteProxy_dtor_copyback:
  assumes "wNeedWriteCopy p" "wProx p \<noteq> wOrig p" "lookup s (wProx p) = Some P" "lookup s (wOrig p) = Some Q"
  shows "lookup (DistMatrixWriteProxy_dtor s p False) (wOrig p) = Some (CopyInto P Q)"
  using assms by (auto simp: DistMatrixWriteProxy_dtor_def lookup_delete lookup_Copy Let_def)

lemma ReadWriteProxy_dtor_eq: "DistMatrixReadWriteProxy_dtor = DistMatrixWriteProxy_dtor"
  by (intro ext) (simp add: DistMatrixReadWriteProxy_dtor_def DistMatrixWriteProxy_dtor_def)

lemma new_events_dtor:
  "CopyData (wProx p) (wOrig p)
     \<in> set (drop (length (events s)) (events (DistMatrixWriteProxy_dtor s p u)))
   \<longleftrightarrow> wNeedWriteCopy p \<and> \<not> u \<and> lookup s (wProx p) \<noteq> None"
  by (simp add: WriteProxy_dtor_events)

lemma proxy_after_ctor:
  assumes "DistMatrixWriteProxy_ctor T U V s a ctrl = Some (p, s1)
           \<or> DistMatrixReadWriteProxy_ctor T U V s a ctrl = Some (p, s1)"
    and "lookup s a = Some A"
  shows "wOrig p = a" "wNeedWriteCopy p \<longleftrightarrow> \<not> proxyMatches T U V A ctrl"
    "wNeedDelete p \<longleftrightarrow> \<not> proxyMatches T U V A ctrl"
    "\<not> proxyMatches T U V A ctrl \<Longrightarrow> wProx p \<noteq> a"
    "\<not> proxyMatches T U V A ctrl \<Longrightarrow> lookup s1 a = Some A"
    "proxyMatches T U V A ctrl \<Longrightarrow> wProx p = a \<and> s1 = s"
proof -
  from assms(1) have
    "wOrig p = a \<and> (wNeedWriteCopy p \<longleftrightarrow> \<not> proxyMatches T U V A ctrl)
     \<and> (wNeedDelete p \<longleftrightarrow> \<not> proxyMatches T U V A ctrl)
     \<and> (\<not> proxyMatches T U V A ctrl \<longrightarrow> wProx p \<noteq> a \<and> lookup s1 a = Some A)
     \<and> (proxyMatches T U V A ctrl \<longrightarrow> wProx p = a \<and> s1 = s)"
  proof
    assume c: "DistMatrixWriteProxy_ctor T U V s a ctrl = Some (p, s1)"
    from lookup_Some_length [OF assms(2)] have len: "a < length (cells s)" .
    show ?thesis
    proof (cases "proxyMatches T U V A ctrl")
      case True
      with c assms(2) show ?thesis by (auto simp: DistMatrixWriteProxy_ctor_def)
    next
      case False
      obtain q s0 where q: "proxyAlloc T U V s A ctrl = (q, s0)" by (cases "proxyAlloc T U V s A ctrl")
      from proxyAlloc_props [OF q] len have "q \<noteq> a" "lookup s0 a = Some A"
        using assms(2) by auto
      with c assms(2) False q show ?thesis
        by (auto simp: DistMatrixWriteProxy_ctor_def lookup_modify)
    qed
  next
    assume c: "DistMatrixReadWriteProxy_ctor T U V s a ctrl = Some (p, s1)"
    from lookup_Some_length [OF assms(2)] have len: "a < length (cells s)" .
    show ?thesis
    proof (cases "proxyMatches T U V A ctrl")
      case True
      with c assms(2) show ?thesis by (auto simp: DistMatrixReadWriteProxy_ctor_def)
    next
      case False
      obtain q s0 where q: "proxyAlloc T U V s A ctrl = (q, s0)" by (cases "proxyAlloc T U V s A ctrl")
      from proxyAlloc_props [OF q] len have "q \<noteq> a" "lookup s0 a = Some A"
        using assms(2) by auto
      with c assms(2) False q show ?thesis
        by (auto simp: DistMatrixReadWriteProxy_ctor_def lookup_Copy_other)
    qed
  qed
  then show "wOrig p = a" "wNeedWriteCopy p \<longleftrightarrow> \<not> proxyMatches T U V A ctrl"
    "wNeedDelete p \<longleftrightarrow> \<not> proxyMatches T U V A ctrl"
    "\<not> proxyMatches T U V A ctrl \<Longrightarrow> wProx p \<noteq> a"
    "\<not> proxyMatches T U V A ctrl \<Longrightarrow> lookup s1 a = Some A"
    "proxyMatches T U V A ctrl \<Longrightarrow> wProx p = a \<and> s1 = s"
    by blast+
qed

lemma ReadWriteProxy_dtor_lookup:
  "lookup (DistMatrixReadWriteProxy_dtor s p u) b =
     (if wNeedDelete p \<and> b = wProx p then None
      else if wNeedWriteCopy p \<and> \<not> u then lookup (Copy s (wProx p) (wOrig p)) b
      else lookup s b)"
  by (auto simp: DistMatrixReadWriteProxy_dtor_def Let_def lookup_delete)

lemma WriteProxy_dtor_lookup:
  "lookup (DistMatrixWriteProxy_dtor s p u) b =
     (if wNeedDelete p \<and> b = wProx p then None
      else if wNeedWriteCopy p \<and> \<not> u then lookup (Copy s (wProx p) (wOrig p)) b
      else lookup s b)"
  by (auto simp: DistMatrixWriteProxy_dtor_def Let_def lookup_delete)

lemma ReadWriteProxy_dtor_events:
  "events (DistMatrixReadWriteProxy_dtor s p u) =
     events s @ (if wNeedWriteCopy p \<and> \<not> u \<and> lookup s (wProx p) \<noteq> None then [CopyData (wProx p) (wOrig p)] else [])
              @ (if wNeedDelete p then [Delete (wProx p)] else [])"
  by (auto simp: DistMatrixReadWriteProxy_dtor_def Let_def Copy_def delete_def events_modify split: option.splits)

lemma proxy_live:
  assumes "DistMatrixWriteProxy_ctor T U V s a ctrl = Some (p, s1)
           \<or> DistMatrixReadWriteProxy_ctor T U V s a ctrl = Some (p, s1)"
    and "lookup s a = Some A"
  shows "\<exists>Q. lookup s1 (wProx p) = Some Q"
proof (cases "proxyMatches T U V A ctrl")
  case True
  with proxy_after_ctor(6) [OF assms] assms(2) show ?thesis by simp
next
  case False
  obtain q s0 where q: "proxyAlloc T U V s A ctrl = (q, s0)" by (cases "proxyAlloc T U V s A ctrl")
  from proxyAlloc_props [OF q] lookup_Some_length [OF assms(2)]
  obtain m where m: "lookup s0 q = Some m" and a: "lookup s0 a = Some A" and qa: "q \<noteq> a"
    using assms(2) by auto
  from assms(1) show ?thesis
  proof
    assume "DistMatrixWriteProxy_ctor T U V s a ctrl = Some (p, s1)"
    with False q assms(2) m show ?thesis
      by (auto simp: DistMatrixWriteProxy_ctor_def lookup_modify)
  next
    assume "DistMatrixReadWriteProxy_ctor T U V s a ctrl = Some (p, s1)"
    with False q assms(2) m a show ?thesis
      by (auto simp: DistMatrixReadWriteProxy_ctor_def lookup_Copy)
  qed
qed

section \<open>Claims about the proxies\<close>

text \<open>
  C5.  Let a write proxy or a read-write proxy be constructed on a source \<open>A\<close> at address \<open>a\<close>,
  and destroyed on any later store \<open>s2\<close> in which the proxy's matrix \<open>P\<close> is live.  Either
  destructor copies the proxy's matrix back into the source exactly when the construction
  did not match (a separate matrix was needed) and no exception is propagating: the copy
  is then logged and the source holds \<open>P\<close> copied into it, and otherwise nothing is logged and
  the source is as the destructor found it.  During unwind the source is left as found;
  when a separate matrix was needed, whatever was done to the proxy's matrix since the
  construction, the source has its value from before the construction after a destruction
  during unwind and the changed matrix copied into it after a normal one, and the
  proxy's matrix is deleted.  When the construction matched, either destructor leaves the
  store as it is.
\<close>

theorem write_proxy_copy_back_iff:
  assumes "DistMatrixWriteProxy_ctor T U V s a ctrl = Some (p, s1)
           \<or> DistMatrixReadWriteProxy_ctor T U V s a ctrl = Some (p, s1)"
    and "lookup s a = Some A"
    and "lookup s2 (wProx p) = Some P"
  shows "(CopyData (wProx p) a
            \<in> set (drop (length (events s2)) (events (DistMatrixWriteProxy_dtor s2 p u)))
          \<longleftrightarrow> \<not> proxyMatches T U V A ctrl \<and> \<not> u)
       \<and> (CopyData (wProx p) a
            \<in> set (drop (length (events s2)) (events (DistMatrixReadWriteProxy_dtor s2 p u)))
          \<longleftrightarrow> \<not> proxyMatches T U V A ctrl \<and> \<not> u)
       \<and> (\<not> proxyMatches T U V A ctrl \<and> \<not> u \<longrightarrow>
            lookup (DistMatrixWriteProxy_dtor s2 p u) a = map_option (CopyInto P) (lookup s2 a)
            \<and> lookup (DistMatrixReadWriteProxy_dtor s2 p u) a = map_option (CopyInto P) (lookup s2 a))
       \<and> (proxyMatches T U V A ctrl \<or> u \<longrightarrow>
            lookup (DistMatrixWriteProxy_dtor s2 p u) a = lookup s2 a
            \<and> lookup (DistMatrixReadWriteProxy_dtor s2 p u) a = lookup s2 a)
       \<and> lookup (DistMatrixWriteProxy_dtor s2 p True) a = lookup s2 a
       \<and> lookup (DistMatrixReadWriteProxy_dtor s2 p True) a = lookup s2 a
       \<and> (\<not> proxyMatches T U V A ctrl \<longrightarrow>
            (\<forall>f. lookup (DistMatrixWriteProxy_dtor (modify s1 (wProx p) f) p True) a = Some A
                 \<and> lookup (DistMatrixReadWriteProxy_dtor (modify s1 (wProx p) f) p True) a = Some A))
       \<and> (\<not> proxyMatches T U V A ctrl \<longrightarrow>
            (\<exists>Q. lookup s1 (wProx p) = Some Q
               \<and> (\<forall>f. lookup (DistMatrixWriteProxy_dtor (modify s1 (wProx p) f) p False) a
                         = Some (CopyInto (f Q) A)
                       \<and> lookup (DistMatrixReadWriteProxy_dtor (modify s1 (wProx p) f) p False) a
                         = Some (CopyInto (f Q) A))))
       \<and> (proxyMatches T U V A ctrl \<longrightarrow>
            DistMatrixWriteProxy_dtor s2 p u = s2 \<and> DistMatrixReadWriteProxy_dtor s2 p u = s2)
       \<and> (\<not> proxyMatches T U V A ctrl \<longrightarrow>
            lookup (DistMatrixWriteProxy_dtor s2 p u) (wProx p) = None
            \<and> lookup (DistMatrixReadWriteProxy_dtor s2 p u) (wProx p) = None)"
proof -
  note pa = proxy_after_ctor [OF assms(1,2)]
  have c: "CopyData (wProx p) a
            \<in> set (drop (length (events s2)) (events (DistMatrixWriteProxy_dtor s2 p u)))
          \<longleftrightarrow> \<not> proxyMatches T U V A ctrl \<and> \<not> u"
    using assms(3) pa(1,2) by (simp add: WriteProxy_dtor_events)
  have c': "CopyData (wProx p) a
            \<in> set (drop (length (events s2)) (events (DistMatrixReadWriteProxy_dtor s2 p u)))
          \<longleftrightarrow> \<not> proxyMatches T U V A ctrl \<and> \<not> u"
    using assms(3) pa(1,2) by (simp add: ReadWriteProxy_dtor_events)
  have b: "lookup (DistMatrixWriteProxy_dtor s2 p u) a = map_option (CopyInto P) (lookup s2 a)"
    "lookup (DistMatrixReadWriteProxy_dtor s2 p u) a = map_option (CopyInto P) (lookup s2 a)"
    if "\<not> proxyMatches T U V A ctrl" "\<not> u"
    using that assms(3) pa(1,2,3,4)
    by (auto simp: WriteProxy_dtor_lookup ReadWriteProxy_dtor_lookup lookup_Copy)
  have n: "lookup (DistMatrixWriteProxy_dtor s' p u') a = lookup s' a"
    "lookup (DistMatrixReadWriteProxy_dtor s' p u') a = lookup s' a"
    if "proxyMatches T U V A ctrl \<or> u'" for s' u'
    using that pa(1,2,3,4)
    by (auto simp: WriteProxy_dtor_lookup ReadWriteProxy_dtor_lookup)
  have l: "lookup (DistMatrixWriteProxy_dtor (modify s1 (wProx p) f) p True) a = Some A"
    "lookup (DistMatrixReadWriteProxy_dtor (modify s1 (wProx p) f) p True) a = Some A"
    if "\<not> proxyMatches T U V A ctrl" for f
    using that pa(4,5) by (simp_all add: n lookup_modify)
  from proxy_live [OF assms(1,2)] obtain Q where Q: "lookup s1 (wProx p) = Some Q" by auto
  have m: "lookup (DistMatrixWriteProxy_dtor (modify s1 (wProx p) f) p False) a
                   = Some (CopyInto (f Q) A)"
    "lookup (DistMatrixReadWriteProxy_dtor (modify s1 (wProx p) f) p False) a
                   = Some (CopyInto (f Q) A)"
    if "\<not> proxyMatches T U V A ctrl" for f
    using that pa(1,2,3,4,5) Q
    by (auto simp: WriteProxy_dtor_lookup ReadWriteProxy_dtor_lookup lookup_Copy lookup_modify)
  have i: "DistMatrixWriteProxy_dtor s2 p u = s2" "DistMatrixReadWriteProxy_dtor s2 p u = s2"
    if "proxyMatches T U V A ctrl"
    using that pa(2,3)
    by (simp_all add: DistMatrixWriteProxy_dtor_def DistMatrixReadWriteProxy_dtor_def)
  have d: "lookup (DistMatrixWriteProxy_dtor s2 p u) (wProx p) = None"
    "lookup (DistMatrixReadWriteProxy_dtor s2 p u) (wProx p) = None"
    if "\<not> proxyMatches T U V A ctrl"
    using that pa(3) by (simp_all add: WriteProxy_dtor_lookup ReadWriteProxy_dtor_lookup)
  from c c' b n [of u s2] n [of True s2] l m Q i d show ?thesis
    by (intro conjI impI allI) simp_all
qed

theorem write_proxy_copy_back_iff_witness:
  "DistMatrixWriteProxy_ctor Double MC STAR exampleStore 0 ElementalProxyCtrl_default
     = Some (exampleWriteProxy, exampleStoreAfterWrite)
   \<and> DistMatrixReadWriteProxy_ctor Double MC STAR exampleStore 0 ElementalProxyCtrl_default
     = Some (exampleWriteProxy, exampleStoreAfterReadWrite)
   \<and> \<not> proxyMatches Double MC STAR exampleDistMatrix ElementalProxyCtrl_default
   \<and> CopyData 1 0
        \<in> set (drop 1 (events (DistMatrixWriteProxy_dtor exampleStoreAfterWrite exampleWriteProxy False)))
   \<and> CopyData 1 0
        \<notin> set (drop 1 (events (DistMatrixWriteProxy_dtor exampleStoreAfterWrite exampleWriteProxy True)))
   \<and> lookup (DistMatrixWriteProxy_dtor exampleStoreAfterWrite exampleWriteProxy True) 0
       = Some exampleDistMatrix
   \<and> CopyData 1 0
        \<in> set (drop 2 (events (DistMatrixReadWriteProxy_dtor exampleStoreAfterReadWrite exampleWriteProxy False)))
   \<and> CopyData 1 0
        \<notin> set (drop 2 (events (DistMatrixReadWriteProxy_dtor exampleStoreAfterReadWrite exampleWriteProxy True)))
   \<and> map_option (\<lambda>m. Entries m 0 1)
         (lookup (DistMatrixReadWriteProxy_dtor
                    (modify exampleStoreAfterReadWrite 1 (\<lambda>m. m\<lparr>Entries := (\<lambda>i j. 7)\<rparr>))
                    exampleWriteProxy False) 0) = Some 7
   \<and> lookup (DistMatrixReadWriteProxy_dtor
               (modify exampleStoreAfterReadWrite 1 (\<lambda>m. m\<lparr>Entries := (\<lambda>i j. 7)\<rparr>))
               exampleWriteProxy True) 0 = Some exampleDistMatrix
   \<and> lookup (DistMatrixReadWriteProxy_dtor exampleStoreAfterReadWrite exampleWriteProxy False) 1 = None"
proof -
  have l: "lookup exampleStore 0 = Some exampleDistMatrix"
    by (simp add: lookup_def exampleStore_def)
  have m: "\<not> proxyMatches Double MC STAR exampleDistMatrix ElementalProxyCtrl_default"
    by (simp add: proxyMatches_def exampleDistMatrix_def DistMatrix_new_def)
  have c: "DistMatrixWriteProxy_ctor Double MC STAR exampleStore 0 ElementalProxyCtrl_default
     = Some (exampleWriteProxy, exampleStoreAfterWrite)"
    using l m
    by (simp add: DistMatrixWriteProxy_ctor_def proxyAlloc_def Let_def new_def exampleStore_def
        ElementalProxyCtrl_default_def modify_def lookup_def exampleWriteProxy_def
        exampleStoreAfterWrite_def exampleDistMatrix_def Resize_def DistMatrix_new_def)
  have g: "Grid exampleDistMatrix = 0" by (simp add: exampleDistMatrix_def DistMatrix_new_def)
  have c2: "DistMatrixReadWriteProxy_ctor Double MC STAR exampleStore 0 ElementalProxyCtrl_default
     = Some (exampleWriteProxy, exampleStoreAfterReadWrite)"
    using l m g
    by (simp add: DistMatrixReadWriteProxy_ctor_def proxyAlloc_def Let_def new_def exampleStore_def
        ElementalProxyCtrl_default_def modify_def lookup_def exampleWriteProxy_def Copy_def
        exampleStoreAfterReadWrite_def)
  have P: "lookup exampleStoreAfterWrite (wProx exampleWriteProxy)
      = Some ((DistMatrix_new Double MC STAR 0)\<lparr>DHeight := 2, DWidth := 2\<rparr>)"
    by (simp add: lookup_def exampleStoreAfterWrite_def exampleWriteProxy_def)
  have P2: "lookup exampleStoreAfterReadWrite (wProx exampleWriteProxy)
      = Some (CopyInto exampleDistMatrix (DistMatrix_new Double MC STAR 0))"
    by (simp add: lookup_def exampleStoreAfterReadWrite_def exampleWriteProxy_def)
  have x: "wProx exampleWriteProxy = 1" "events exampleStoreAfterWrite = [Alloc 1]"
    "lookup exampleStoreAfterWrite 0 = Some exampleDistMatrix"
    "events exampleStoreAfterReadWrite = [Alloc 1, CopyData 0 1]"
    "lookup exampleStoreAfterReadWrite 0 = Some exampleDistMatrix"
    by (simp_all add: lookup_def exampleStoreAfterWrite_def exampleWriteProxy_def
        exampleStoreAfterReadWrite_def)
  have e: "Entries (CopyInto (Q\<lparr>Entries := (\<lambda>i j. 7)\<rparr>) exampleDistMatrix) 0 1 = 7" for Q
    by (simp add: CopyInto_def)
  from write_proxy_copy_back_iff [OF disjI1 [OF c] l P, of False]
    write_proxy_copy_back_iff [OF disjI1 [OF c] l P, of True]
    write_proxy_copy_back_iff [OF disjI2 [OF c2] l P2, of False]
    write_proxy_copy_back_iff [OF disjI2 [OF c2] l P2, of True] x m c c2 P2 e
  show ?thesis
    by (auto simp: numeral_2_eq_2)
qed

text \<open>
  C6 (as amended).  When the source has the target element type and distribution pair,
  element-wise wrapping, and violates no active constraint, each of the three constructors
  returns the store as it was (no allocation, no copy) and a proxy whose matrix is the
  source itself; \<open>GetLocked\<close> of every proxy and \<open>Get\<close> of the write and read-write proxies
  return the source, and so does \<open>Get\<close> of a read proxy built from a mutable source, while
  \<open>Get\<close> of a read proxy built from a constant source raises a logic error; a mutation
  through the proxy is a mutation of the source; and the destructors change nothing.
\<close>

theorem matching_proxy_is_alias:
  assumes "lookup s a = Some A" "proxyMatches T U V A ctrl"
  shows "DistMatrixReadProxy_ctor T U V c s a ctrl
           = Some (\<lparr>locked = c, needDelete = False, orig = a, prox = a\<rparr>, s)
       \<and> DistMatrixWriteProxy_ctor T U V s a ctrl
           = Some (\<lparr>wNeedDelete = False, wNeedWriteCopy = False, wOrig = a, wProx = a\<rparr>, s)
       \<and> DistMatrixReadWriteProxy_ctor T U V s a ctrl
           = Some (\<lparr>wNeedDelete = False, wNeedWriteCopy = False, wOrig = a, wProx = a\<rparr>, s)
       \<and> DistMatrixReadProxy_GetLocked \<lparr>locked = c, needDelete = False, orig = a, prox = a\<rparr> = a
       \<and> DistMatrixReadProxy_Get \<lparr>locked = c, needDelete = False, orig = a, prox = a\<rparr>
           = (if c then Inl LogicError else Inr a)
       \<and> DistMatrixWriteProxy_GetLocked
            \<lparr>wNeedDelete = False, wNeedWriteCopy = False, wOrig = a, wProx = a\<rparr> = a
       \<and> DistMatrixWriteProxy_Get
            \<lparr>wNeedDelete = False, wNeedWriteCopy = False, wOrig = a, wProx = a\<rparr> = a
       \<and> DistMatrixReadWriteProxy_GetLocked
            \<lparr>wNeedDelete = False, wNeedWriteCopy = False, wOrig = a, wProx = a\<rparr> = a
       \<and> DistMatrixReadWriteProxy_Get
            \<lparr>wNeedDelete = False, wNeedWriteCopy = False, wOrig = a, wProx = a\<rparr> = a
       \<and> (\<forall>f. lookup (modify s a f) a = Some (f A))
       \<and> (\<forall>s' u.
            DistMatrixReadProxy_dtor s' \<lparr>locked = c, needDelete = False, orig = a, prox = a\<rparr> = s'
            \<and> DistMatrixWriteProxy_dtor s'
                \<lparr>wNeedDelete = False, wNeedWriteCopy = False, wOrig = a, wProx = a\<rparr> u = s'
            \<and> DistMatrixReadWriteProxy_dtor s'
                \<lparr>wNeedDelete = False, wNeedWriteCopy = False, wOrig = a, wProx = a\<rparr> u = s')"
  using assms
  by (simp add: DistMatrixReadProxy_ctor_def DistMatrixWriteProxy_ctor_def
      DistMatrixReadWriteProxy_ctor_def DistMatrixReadProxy_GetLocked_def
      DistMatrixReadProxy_Get_def DistMatrixWriteProxy_GetLocked_def
      DistMatrixWriteProxy_Get_def DistMatrixReadWriteProxy_GetLocked_def
      DistMatrixReadWriteProxy_Get_def DistMatrixReadProxy_dtor_def
      DistMatrixWriteProxy_dtor_def DistMatrixReadWriteProxy_dtor_def lookup_modify)

theorem matching_proxy_is_alias_witness:
  "lookup exampleStore 0 = Some exampleDistMatrix
   \<and> proxyMatches Double MC MR exampleDistMatrix ElementalProxyCtrl_default
   \<and> DistMatrixReadWriteProxy_ctor Double MC MR exampleStore 0 ElementalProxyCtrl_default
       = Some (\<lparr>wNeedDelete = False, wNeedWriteCopy = False, wOrig = 0, wProx = 0\<rparr>, exampleStore)
   \<and> DistMatrixReadProxy_Get \<lparr>locked = False, needDelete = False, orig = 0, prox = 0\<rparr> = Inr 0
   \<and> DistMatrixReadWriteProxy_dtor exampleStore
        \<lparr>wNeedDelete = False, wNeedWriteCopy = False, wOrig = 0, wProx = 0\<rparr> False = exampleStore"
proof -
  have l: "lookup exampleStore 0 = Some exampleDistMatrix"
    by (simp add: lookup_def exampleStore_def)
  have m: "proxyMatches Double MC MR exampleDistMatrix ElementalProxyCtrl_default"
    by (simp add: proxyMatches_def exampleDistMatrix_def DistMatrix_new_def
        ElementalProxyCtrl_default_def)
  from matching_proxy_is_alias [OF l m, of False] l m show ?thesis
    by simp
qed

theorem locked_read_proxy_Get_counterexample:
  "proxyMatches Double MC MR exampleDistMatrix ElementalProxyCtrl_default
   \<and> DistMatrixReadProxy_ctor Double MC MR True exampleStore 0 ElementalProxyCtrl_default
       = Some (\<lparr>locked = True, needDelete = False, orig = 0, prox = 0\<rparr>, exampleStore)
   \<and> DistMatrixReadProxy_Get \<lparr>locked = True, needDelete = False, orig = 0, prox = 0\<rparr>
       = Inl LogicError"
  by (simp add: proxyMatches_def exampleDistMatrix_def DistMatrix_new_def
      ElementalProxyCtrl_default_def DistMatrixReadProxy_ctor_def lookup_def exampleStore_def
      DistMatrixReadProxy_Get_def)

section \<open>Claims about the C interface\<close>

lemma CreateSpecific_accepts:
  "ElDistMatrixCreateSpecific T U V g =
     (if (U, V) \<in> set createPairs then (EL_SUCCESS, Some (DistMatrix_new T U V g))
      else (EL_RUNTIME_ERROR, None))"
  by (cases U; cases V; simp add: ElDistMatrixCreateSpecific_def createPairs_def)

lemma GetDiagonal_table:
  "ElDistMatrixGetDiagonal T A offset =
     (case map_of diagonalTable (ColDist A, RowDist A) of
        Some (UDiag, VDiag) \<Rightarrow>
          (EL_SUCCESS, Some (GetDiagonal A (DistMatrix_new T UDiag VDiag (Grid A)) offset))
      | None \<Rightarrow> (EL_RUNTIME_ERROR, None))"
  by (cases "ColDist A"; cases "RowDist A";
      simp add: ElDistMatrixGetDiagonal_def diagonalTable_def Let_def)

lemma GetDiagonal_replicated:
  assumes "ColDist A = STAR" "RowDist A = STAR"
  shows "\<exists>d. ElDistMatrixGetDiagonal T A offset = (EL_SUCCESS, Some d)
           \<and> ColDist d = STAR \<and> RowDist d = STAR
           \<and> (\<forall>i. Entries d i 0 = (if offset \<ge> 0 then Entries A i (i + nat offset)
                                   else Entries A (i + nat (- offset)) i))"
  using assms
  by (simp add: ElDistMatrixGetDiagonal_def Let_def GetDiagonal_def DistMatrix_new_def)

lemma createPairs_not_covered:
  "set createPairs - set (map fst diagonalTable) = {(MR, MC), (MR, STAR)}"
  by (auto simp: createPairs_def diagonalTable_def)

text \<open>
  C8.  The constructor accepts the pairs \<open>[MR,MC]\<close> and \<open>[MR,STAR]\<close>, and the diagonal of a
  matrix with either pair is refused with a runtime error: the table of the diagonal does
  not cover every pair of the constructor.
\<close>

theorem GetDiagonal_rejects_constructible_pairs:
  "ElDistMatrixCreateSpecific Float MR MC 0 = (EL_SUCCESS, Some (DistMatrix_new Float MR MC 0))
   \<and> ElDistMatrixGetDiagonal Float (DistMatrix_new Float MR MC 0) 0 = (EL_RUNTIME_ERROR, None)
   \<and> ElDistMatrixCreateSpecific Float MR STAR 0 = (EL_SUCCESS, Some (DistMatrix_new Float MR STAR 0))
   \<and> ElDistMatrixGetDiagonal Float (DistMatrix_new Float MR STAR 0) 0 = (EL_RUNTIME_ERROR, None)"
  by (simp add: ElDistMatrixCreateSpecific_def ElDistMatrixGetDiagonal_def DistMatrix_new_def)

section \<open>Properties of the matrix routines and of the panel loop\<close>

declare PanelPivoted_loop.simps [simp del] UnblockedPivoted_loop.simps [simp del]
  BlockedPivoted_loop.simps [simp del]

lemma LockedViewRange_sel [simp]:
  "Height (LockedViewRange A i0 j0 i1 j1) = i1 - i0"
  "Width (LockedViewRange A i0 j0 i1 j1) = j1 - j0"
  "Get (LockedViewRange A i0 j0 i1 j1) i j = Get A (i0 + i) (j0 + j)"
  by (simp_all add: LockedViewRange_def)

lemma ViewRange_sel [simp]:
  "Height (ViewRange A i0 j0 i1 j1) = i1 - i0"
  "Width (ViewRange A i0 j0 i1 j1) = j1 - j0"
  "Get (ViewRange A i0 j0 i1 j1) i j = Get A (i0 + i) (j0 + j)"
  by (simp_all add: ViewRange_def)

lemma WriteView_sel [simp]:
  "Height (WriteView A i0 j0 V) = Height A"
  "Width (WriteView A i0 j0 V) = Width A"
  "Get (WriteView A i0 j0 V) i j =
     (if i0 \<le> i \<and> i < i0 + Height V \<and> j0 \<le> j \<and> j < j0 + Width V
      then Get V (i - i0) (j - j0) else Get A i j)"
  by (simp_all add: WriteView_def)

lemma Zeros_sel [simp]:
  "Height (Zeros m n) = m" "Width (Zeros m n) = n" "Get (Zeros m n) i j = 0"
  by (simp_all add: Zeros_def)

lemma ResizeTo_sel [simp]:
  "Height (ResizeTo A m n) = m" "Width (ResizeTo A m n) = n" "Get (ResizeTo A m n) = Get A"
  by (simp_all add: ResizeTo_def)

lemma Set_sel [simp]:
  "Height (Set A i j v) = Height A" "Width (Set A i j v) = Width A"
  "Get (Set A i j v) i' j' = (if i' = i \<and> j' = j then v else Get A i' j')"
  by (simp_all add: Set_def)

lemma MakeReal_sel [simp]:
  "Height (MakeReal A i j) = Height A" "Width (MakeReal A i j) = Width A"
  "Get (MakeReal A i j) i' j' = (if i' = i \<and> j' = j then complex_of_real (Re (Get A i j)) else Get A i' j')"
  by (simp_all add: MakeReal_def)

lemma Conjugate_sel [simp]:
  "Height (Conjugate A) = Height A" "Width (Conjugate A) = Width A"
  "Get (Conjugate A) i j = cnj (Get A i j)"
  by (simp_all add: Conjugate_def)

lemma Scale_sel [simp]:
  "Height (Scale a A) = Height A" "Width (Scale a A) = Width A"
  "Get (Scale a A) i j = a * Get A i j"
  by (simp_all add: Scale_def)

lemma RowSwap_sel [simp]:
  "Height (RowSwap A a b) = Height A" "Width (RowSwap A a b) = Width A"
  "Get (RowSwap A a b) i j = Get A (swapIndex a b i) j"
  by (simp_all add: RowSwap_def)

lemma SymmetricSwap_sel [simp]:
  "Height (SymmetricSwap A a b c) = Height A" "Width (SymmetricSwap A a b c) = Width A"
  "Get (SymmetricSwap A a b c) i j =
     (if j \<le> i then symGet c A (swapIndex a b i) (swapIndex a b j) else Get A i j)"
  by (simp_all add: SymmetricSwap_def)

lemma Syr_sel [simp]:
  "Height (Syr a x A c) = Height A" "Width (Syr a x A c) = Width A"
  "Get (Syr a x A c) i j =
     (if j \<le> i then Get A i j + a * vecGet x i * cj c (vecGet x j) else Get A i j)"
  by (simp_all add: Syr_def)

lemma Trr2_sel [simp]:
  "Height (Trr2 a X Y A c) = Height A" "Width (Trr2 a X Y A c) = Width A"
  "Get (Trr2 a X Y A c) i j =
     (if j \<le> i then Get A i j + a * (Get X i 0 * cj c (Get Y j 0) + Get X i 1 * cj c (Get Y j 1))
      else Get A i j)"
  by (simp_all add: Trr2_def)

lemma Gemm_sel [simp]:
  "Height (Gemm a A B b C) = Height C" "Width (Gemm a A B b C) = Width C"
  "Get (Gemm a A B b C) i j = a * (\<Sum>t<Width A. Get A i t * Get B j t) + b * Get C i j"
  by (simp_all add: Gemm_def)

lemma Trrk_sel [simp]:
  "Height (Trrk a A B b C) = Height C" "Width (Trrk a A B b C) = Width C"
  "Get (Trrk a A B b C) i j =
     (if j \<le> i then a * (\<Sum>t<Width A. Get A i t * Get B j t) + b * Get C i j else Get C i j)"
  by (simp_all add: Trrk_def)

lemma Symmetric2x2Solve_Inr:
  assumes "Symmetric2x2Solve D A c = Inr B"
  shows "Height B = Height A" "Width B = Width A"
    "Get D 0 0 * Get D 1 1 - Get D 1 0 * cj c (Get D 1 0) \<noteq> 0"
    "Get B i j =
      (if j = 0 then (Get A i 0 * Get D 1 1 - Get A i 1 * Get D 1 0)
                     / (Get D 0 0 * Get D 1 1 - Get D 1 0 * cj c (Get D 1 0))
       else if j = 1 then (Get A i 1 * Get D 0 0 - Get A i 0 * cj c (Get D 1 0))
                     / (Get D 0 0 * Get D 1 1 - Get D 1 0 * cj c (Get D 1 0))
       else Get A i j)"
  using assms by (auto simp: Symmetric2x2Solve_def Let_def split: if_splits)

text \<open>Panel pivots have one or two columns.\<close>

lemma PanelBunchKaufmanA_nb:
  "PanelBunchKaufmanA A X Y k g = Inr pivot \<Longrightarrow> nb pivot = 1 \<or> nb pivot = 2"
  by (auto simp: PanelBunchKaufmanA_def Let_def split: if_splits)

lemma PanelBunchKaufmanD_nb:
  "PanelBunchKaufmanD A X Y k g = Inr pivot \<Longrightarrow> nb pivot = 1 \<or> nb pivot = 2"
  by (auto simp: PanelBunchKaufmanD_def Let_def split: if_splits)

lemma ChoosePanelPivot_nb:
  "ChoosePanelPivot A X Y k t g = Inr pivot \<Longrightarrow> nb pivot = 1 \<or> nb pivot = 2"
  by (cases t) (auto simp: ChoosePanelPivot_def dest: PanelBunchKaufmanA_nb PanelBunchKaufmanD_nb)

lemma panel_overflow:
  assumes "k < bsize" "pivotType \<noteq> BUNCH_KAUFMAN_C"
    and "ChoosePanelPivot (LockedViewRange A off off n n) X Y k pivotType gamma = Inr pivot"
    and "k + nb pivot > bsize"
  shows "nb pivot = 2" "bsize - 1 = k"
    "PanelPivoted_loop conjugate pivotType gamma n off bsize (A, dSub, p, X, Y) k
       = Inr (A, dSub, p, ResizeTo X (n - off) k, ResizeTo Y (n - off) k)"
proof -
  from ChoosePanelPivot_nb [OF assms(3)] assms(1,4) show nb: "nb pivot = 2" and k: "bsize - 1 = k"
    by auto
  show "PanelPivoted_loop conjugate pivotType gamma n off bsize (A, dSub, p, X, Y) k
       = Inr (A, dSub, p, ResizeTo X (n - off) k, ResizeTo Y (n - off) k)"
    using assms k by (subst PanelPivoted_loop.simps) (simp add: Let_def)
qed

lemma PanelPivoted_1x1_dims:
  assumes "PanelPivoted_1x1 c n off k (A, X, Y) = Inr (A', X', Y')"
  shows "Height A' = Height A" "Width A' = Width A" "Height X' = Height X" "Width X' = Width X"
    "Height Y' = Height Y" "Width Y' = Width Y"
  using assms by (auto simp: PanelPivoted_1x1_def Let_def split: if_splits)

lemma PanelPivoted_2x2_dims:
  assumes "PanelPivoted_2x2 c n off k (A, dSub, X, Y) = Inr (A', dSub', X', Y')"
  shows "Height A' = Height A" "Width A' = Width A" "Height X' = Height X" "Width X' = Width X"
    "Height Y' = Height Y" "Width Y' = Width Y" "Height dSub' = Height dSub" "Width dSub' = Width dSub"
  using assms by (auto simp: PanelPivoted_2x2_def Let_def split: if_splits sum.splits)

text \<open>The loop of the panel, case by case.\<close>

lemma PanelPivoted_loop_exit:
  "\<not> k < bsize \<Longrightarrow> PanelPivoted_loop c t g n off bsize st k = Inr st"
  by (cases st) (simp add: PanelPivoted_loop.simps)

lemma PanelPivoted_loop_C:
  "k < bsize \<Longrightarrow> PanelPivoted_loop c BUNCH_KAUFMAN_C g n off bsize st k = Inl LogicError"
  by (cases st) (simp add: PanelPivoted_loop.simps)

lemma PanelPivoted_loop_fail:
  "k < bsize \<Longrightarrow> t \<noteq> BUNCH_KAUFMAN_C \<Longrightarrow>
   ChoosePanelPivot (LockedViewRange A off off n n) X Y k t g = Inl e \<Longrightarrow>
   PanelPivoted_loop c t g n off bsize (A, dSub, p, X, Y) k = Inl e"
  by (simp add: PanelPivoted_loop.simps)

lemma PanelPivoted_loop_1x1:
  "k < bsize \<Longrightarrow> t \<noteq> BUNCH_KAUFMAN_C \<Longrightarrow>
   ChoosePanelPivot (LockedViewRange A off off n n) X Y k t g = Inr pivot \<Longrightarrow>
   nb pivot = 1 \<Longrightarrow>
   PanelPivoted_loop c t g n off bsize (A, dSub, p, X, Y) k =
     (case PanelPivoted_1x1 c n off k
             (SymmetricSwap A (off + k) (off + from' pivot ! 0) c,
              RowSwap X k (from' pivot ! 0), RowSwap Y k (from' pivot ! 0)) of
        Inl e \<Rightarrow> Inl e
      | Inr (A1, X1, Y1) \<Rightarrow>
          PanelPivoted_loop c t g n off bsize
            (A1, dSub, p[off + k := off + from' pivot ! 0], X1, Y1) (k + 1))"
  by (subst PanelPivoted_loop.simps) (simp add: Let_def del: One_nat_def)

lemma PanelPivoted_loop_2x2:
  "k + 2 \<le> bsize \<Longrightarrow> t \<noteq> BUNCH_KAUFMAN_C \<Longrightarrow>
   ChoosePanelPivot (LockedViewRange A off off n n) X Y k t g = Inr pivot \<Longrightarrow>
   nb pivot = 2 \<Longrightarrow> r = from' pivot ! 1 \<Longrightarrow>
   PanelPivoted_loop c t g n off bsize (A, dSub, p, X, Y) k =
     (case PanelPivoted_2x2 c n off k
             (SymmetricSwap A (off + k + 1) (off + r) c, dSub,
              RowSwap X (k + 1) r, RowSwap Y (k + 1) r) of
        Inl e \<Rightarrow> Inl e
      | Inr (A1, dSub1, X1, Y1) \<Rightarrow>
          PanelPivoted_loop c t g n off bsize
            (A1, dSub1, (p[off + k := off + k])[off + k + 1 := off + r], X1, Y1)
            (k + 2))"
  by (subst PanelPivoted_loop.simps) (simp add: Let_def cong: sum.case_cong)

text \<open>An invariant rule for the loop of the panel.\<close>

lemma PanelPivoted_loop_rule:
  assumes res: "PanelPivoted_loop c t g n off bsize st k = Inr st'"
    and inv: "I st k" and kb: "k \<le> bsize"
    and step1: "\<And>A dSub p X Y k pivot A1 X1 Y1.
        I (A, dSub, p, X, Y) k \<Longrightarrow> k < bsize \<Longrightarrow>
        ChoosePanelPivot (LockedViewRange A off off n n) X Y k t g = Inr pivot \<Longrightarrow>
        nb pivot = 1 \<Longrightarrow>
        PanelPivoted_1x1 c n off k
             (SymmetricSwap A (off + k) (off + from' pivot ! 0) c,
              RowSwap X k (from' pivot ! 0), RowSwap Y k (from' pivot ! 0)) = Inr (A1, X1, Y1) \<Longrightarrow>
        I (A1, dSub, p[off + k := off + from' pivot ! 0], X1, Y1) (k + 1)"
    and step2: "\<And>A dSub p X Y k pivot A1 dSub1 X1 Y1.
        I (A, dSub, p, X, Y) k \<Longrightarrow> k + 2 \<le> bsize \<Longrightarrow>
        ChoosePanelPivot (LockedViewRange A off off n n) X Y k t g = Inr pivot \<Longrightarrow>
        nb pivot = 2 \<Longrightarrow>
        PanelPivoted_2x2 c n off k
             (SymmetricSwap A (off + k + 1) (off + from' pivot ! 1) c, dSub,
              RowSwap X (k + 1) (from' pivot ! 1), RowSwap Y (k + 1) (from' pivot ! 1))
          = Inr (A1, dSub1, X1, Y1) \<Longrightarrow>
        I (A1, dSub1, (p[off + k := off + k])[off + k + 1 := off + from' pivot ! 1], X1, Y1) (k + 2)"
    and fin: "\<And>st. I st bsize \<Longrightarrow> Q st"
    and ovf: "\<And>A dSub p X Y k pivot.
        I (A, dSub, p, X, Y) k \<Longrightarrow> k + 1 = bsize \<Longrightarrow>
        ChoosePanelPivot (LockedViewRange A off off n n) X Y k t g = Inr pivot \<Longrightarrow>
        nb pivot = 2 \<Longrightarrow>
        Q (A, dSub, p, ResizeTo X (n - off) k, ResizeTo Y (n - off) k)"
  shows "Q st'"
  using res inv kb
proof (induction "bsize - k" arbitrary: st k rule: less_induct)
  case less
  obtain A dSub p X Y where st: "st = (A, dSub, p, X, Y)" by (cases st) auto
  show ?case
  proof (cases "k < bsize")
    case False
    with less.prems have "st' = st" "k = bsize" by (simp_all add: PanelPivoted_loop_exit)
    with less.prems fin show ?thesis by simp
  next
    case True
    note k = True
    from less.prems(1) k have nc: "t \<noteq> BUNCH_KAUFMAN_C"
      by (auto simp: PanelPivoted_loop_C)
    from less.prems(1) k st nc obtain pivot where
      pv: "ChoosePanelPivot (LockedViewRange A off off n n) X Y k t g = Inr pivot"
      by (cases "ChoosePanelPivot (LockedViewRange A off off n n) X Y k t g")
         (auto simp: PanelPivoted_loop_fail)
    show ?thesis
    proof (cases "k + nb pivot > bsize")
      case True
      from panel_overflow [OF k nc pv True] less.prems(1) st
      have "nb pivot = 2" "k + 1 = bsize"
        "st' = (A, dSub, p, ResizeTo X (n - off) k, ResizeTo Y (n - off) k)"
        using k by auto
      with ovf [OF _ _ pv] less.prems(2) st show ?thesis by simp
    next
      case False
      from ChoosePanelPivot_nb [OF pv] show ?thesis
      proof
        assume n1: "nb pivot = 1"
        from less.prems(1) obtain A1 X1 Y1 where
          s1: "PanelPivoted_1x1 c n off k
             (SymmetricSwap A (off + k) (off + from' pivot ! 0) c,
              RowSwap X k (from' pivot ! 0), RowSwap Y k (from' pivot ! 0)) = Inr (A1, X1, Y1)"
          and r: "PanelPivoted_loop c t g n off bsize
            (A1, dSub, p[off + k := off + from' pivot ! 0], X1, Y1) (k + 1) = Inr st'"
          unfolding st PanelPivoted_loop_1x1 [OF k nc pv n1]
          by (auto split: sum.splits)
        have i: "I (A1, dSub, p[off + k := off + from' pivot ! 0], X1, Y1) (k + 1)"
          using step1 [OF _ k pv n1 s1] less.prems(2) st by simp
        show ?thesis
          by (rule less.hyps [OF _ r i]) (use k in auto)
      next
        assume n2: "nb pivot = 2"
        with False have k2: "k + 2 \<le> bsize" by simp
        from less.prems(1) obtain A1 dSub1 X1 Y1 where
          s1: "PanelPivoted_2x2 c n off k
             (SymmetricSwap A (off + k + 1) (off + from' pivot ! 1) c, dSub,
              RowSwap X (k + 1) (from' pivot ! 1), RowSwap Y (k + 1) (from' pivot ! 1))
             = Inr (A1, dSub1, X1, Y1)"
          and r: "PanelPivoted_loop c t g n off bsize
            (A1, dSub1, (p[off + k := off + k])[off + k + 1 := off + from' pivot ! 1], X1, Y1)
            (k + 2) = Inr st'"
          unfolding st PanelPivoted_loop_2x2 [OF k2 nc pv n2 refl]
          by (auto split: sum.splits)
        have i: "I (A1, dSub1, (p[off + k := off + k])[off + k + 1 := off + from' pivot ! 1], X1, Y1) (k + 2)"
          using step2 [OF _ k2 pv n2 s1] less.prems(2) st by simp
        show ?thesis
          by (rule less.hyps [OF _ r i]) (use k2 in auto)
      qed
    qed
  qed
qed

lemma PanelPivoted_loop_dims:
  assumes "PanelPivoted_loop c t g n off bsize (A, dSub, p, X, Y) k = Inr (A', dSub', p', X', Y')"
    and "Width X = bsize" "Width Y = bsize" "k \<le> bsize"
  shows "Height A' = Height A" "Width A' = Width A" "length p' = length p"
    "Height dSub' = Height dSub" "Width dSub' = Width dSub"
    "Width Y' = Width X'" "Width X' = bsize \<or> Width X' + 1 = bsize"
proof -
  let ?I = "\<lambda>(A1, dSub1, p1, X1, Y1) (k::nat). Height A1 = Height A \<and> Width A1 = Width A
      \<and> length p1 = length p \<and> Height dSub1 = Height dSub \<and> Width dSub1 = Width dSub
      \<and> Width X1 = bsize \<and> Width Y1 = bsize"
  let ?Q = "\<lambda>(A1, dSub1, p1, X1, Y1). Height A1 = Height A \<and> Width A1 = Width A
      \<and> length p1 = length p \<and> Height dSub1 = Height dSub \<and> Width dSub1 = Width dSub
      \<and> Width Y1 = Width X1 \<and> (Width X1 = bsize \<or> Width X1 + 1 = bsize)"
  have "?Q (A', dSub', p', X', Y')"
  proof (rule PanelPivoted_loop_rule [where I = ?I and Q = ?Q, OF assms(1) _ assms(4)])
    show "?I (A, dSub, p, X, Y) k" using assms by simp
  next
    fix A dSub p X Y k pivot A1 X1 Y1
    assume "PanelPivoted_1x1 c n off k
             (SymmetricSwap A (off + k) (off + from' pivot ! 0) c,
              RowSwap X k (from' pivot ! 0), RowSwap Y k (from' pivot ! 0)) = Inr (A1, X1, Y1)"
    from PanelPivoted_1x1_dims [OF this]
    show "?I (A, dSub, p, X, Y) k \<Longrightarrow> ?I (A1, dSub, p[off + k := off + from' pivot ! 0], X1, Y1) (k + 1)"
      by simp
  next
    fix A dSub p X Y k pivot A1 dSub1 X1 Y1
    assume "PanelPivoted_2x2 c n off k
             (SymmetricSwap A (off + k + 1) (off + from' pivot ! 1) c, dSub,
              RowSwap X (k + 1) (from' pivot ! 1), RowSwap Y (k + 1) (from' pivot ! 1))
          = Inr (A1, dSub1, X1, Y1)"
    from PanelPivoted_2x2_dims [OF this]
    show "?I (A, dSub, p, X, Y) k \<Longrightarrow>
      ?I (A1, dSub1, (p[off + k := off + k])[off + k + 1 := off + from' pivot ! 1], X1, Y1) (k + 2)"
      by simp
  qed auto
  then show "Height A' = Height A" "Width A' = Width A" "length p' = length p"
    "Height dSub' = Height dSub" "Width dSub' = Width dSub"
    "Width Y' = Width X'" "Width X' = bsize \<or> Width X' + 1 = bsize"
    by simp_all
qed

lemma PanelPivoted_dims:
  assumes "PanelPivoted A dSub p X Y bsize off c t g = Inr (A', dSub', p', X', Y')" "0 < Height A"
  shows "Height A' = Height A" "Width A' = Width A" "length p' = length p"
    "Height dSub' = Height dSub" "Width dSub' = Width dSub"
    "Width Y' = Width X'" "Width X' = bsize \<or> Width X' + 1 = bsize"
proof -
  from assms have "PanelPivoted_loop c t g (Height A) off bsize
      (A, dSub, p, Zeros (Height A - off) bsize, Zeros (Height A - off) bsize) 0
    = Inr (A', dSub', p', X', Y')"
    by (auto simp: PanelPivoted_def Let_def split: if_splits)
  from PanelPivoted_loop_dims [OF this]
  show "Height A' = Height A" "Width A' = Width A" "length p' = length p"
    "Height dSub' = Height dSub" "Width dSub' = Width dSub"
    "Width Y' = Width X'" "Width X' = bsize \<or> Width X' + 1 = bsize"
    by simp_all
qed

lemma BlockedPivoted_loop_step:
  assumes "k < n"
    and "PanelPivoted A dSub p X Y (min bsize (n - k)) k c t g = Inr (A1, dSub1, p1, X1, Y1)"
  shows "BlockedPivoted_loop (Suc fuel) bsize c t g n (A, dSub, p, X, Y) k
       = BlockedPivoted_loop fuel bsize c t g n
           (trailingUpdate n k A1 X1 Y1, dSub1, p1, X1, Y1) (k + Width X1)"
  using assms by (simp add: BlockedPivoted_loop.simps Let_def)

lemma Get_trailingUpdate:
  "Get (trailingUpdate n k A X Y) i j =
     (if k + Width X \<le> j \<and> j \<le> i \<and> i < n
      then Get A i j - (\<Sum>t<Width X. Get X (i - k) t * Get Y (j - k) t) else Get A i j)"
  by (auto simp: trailingUpdate_def Let_def add.commute add.left_commute intro!: sum.cong)

section \<open>Claims about the panel and the drivers\<close>


lemma exampleOnePanel:
  "\<exists>A1 dSub1 p1 X1 Y1. PanelPivoted exampleOne (Zeros 0 1) [0] (Zeros 0 0) (Zeros 0 0) 1 0 False BUNCH_KAUFMAN_A 0
    = Inr (A1, dSub1, p1, X1, Y1)"
proof -
  have pv: "ChoosePanelPivot (LockedViewRange exampleOne 0 0 1 1) (Zeros 1 1) (Zeros 1 1) 0
     BUNCH_KAUFMAN_A 0 = Inr \<lparr>nb = 1, from' = [0]\<rparr>"
    by (simp add: ChoosePanelPivot_def exampleOne_def pivot_eval panel_eval)
  have h: "Height exampleOne = 1" "Width exampleOne = 1"
    by (simp_all add: exampleOne_def MatrixOfRows_def)
  have nz: "Get exampleOne 0 0 = 5" by (simp add: exampleOne_def MatrixOfRows_def)
  have l: "PanelPivoted_loop False BUNCH_KAUFMAN_A 0 1 0 1
      (exampleOne, Zeros 0 1, [0], Zeros 1 1, Zeros 1 1) 0
    = (case PanelPivoted_1x1 False 1 0 0
             (SymmetricSwap exampleOne (0 + 0) (0 + from' \<lparr>nb = 1, from' = [0]\<rparr> ! 0) False,
              RowSwap (Zeros 1 1) 0 (from' \<lparr>nb = 1, from' = [0]\<rparr> ! 0),
              RowSwap (Zeros 1 1) 0 (from' \<lparr>nb = 1, from' = [0]\<rparr> ! 0)) of
        Inl e \<Rightarrow> Inl e
      | Inr (A1, X1, Y1) \<Rightarrow>
          PanelPivoted_loop False BUNCH_KAUFMAN_A 0 1 0 1
            (A1, Zeros 0 1, [0][0 + 0 := 0 + from' \<lparr>nb = 1, from' = [0]\<rparr> ! 0], X1, Y1) (0 + 1))"
    by (rule PanelPivoted_loop_1x1 [OF _ _ pv]) simp_all
  have "\<exists>r. PanelPivoted_loop False BUNCH_KAUFMAN_A 0 1 0 1
      (exampleOne, Zeros 0 1, [0], Zeros 1 1, Zeros 1 1) 0 = Inr r"
    unfolding l
    by (simp add: PanelPivoted_1x1_def Let_def PanelPivoted_loop_exit Gemv_def symGet_def
        swapIndex_def nz)
  then show ?thesis
    by (simp add: PanelPivoted_def Let_def h)
qed

lemma MaxLoop_zero: "(\<forall>i<m. f i = 0) \<Longrightarrow> MaxLoop f m = \<lparr>val = 0, index = 0\<rparr>"
  by (induction m) (auto simp: Let_def)

lemma foldl_max_zero:
  assumes "\<forall>(i, j) \<in> set xs. Get A i j = 0"
  shows "foldl (\<lambda>pivot (i, j).
              if cmod (Get A i j) > pval pivot
              then \<lparr>pval = cmod (Get A i j), indices = [i, j]\<rparr> else pivot)
       \<lparr>pval = 0, indices = [0, 0]\<rparr> xs = \<lparr>pval = 0, indices = [0, 0]\<rparr>"
  using assms by (induction xs) auto

lemma SymmetricMax_zero:
  assumes "\<forall>i j. j \<le> i \<and> i < Height A \<longrightarrow> Get A i j = 0"
  shows "SymmetricMax A = \<lparr>pval = 0, indices = [0, 0]\<rparr>"
  unfolding SymmetricMax_def
  by (rule foldl_max_zero) (use assms in auto)

lemma DiagonalMax_zero:
  assumes "\<forall>i j. j \<le> i \<and> i < Height A \<longrightarrow> Get A i j = 0"
  shows "DiagonalMax A = \<lparr>val = 0, index = 0\<rparr>"
  unfolding DiagonalMax_def
  by (rule MaxLoop_zero) (use assms in auto)

lemma BunchParlett_zero:
  assumes "\<forall>i j. j \<le> i \<and> i < Height A \<longrightarrow> Get A i j = 0"
  shows "BunchParlett A gamma = \<lparr>nb = 1, from' = [0]\<rparr>"
  by (simp add: BunchParlett_def Let_def SymmetricMax_zero [OF assms] DiagonalMax_zero [OF assms])

lemma BunchParlett_nb: "nb (BunchParlett A gamma) = 1 \<or> nb (BunchParlett A gamma) = 2"
  by (simp add: BunchParlett_def Let_def)

lemma UnblockedPivoted_zero:
  assumes z: "\<forall>i j. j \<le> i \<and> i < Height A \<longrightarrow> Get A i j = 0"
    and n: "0 < Height A" "Height A = Width A"
  shows "UnblockedPivoted A c BUNCH_PARLETT gamma = Inl DivisionByZero"
proof -
  let ?n = "Height A"
  let ?V = "ViewRange A 0 0 ?n ?n"
  have "\<forall>i j. j \<le> i \<and> i < Height ?V \<longrightarrow> Get ?V i j = 0"
    using z by simp
  then have pv: "ChoosePivot ?V BUNCH_PARLETT gamma = Inr \<lparr>nb = 1, from' = [0]\<rparr>"
    by (simp add: ChoosePivot_def BunchParlett_zero)
  have g: "Get A 0 0 = 0" using z n by simp
  have "UnblockedPivoted_loop c BUNCH_PARLETT gamma ?n (A, Zeros (?n - 1) 1, replicate ?n 0) 0
      = Inl DivisionByZero"
    using n pv g
    by (subst UnblockedPivoted_loop.simps)
       (simp add: UnblockedPivoted_1x1_def Let_def symGet_def swapIndex_def)
  with n show ?thesis
    by (simp add: UnblockedPivoted_def Let_def)
qed

text \<open>
  C10.  \<open>BunchParlett\<close> has no failing branch: \<open>ChoosePivot\<close> with that strategy always returns
  its pivot, of one or two columns.  On a matrix whose stored triangle is zero both maxima
  are zero, the test \<open>0 \<ge> gamma * 0\<close> holds and the pivot is 1x1 at the diagonal position 0;
  the unblocked factorization, which \<open>Pivoted\<close> takes for this strategy, then reaches the
  quotient \<open>1 / A(0,0)\<close> with a zero divisor instead of the singular-matrix exception.
\<close>

theorem BunchParlett_never_singular:
  "ChoosePivot A BUNCH_PARLETT gamma = Inr (BunchParlett A gamma)
   \<and> (nb (BunchParlett A gamma) = 1 \<or> nb (BunchParlett A gamma) = 2)
   \<and> ((\<forall>i j. j \<le> i \<and> i < Height A \<longrightarrow> Get A i j = 0) \<and> 0 < Height A \<and> Height A = Width A \<longrightarrow>
        val (DiagonalMax A) = 0 \<and> pval (SymmetricMax A) = 0
        \<and> BunchParlett A gamma = \<lparr>nb = 1, from' = [index (DiagonalMax A)]\<rparr>
        \<and> UnblockedPivoted A conjugate BUNCH_PARLETT gamma = Inl DivisionByZero
        \<and> Pivoted fuel bsize A conjugate BUNCH_PARLETT gamma = Some (Inl DivisionByZero))"
proof (intro conjI impI)
  show "ChoosePivot A BUNCH_PARLETT gamma = Inr (BunchParlett A gamma)"
    by (simp add: ChoosePivot_def)
  show "nb (BunchParlett A gamma) = 1 \<or> nb (BunchParlett A gamma) = 2"
    by (rule BunchParlett_nb)
next
  assume h: "(\<forall>i j. j \<le> i \<and> i < Height A \<longrightarrow> Get A i j = 0) \<and> 0 < Height A \<and> Height A = Width A"
  then have z: "\<forall>i j. j \<le> i \<and> i < Height A \<longrightarrow> Get A i j = 0"
    and n: "0 < Height A" "Height A = Width A" by simp_all
  show "val (DiagonalMax A) = 0" by (simp add: DiagonalMax_zero [OF z])
  show "pval (SymmetricMax A) = 0" by (simp add: SymmetricMax_zero [OF z])
  show "BunchParlett A gamma = \<lparr>nb = 1, from' = [index (DiagonalMax A)]\<rparr>"
    by (simp add: BunchParlett_zero [OF z] DiagonalMax_zero [OF z])
  show u: "UnblockedPivoted A conjugate BUNCH_PARLETT gamma = Inl DivisionByZero"
    by (rule UnblockedPivoted_zero [OF z n])
  show "Pivoted fuel bsize A conjugate BUNCH_PARLETT gamma = Some (Inl DivisionByZero)"
    by (simp add: Pivoted_def u)
qed

theorem BunchParlett_never_singular_witness:
  "ChoosePivot exampleZeroFactors BUNCH_PARLETT 0 = Inr \<lparr>nb = 1, from' = [0]\<rparr>
   \<and> UnblockedPivoted exampleZeroFactors False BUNCH_PARLETT 0 = Inl DivisionByZero
   \<and> Pivoted 3 2 exampleZeroFactors False BUNCH_PARLETT 0 = Some (Inl DivisionByZero)"
proof -
  have h: "(\<forall>i j. j \<le> i \<and> i < Height exampleZeroFactors \<longrightarrow> Get exampleZeroFactors i j = 0)
      \<and> 0 < Height exampleZeroFactors \<and> Height exampleZeroFactors = Width exampleZeroFactors"
    by (auto simp: exampleZeroFactors_def MatrixOfRows_def nth_Cons' less_Suc_eq
        eval_nat_numeral)
  have i: "index (DiagonalMax exampleZeroFactors) = 0"
    by (simp add: DiagonalMax_def exampleZeroFactors_def MatrixOfRows_def eval_nat_numeral Let_def)
  from BunchParlett_never_singular
         [where A = exampleZeroFactors and gamma = 0 and conjugate = False and fuel = 3
            and bsize = 2] h i
  show ?thesis by simp
qed

section \<open>The factorization invariant\<close>

lemma cj_simps [simp]:
  "cj c 0 = 0" "cj c 1 = 1" "cj c (x + y) = cj c x + cj c y" "cj c (x - y) = cj c x - cj c y"
  "cj c (x * y) = cj c x * cj c y" "cj c (x / y) = cj c x / cj c y" "cj c (- x) = - cj c x"
  "cj c (cj c x) = x" "cj c (inverse x) = inverse (cj c x)"
  by (simp_all add: cj_def)

lemma cj_eq_0 [simp]: "cj c x = 0 \<longleftrightarrow> x = 0"
  by (simp add: cj_def)

lemma cj_sum: "cj c (sum f A) = (\<Sum>x\<in>A. cj c (f x))"
  by (simp add: cj_def)

lemma cj_real: "(c \<Longrightarrow> Im z = 0) \<Longrightarrow> cj c z = z"
  by (auto simp: cj_def complex_eq_iff)

lemma Im_mult_cj: "c \<Longrightarrow> Im (z * cj c z) = 0"
  by (simp add: cj_def)

lemma Lf_simps:
  "Lf a i i = 1" "s < i \<Longrightarrow> Lf a i s = a i s" "i < s \<Longrightarrow> Lf a i s = 0"
  by (simp_all add: Lf_def)

lemma LDLt_0 [simp]: "LDLt c a d 0 i j = 0"
  by (simp add: LDLt_def)

lemma LDLt_Suc_raw:
  "LDLt c a d (Suc k) i j =
     LDLt c a d k i j
     + (if 0 < k then Lf a i (k - 1) * cj c (d (k - 1)) * cj c (Lf a j k)
                     + Lf a i k * d (k - 1) * cj c (Lf a j (k - 1)) else 0)
     + Lf a i k * a k k * cj c (Lf a j k)"
proof -
  have col: "(\<Sum>s<k. Lf a i s * Df c a d s k * cj c (Lf a j k))
      = (if 0 < k then Lf a i (k - 1) * cj c (d (k - 1)) * cj c (Lf a j k) else 0)"
  proof (cases k)
    case 0
    then show ?thesis by simp
  next
    case (Suc m)
    have "(\<Sum>s<m. Lf a i s * Df c a d s (Suc m) * cj c (Lf a j (Suc m))) = 0"
      by (rule sum.neutral) (simp add: Df_def)
    then show ?thesis by (simp add: Suc Df_def)
  qed
  have row: "(\<Sum>t<k. Lf a i k * Df c a d k t * cj c (Lf a j t))
      = (if 0 < k then Lf a i k * d (k - 1) * cj c (Lf a j (k - 1)) else 0)"
  proof (cases k)
    case 0
    then show ?thesis by simp
  next
    case (Suc m)
    have "(\<Sum>t<m. Lf a i (Suc m) * Df c a d (Suc m) t * cj c (Lf a j t)) = 0"
      by (rule sum.neutral) (simp add: Df_def)
    then show ?thesis by (simp add: Suc Df_def)
  qed
  have "LDLt c a d (Suc k) i j =
      LDLt c a d k i j + (\<Sum>s<k. Lf a i s * Df c a d s k * cj c (Lf a j k))
      + ((\<Sum>t<k. Lf a i k * Df c a d k t * cj c (Lf a j t)) + Lf a i k * Df c a d k k * cj c (Lf a j k))"
    by (simp add: LDLt_def sum.distrib)
  from this [unfolded col row] show ?thesis
    by (simp add: Df_def)
qed

lemma LDLt_cong:
  assumes "\<And>i s. s < k \<Longrightarrow> s \<le> i \<Longrightarrow> a' i s = a i s" "\<And>t. Suc t < k \<Longrightarrow> d' t = d t"
  shows "LDLt c a' d' k i j = LDLt c a d k i j"
proof -
  have L: "Lf a' i s = Lf a i s" if "s < k" for i s
    using that assms(1) [of s i] by (simp add: Lf_def)
  have D: "Df c a' d' s t = Df c a d s t" if "s < k" "t < k" for s t
    using that assms(1) [of s s] assms(2) by (auto simp: Df_def)
  show ?thesis
    unfolding LDLt_def
    by (intro sum.cong refl) (simp add: L D)
qed

lemma Df_herm: "(c \<Longrightarrow> Im (a s s) = 0) \<Longrightarrow> (c \<Longrightarrow> Im (a t t) = 0) \<Longrightarrow> cj c (Df c a d s t) = Df c a d t s"
  by (auto simp: Df_def cj_real)

lemma LDLt_herm:
  assumes "c \<Longrightarrow> \<forall>s<k. Im (a s s) = 0"
  shows "LDLt c a d k j i = cj c (LDLt c a d k i j)"
proof -
  have "cj c (LDLt c a d k i j) = (\<Sum>s<k. \<Sum>t<k. cj c (Lf a i s) * Df c a d t s * Lf a j t)"
    unfolding LDLt_def cj_sum
    by (intro sum.cong refl) (use assms in \<open>simp add: Df_herm\<close>)
  also have "\<dots> = (\<Sum>t<k. \<Sum>s<k. cj c (Lf a i s) * Df c a d t s * Lf a j t)"
    by (rule sum.swap)
  also have "\<dots> = LDLt c a d k j i"
    unfolding LDLt_def by (intro sum.cong refl) (simp add: mult_ac)
  finally show ?thesis by simp
qed

lemma swapIndex_simps [simp]:
  "swapIndex x y x = y" "swapIndex x y y = x"
  "i \<noteq> x \<Longrightarrow> i \<noteq> y \<Longrightarrow> swapIndex x y i = i"
  "swapIndex x x i = i"
  by (simp_all add: swapIndex_def)

lemma swapIndex_invol [simp]: "swapIndex x y (swapIndex x y i) = i"
  by (simp add: swapIndex_def)

lemma swapIndex_less: "x < n \<Longrightarrow> y < n \<Longrightarrow> i < n \<Longrightarrow> swapIndex x y i < n"
  by (simp add: swapIndex_def)

lemma swapIndex_ge: "k \<le> x \<Longrightarrow> k \<le> y \<Longrightarrow> k \<le> i \<Longrightarrow> k \<le> swapIndex x y i"
  by (simp add: swapIndex_def)

lemma swapIndex_fix: "k \<le> x \<Longrightarrow> k \<le> y \<Longrightarrow> i < k \<Longrightarrow> swapIndex x y i = i"
  by (simp add: swapIndex_def)

lemma swapIndex_ge_iff: "k \<le> x \<Longrightarrow> k \<le> y \<Longrightarrow> k \<le> swapIndex x y i \<longleftrightarrow> k \<le> i"
  by (auto simp: swapIndex_def)

lemma swapIndex_eq_iff [simp]: "swapIndex x y i = swapIndex x y j \<longleftrightarrow> i = j"
  by (auto simp: swapIndex_def)

text \<open>The three steps on the state of a factorization.\<close>

lemma factoredD:
  assumes "factored c n k B a d S"
  shows "\<And>i j. j \<le> i \<Longrightarrow> i < n \<Longrightarrow> B i j = LDLt c a d k i j + (if k \<le> j then S i j else 0)"
    and "\<And>i j. i < n \<Longrightarrow> j < n \<Longrightarrow> B j i = cj c (B i j)"
    and "\<And>t. k \<le> Suc t \<Longrightarrow> d t = 0"
    and "\<And>t. d t \<noteq> 0 \<Longrightarrow> d (Suc t) = 0 \<and> a (Suc t) t = 0"
    and "\<And>s. c \<Longrightarrow> s < k \<Longrightarrow> Im (a s s) = 0"
    and "\<And>i. c \<Longrightarrow> k \<le> i \<Longrightarrow> i < n \<Longrightarrow> Im (S i i) = 0"
proof -
  from assms have 1: "\<forall>i j. j \<le> i \<and> i < n \<longrightarrow> B i j = LDLt c a d k i j + (if k \<le> j then S i j else 0)"
    and r: "(\<forall>i j. i < n \<and> j < n \<longrightarrow> B j i = cj c (B i j))
     \<and> (\<forall>t. k \<le> Suc t \<longrightarrow> d t = 0)
     \<and> (\<forall>t. d t \<noteq> 0 \<longrightarrow> d (Suc t) = 0 \<and> a (Suc t) t = 0)
     \<and> (c \<longrightarrow> (\<forall>s<k. Im (a s s) = 0) \<and> (\<forall>i. k \<le> i \<and> i < n \<longrightarrow> Im (S i i) = 0))"
    unfolding factored_def by (rule conjunct1, rule conjunct2)
  from r have 2: "\<forall>i j. i < n \<and> j < n \<longrightarrow> B j i = cj c (B i j)"
    and 3: "\<forall>t. k \<le> Suc t \<longrightarrow> d t = 0"
    and 4: "\<forall>t. d t \<noteq> 0 \<longrightarrow> d (Suc t) = 0 \<and> a (Suc t) t = 0"
    and 5: "c \<longrightarrow> (\<forall>s<k. Im (a s s) = 0) \<and> (\<forall>i. k \<le> i \<and> i < n \<longrightarrow> Im (S i i) = 0)"
    by (rule conjunct1, rule conjunct1 [OF conjunct2], rule conjunct1 [OF conjunct2 [OF conjunct2]],
        rule conjunct2 [OF conjunct2 [OF conjunct2]])
  show "\<And>i j. j \<le> i \<Longrightarrow> i < n \<Longrightarrow> B i j = LDLt c a d k i j + (if k \<le> j then S i j else 0)"
    using 1 by (rule allE) (erule allE, erule mp, rule conjI)
  show "\<And>i j. i < n \<Longrightarrow> j < n \<Longrightarrow> B j i = cj c (B i j)"
    using 2 by (rule allE) (erule allE, erule mp, rule conjI)
  show "\<And>t. k \<le> Suc t \<Longrightarrow> d t = 0" using 3 by (rule allE) (erule mp)
  show "\<And>t. d t \<noteq> 0 \<Longrightarrow> d (Suc t) = 0 \<and> a (Suc t) t = 0" using 4 by (rule allE) (erule mp)
  show "\<And>s. c \<Longrightarrow> s < k \<Longrightarrow> Im (a s s) = 0" using 5 by simp
  show "\<And>i. c \<Longrightarrow> k \<le> i \<Longrightarrow> i < n \<Longrightarrow> Im (S i i) = 0" using 5 by simp
qed


lemma factored_swap:
  assumes f: "factored c n k B a d S"
    and x: "k \<le> x" "x < n" and y: "k \<le> y" "y < n"
    and a': "\<And>i s. s < k \<Longrightarrow> s \<le> i \<Longrightarrow> i < n \<Longrightarrow> a' i s = a (swapIndex x y i) s"
    and S': "\<And>i j. k \<le> j \<Longrightarrow> j \<le> i \<Longrightarrow> i < n \<Longrightarrow>
         S' i j = (if swapIndex x y j \<le> swapIndex x y i then S (swapIndex x y i) (swapIndex x y j)
                   else cj c (S (swapIndex x y j) (swapIndex x y i)))"
  shows "factored c n k (\<lambda>i j. B (swapIndex x y i) (swapIndex x y j)) a' d S'"
proof -
  let ?t = "swapIndex x y"
  note B = factoredD(1) [OF f] and H = factoredD(2) [OF f] and d0 = factoredD(3) [OF f]
    and bl = factoredD(4) [OF f] and reA = factoredD(5) [OF f] and reS = factoredD(6) [OF f]
  have tfix: "?t i = i" if "i < k" for i using that x y by (simp add: swapIndex_fix)
  have L: "Lf a' i s = Lf a (?t i) s" if "s < k" "i < n" for i s
  proof (cases "i < k")
    case True
    with that a' [of s i] show ?thesis by (auto simp: Lf_def tfix)
  next
    case False
    then have "k \<le> ?t i" using x y by (simp add: swapIndex_ge)
    with False that a' [of s i] show ?thesis by (auto simp: Lf_def)
  qed
  have Dd: "Df c a' d s t = Df c a d s t" if "s < k" "t < k" for s t
    using that x a' [of s s] by (auto simp: Df_def tfix)
  have R: "LDLt c a' d k i j = LDLt c a d k (?t i) (?t j)" if "i < n" "j < n" for i j
    unfolding LDLt_def by (intro sum.cong refl) (simp add: L Dd that)
  have herm: "LDLt c a d k j i = cj c (LDLt c a d k i j)" for i j
    by (rule LDLt_herm) (use reA in auto)
  show ?thesis
    unfolding factored_def
  proof (intro conjI allI impI)
    fix i j assume ij: "j \<le> i \<and> i < n"
    then have lt: "?t i < n" "?t j < n" using x y by (simp_all add: swapIndex_less)
    show "B (?t i) (?t j) = LDLt c a' d k i j + (if k \<le> j then S' i j else 0)"
    proof (cases "?t j \<le> ?t i")
      case True
      have "B (?t i) (?t j) = LDLt c a d k (?t i) (?t j) + (if k \<le> ?t j then S (?t i) (?t j) else 0)"
        by (rule B [OF True lt(1)])
      also have "\<dots> = LDLt c a' d k i j + (if k \<le> j then S' i j else 0)"
        using ij True x y by (simp add: R S' swapIndex_ge_iff)
      finally show ?thesis .
    next
      case False
      then have lt2: "?t i \<le> ?t j" by simp
      have kj: "k \<le> j"
      proof (rule ccontr)
        assume "\<not> k \<le> j"
        then have "?t j = j" by (simp add: tfix)
        moreover have "j \<le> ?t i"
        proof (cases "i < k")
          case True then show ?thesis using ij by (simp add: tfix)
        next
          case False
          then have "k \<le> ?t i" using x y by (simp add: swapIndex_ge)
          with \<open>\<not> k \<le> j\<close> show ?thesis by simp
        qed
        ultimately show False using False by simp
      qed
      then have ki: "k \<le> i" using ij by simp
      have kti: "k \<le> ?t i" using ki x y by (simp add: swapIndex_ge)
      have "B (?t i) (?t j) = cj c (B (?t j) (?t i))" by (rule H [OF lt(2,1)])
      also have "B (?t j) (?t i) = LDLt c a d k (?t j) (?t i) + (if k \<le> ?t i then S (?t j) (?t i) else 0)"
        by (rule B [OF lt2 lt(2)])
      also have "cj c \<dots> = LDLt c a d k (?t i) (?t j) + cj c (S (?t j) (?t i))"
        using kti by (simp add: herm [symmetric])
      also have "\<dots> = LDLt c a' d k i j + (if k \<le> j then S' i j else 0)"
        using ij False kj by (simp add: R S')
      finally show ?thesis .
    qed
  next
    fix i j assume "i < n \<and> j < n"
    then show "B (?t j) (?t i) = cj c (B (?t i) (?t j))" using x y by (intro H) (simp_all add: swapIndex_less)
  next
    fix t assume "k \<le> Suc t" then show "d t = 0" by (rule d0)
  next
    fix t assume dt: "d t \<noteq> 0"
    then show "d (Suc t) = 0" using bl by simp
    from dt d0 [of t] have tk: "Suc t < k" by (cases "Suc t < k") auto
    then have "a' (Suc t) t = a (?t (Suc t)) t" using x by (intro a') auto
    then show "a' (Suc t) t = 0" using bl [OF dt] tk by (simp add: tfix)
  next
    fix s assume "c" "s < k"
    then show "Im (a' s s) = 0" using reA [of s] a' [of s s] x by (simp add: tfix)
  next
    fix i assume "c" and i: "k \<le> i \<and> i < n"
    then have "S' i i = S (?t i) (?t i)" by (simp add: S')
    moreover have "k \<le> ?t i" "?t i < n" using i x y by (simp_all add: swapIndex_ge swapIndex_less)
    ultimately show "Im (S' i i) = 0" using reS [of "?t i"] \<open>c\<close> by simp
  qed
qed

lemma LDLt_cong_below:
  assumes "\<And>i s. s < k \<Longrightarrow> s \<le> i \<Longrightarrow> i < n \<Longrightarrow> a' i s = a i s"
    and "\<And>t. Suc t < k \<Longrightarrow> d' t = d t" and "k \<le> n" "i < n" "j < n"
  shows "LDLt c a' d' k i j = LDLt c a d k i j"
proof -
  have L: "Lf a' i' s = Lf a i' s" if "s < k" "i' < n" for i' s
    using that assms(1) [of s i'] by (simp add: Lf_def)
  have D: "Df c a' d' s t = Df c a d s t" if "s < k" "t < k" for s t
    using that assms(1) [of s s] assms(2,3) by (auto simp: Df_def)
  show ?thesis
    unfolding LDLt_def
    by (intro sum.cong refl) (simp add: L D assms(4,5))
qed

lemma Im_quotient_real: "Im x = 0 \<Longrightarrow> Im y = 0 \<Longrightarrow> Im (x / y) = 0"
  by (simp add: Im_divide)

lemma Im_cj_product: "c \<Longrightarrow> Im (z * cj c z) = 0"
  by (simp add: cj_def)

lemma factored_1x1:
  assumes f: "factored c n k B a d S" and kn: "k < n" and nz: "S k k \<noteq> 0"
    and a1: "\<And>i s. s < k \<Longrightarrow> s \<le> i \<Longrightarrow> i < n \<Longrightarrow> a' i s = a i s"
    and ak: "a' k k = S k k"
    and ac: "\<And>i. k < i \<Longrightarrow> i < n \<Longrightarrow> a' i k = S i k / S k k"
    and S': "\<And>i j. k < j \<Longrightarrow> j \<le> i \<Longrightarrow> i < n \<Longrightarrow> S' i j = S i j - S i k * cj c (S j k) / S k k"
  shows "factored c n (Suc k) B a' d S'"
proof -
  note B = factoredD(1) [OF f] and H = factoredD(2) [OF f] and d0 = factoredD(3) [OF f]
    and bl = factoredD(4) [OF f] and reA = factoredD(5) [OF f] and reS = factoredD(6) [OF f]
  have dk: "0 < k \<Longrightarrow> d (k - 1) = 0" by (rule d0) simp
  have rp: "cj c (S k k) = S k k" by (rule cj_real) (use reS kn in simp)
  have old: "LDLt c a' d k i j = LDLt c a d k i j" if "i < n" "j < n" for i j
    by (rule LDLt_cong_below [where n = n]) (use a1 kn that in auto)
  have step: "LDLt c a' d (Suc k) i j
      = LDLt c a d k i j + Lf a' i k * S k k * cj c (Lf a' j k)" if "i < n" "j < n" for i j
    using dk by (simp add: LDLt_Suc_raw old that ak)
  show ?thesis
    unfolding factored_def
  proof (intro conjI allI impI)
    fix i j assume ij: "j \<le> i \<and> i < n"
    then have lt: "i < n" "j < n" by simp_all
    consider "j < k" | "j = k" "i = k" | "j = k" "k < i" | "k < j" using ij by linarith
    then show "B i j = LDLt c a' d (Suc k) i j + (if Suc k \<le> j then S' i j else 0)"
    proof cases
      case 1
      then show ?thesis using B [of j i] ij by (simp add: step lt kn Lf_def)
    next
      case 2
      then show ?thesis using B [of j i] ij by (simp add: step lt kn Lf_def)
    next
      case 3
      then show ?thesis using B [of j i] ij nz by (simp add: step lt kn Lf_def ac)
    next
      case 4
      then have ki: "k < i" using ij by simp
      have "Lf a' i k * S k k * cj c (Lf a' j k) = S i k * cj c (S j k) / S k k"
        using 4 ki lt nz by (simp add: Lf_def ac rp)
      then show ?thesis using B [of j i] ij 4 by (simp add: step lt S')
    qed
  next
    fix i j assume "i < n \<and> j < n"
    then show "B j i = cj c (B i j)" by (intro H) simp_all
  next
    fix t assume "Suc k \<le> Suc t" then show "d t = 0" by (intro d0) simp
  next
    fix t assume dt: "d t \<noteq> 0"
    then show "d (Suc t) = 0" using bl by simp
    from dt d0 [of t] have tk: "Suc t < k" by (cases "Suc t < k") auto
    then have "a' (Suc t) t = a (Suc t) t" using kn by (intro a1) auto
    then show "a' (Suc t) t = 0" using bl [OF dt] by simp
  next
    fix s assume c: "c" and "s < Suc k"
    then consider "s < k" | "s = k" by linarith
    then show "Im (a' s s) = 0"
    proof cases
      case 1 then show ?thesis using reA [OF c 1] a1 [of s s] kn by simp
    next
      case 2 then show ?thesis using reS [OF c, of k] kn by (simp add: ak)
    qed
  next
    fix i assume c: "c" and i: "Suc k \<le> i \<and> i < n"
    then have "S' i i = S i i - S i k * cj c (S i k) / S k k" by (intro S') simp_all
    moreover have "Im (S i i) = 0" using reS [OF c, of i] i by simp
    moreover have "Im (S i k * cj c (S i k) / S k k) = 0"
      by (intro Im_quotient_real Im_cj_product c reS) (use kn in simp_all)
    ultimately show "Im (S' i i) = 0" by simp
  qed
qed

lemma solve2x2:
  fixes p q r s0 s1 :: complex
  assumes det: "p * r - q * q' \<noteq> 0"
    and x0: "x0 = (s0 * r - s1 * q) / (p * r - q * q')"
    and x1: "x1 = (s1 * p - s0 * q') / (p * r - q * q')"
  shows "x0 * p + x1 * q = s0" "x0 * q' + x1 * r = s1"
proof -
  define D where "D = p * r - q * q'"
  have D: "D \<noteq> 0" using det by (simp add: D_def)
  have e0: "x0 * D = s0 * r - s1 * q" and e1: "x1 * D = s1 * p - s0 * q'"
    using D by (simp_all add: x0 x1 D_def [symmetric])
  have "(x0 * p + x1 * q) * D = (x0 * D) * p + (x1 * D) * q" by (simp add: algebra_simps)
  also have "\<dots> = s0 * D" unfolding e0 e1 by (simp add: D_def algebra_simps)
  finally show "x0 * p + x1 * q = s0" using D by simp
  have "(x0 * q' + x1 * r) * D = (x0 * D) * q' + (x1 * D) * r" by (simp add: algebra_simps)
  also have "\<dots> = s1 * D" unfolding e0 e1 by (simp add: D_def algebra_simps)
  finally show "x0 * q' + x1 * r = s1" using D by simp
qed

lemma factored_2x2:
  assumes f: "factored c n k B a d S" and kn: "Suc k < n"
    and det: "S k k * S (Suc k) (Suc k) - S (Suc k) k * cj c (S (Suc k) k) \<noteq> 0"
    and a1: "\<And>i s. s < k \<Longrightarrow> s \<le> i \<Longrightarrow> i < n \<Longrightarrow> a' i s = a i s"
    and ak: "a' k k = S k k" "a' (Suc k) (Suc k) = S (Suc k) (Suc k)" "a' (Suc k) k = 0"
    and dk: "d' k = S (Suc k) k" and d1: "\<And>t. t \<noteq> k \<Longrightarrow> d' t = d t"
    and ac0: "\<And>i. Suc k < i \<Longrightarrow> i < n \<Longrightarrow>
        a' i k = (S i k * S (Suc k) (Suc k) - S i (Suc k) * S (Suc k) k)
                 / (S k k * S (Suc k) (Suc k) - S (Suc k) k * cj c (S (Suc k) k))"
    and ac1: "\<And>i. Suc k < i \<Longrightarrow> i < n \<Longrightarrow>
        a' i (Suc k) = (S i (Suc k) * S k k - S i k * cj c (S (Suc k) k))
                 / (S k k * S (Suc k) (Suc k) - S (Suc k) k * cj c (S (Suc k) k))"
    and S': "\<And>i j. Suc k < j \<Longrightarrow> j \<le> i \<Longrightarrow> i < n \<Longrightarrow>
        S' i j = S i j - (a' i k * cj c (S j k) + a' i (Suc k) * cj c (S j (Suc k)))"
  shows "factored c n (Suc (Suc k)) B a' d' S'"
proof -
  note B = factoredD(1) [OF f] and H = factoredD(2) [OF f] and d0 = factoredD(3) [OF f]
    and bl = factoredD(4) [OF f] and reA = factoredD(5) [OF f] and reS = factoredD(6) [OF f]
  define p where "p = S k k"
  define q where "q = S (Suc k) k"
  define r where "r = S (Suc k) (Suc k)"
  have dk0: "0 < k \<Longrightarrow> d' (k - 1) = 0" using d0 [of "k - 1"] d1 [of "k - 1"] by simp
  have rp: "cj c p = p" unfolding p_def by (rule cj_real) (use reS kn in simp)
  have rr: "cj c r = r" unfolding r_def by (rule cj_real) (use reS kn in simp)
  have old: "LDLt c a' d' k i j = LDLt c a d k i j" if "i < n" "j < n" for i j
    by (rule LDLt_cong_below [where n = n]) (use a1 d1 kn that in auto)
  have step: "LDLt c a' d' (Suc (Suc k)) i j
      = LDLt c a d k i j
        + (Lf a' i k * p * cj c (Lf a' j k) + Lf a' i k * cj c q * cj c (Lf a' j (Suc k))
           + Lf a' i (Suc k) * q * cj c (Lf a' j k) + Lf a' i (Suc k) * r * cj c (Lf a' j (Suc k)))"
    if "i < n" "j < n" for i j
    using dk0 by (simp add: LDLt_Suc_raw old that ak dk p_def q_def r_def)
  have sol: "a' i k * p + a' i (Suc k) * q = S i k" "a' i k * cj c q + a' i (Suc k) * r = S i (Suc k)"
    if "Suc k < i" "i < n" for i
    using solve2x2 [of p r q "cj c q" "a' i k" "S i k" "S i (Suc k)" "a' i (Suc k)"]
      det ac0 [OF that] ac1 [OF that] by (simp_all add: p_def q_def r_def)
  have Lk: "Lf a' k k = 1" "Lf a' k (Suc k) = 0" "Lf a' (Suc k) k = 0" "Lf a' (Suc k) (Suc k) = 1"
    by (simp_all add: Lf_def ak)
  have Lb: "Lf a' i k = a' i k" "Lf a' i (Suc k) = a' i (Suc k)" if "Suc k < i" for i
    using that by (simp_all add: Lf_def)
  have La: "Lf a' j k = 0" "Lf a' j (Suc k) = 0" if "j < k" for j
    using that by (simp_all add: Lf_def)
  show ?thesis
    unfolding factored_def
  proof (intro conjI allI impI)
    fix i j assume ij: "j \<le> i \<and> i < n"
    then have lt: "i < n" "j < n" by simp_all
    note Bij = B [of j i]
    consider "j < k" | "j = k" "i = k" | "j = k" "i = Suc k" | "j = k" "Suc k < i"
      | "j = Suc k" "i = Suc k" | "j = Suc k" "Suc k < i" | "Suc k < j" using ij by linarith
    then show "B i j = LDLt c a' d' (Suc (Suc k)) i j + (if Suc (Suc k) \<le> j then S' i j else 0)"
    proof cases
      case 1
      then show ?thesis using Bij ij by (simp add: step lt La)
    next
      case 2
      then show ?thesis using Bij kn by (simp add: step Lk p_def)
    next
      case 3
      then show ?thesis using Bij kn by (simp add: step Lk q_def)
    next
      case 4
      then show ?thesis using Bij kn lt sol(1) [of i] by (simp add: step Lk Lb)
    next
      case 5
      then show ?thesis using Bij kn by (simp add: step Lk r_def)
    next
      case 6
      then show ?thesis using Bij kn lt sol(2) [of i] by (simp add: step Lk Lb)
    next
      case 7
      then have ki: "Suc k < i" using ij by simp
      have cs: "cj c (S j k) = cj c (a' j k) * p + cj c (a' j (Suc k)) * cj c q"
        "cj c (S j (Suc k)) = cj c (a' j k) * q + cj c (a' j (Suc k)) * r"
        using sol [OF 7 lt(2), symmetric] by (simp_all add: rp rr)
      have "Lf a' i k * p * cj c (Lf a' j k) + Lf a' i k * cj c q * cj c (Lf a' j (Suc k))
           + Lf a' i (Suc k) * q * cj c (Lf a' j k) + Lf a' i (Suc k) * r * cj c (Lf a' j (Suc k))
         = a' i k * cj c (S j k) + a' i (Suc k) * cj c (S j (Suc k))"
        unfolding cs by (simp add: Lb 7 ki algebra_simps)
      then show ?thesis using Bij ij 7 by (simp add: step lt S')
    qed
  next
    fix i j assume "i < n \<and> j < n"
    then show "B j i = cj c (B i j)" by (intro H) simp_all
  next
    fix t assume "Suc (Suc k) \<le> Suc t"
    then show "d' t = 0" using d0 [of t] d1 [of t] by simp
  next
    fix t assume dt: "d' t \<noteq> 0"
    have tk: "t = k \<or> Suc t < k" using dt d0 [of t] d1 [of t] by (cases "Suc t < k") auto
    then show "d' (Suc t) = 0"
    proof
      assume "t = k"
      then show ?thesis using d0 [of "Suc k"] d1 [of "Suc k"] by simp
    next
      assume "Suc t < k"
      then show ?thesis using d1 [of "Suc t"] d1 [of t] dt bl [of t] by simp
    qed
    show "a' (Suc t) t = 0"
    proof (cases "t = k")
      case True then show ?thesis by (simp add: ak)
    next
      case False
      with dt d1 have dt': "d t \<noteq> 0" by simp
      with d0 [of t] have "Suc t < k" by (cases "Suc t < k") auto
      then have "a' (Suc t) t = a (Suc t) t" using kn by (intro a1) auto
      then show ?thesis using bl [OF dt'] by simp
    qed
  next
    fix s assume c: "c" and "s < Suc (Suc k)"
    then consider "s < k" | "s = k" | "s = Suc k" by linarith
    then show "Im (a' s s) = 0"
    proof cases
      case 1 then show ?thesis using reA [OF c 1] a1 [of s s] kn by simp
    next
      case 2 then show ?thesis using reS [OF c, of k] kn by (simp add: ak)
    next
      case 3 then show ?thesis using reS [OF c, of "Suc k"] kn by (simp add: ak)
    qed
  next
    fix i assume c: "c" and i: "Suc (Suc k) \<le> i \<and> i < n"
    then have ki: "Suc k < i" "i < n" by simp_all
    have e: "S' i i = S i i - (a' i k * cj c (S i k) + a' i (Suc k) * cj c (S i (Suc k)))"
      by (intro S') (use i in simp_all)
    have cs: "cj c (S i k) = cj c (a' i k) * p + cj c (a' i (Suc k)) * cj c q"
      "cj c (S i (Suc k)) = cj c (a' i k) * q + cj c (a' i (Suc k)) * r"
      using sol [OF ki, symmetric] by (simp_all add: rp rr)
    have ip: "Im p = 0" "Im r = 0" using reS [OF c, of k] reS [OF c, of "Suc k"] kn
      by (simp_all add: p_def r_def)
    have "Im (a' i k * cj c (S i k) + a' i (Suc k) * cj c (S i (Suc k))) = 0"
      unfolding cs using c ip by (simp add: cj_def algebra_simps)
    moreover have "Im (S i i) = 0" using reS [OF c, of i] i by simp
    ultimately show "Im (S' i i) = 0" using e by simp
  qed
qed

lemma factored_final:
  assumes f: "factored c n n B a d S" and i: "i < n" and j: "j < n"
  shows "B i j = LDLt c a d n i j"
proof -
  note B = factoredD(1) [OF f] and H = factoredD(2) [OF f] and reA = factoredD(5) [OF f]
  have low: "B i j = LDLt c a d n i j" if "j \<le> i" "i < n" for i j
    using B [OF that] that by simp
  show ?thesis
  proof (cases "j \<le> i")
    case True
    then show ?thesis using i by (rule low)
  next
    case False
    then have "B j i = LDLt c a d n j i" using j by (intro low) simp_all
    moreover have "B i j = cj c (B j i)" by (rule H [OF j i])
    moreover have "LDLt c a d n i j = cj c (LDLt c a d n j i)"
      by (rule LDLt_herm) (use reA in auto)
    ultimately show ?thesis by simp
  qed
qed

lemma pivotPerm_update: "k \<le> m \<Longrightarrow> pivotPerm (p[m := v]) k i = pivotPerm p k i"
  by (induction k arbitrary: i) simp_all

lemma permuted_swap:
  "k < length p \<Longrightarrow>
   permuted c A0 (p[k := y]) (Suc k) i j = permuted c A0 p k (swapIndex k y i) (swapIndex k y j)"
  by (simp add: permuted_def pivotPerm_update)

lemma permuted_swap2:
  "Suc k < length p \<Longrightarrow>
   permuted c A0 (p[k := x, Suc k := y]) (Suc (Suc k)) i j
     = permuted c A0 p k (swapIndex k x (swapIndex (Suc k) y i)) (swapIndex k x (swapIndex (Suc k) y j))"
  by (simp add: permuted_def pivotPerm_update nth_list_update)

lemma unblocked_swap:
  assumes f: "factored c n k B (Get A) d (Get A)"
    and x: "k \<le> x" "x < n" and y: "k \<le> y" "y < n"
  shows "factored c n k (\<lambda>i j. B (swapIndex x y i) (swapIndex x y j))
           (Get (SymmetricSwap A x y c)) d (Get (SymmetricSwap A x y c))"
proof (rule factored_swap [OF f x y])
  fix i s assume s: "s < k" "s \<le> i" "i < n"
  have ts: "swapIndex x y s = s" using s x y by (simp add: swapIndex_fix)
  have "s \<le> swapIndex x y i"
  proof (cases "i < k")
    case True then show ?thesis using s x y by (simp add: swapIndex_fix)
  next
    case False
    then have "k \<le> swapIndex x y i" using x y by (simp add: swapIndex_ge)
    with s show ?thesis by simp
  qed
  then show "Get (SymmetricSwap A x y c) i s = Get A (swapIndex x y i) s"
    using s by (simp add: ts symGet_def)
next
  fix i j assume "k \<le> j" "j \<le> i" "i < n"
  then show "Get (SymmetricSwap A x y c) i j =
      (if swapIndex x y j \<le> swapIndex x y i then Get A (swapIndex x y i) (swapIndex x y j)
       else cj c (Get A (swapIndex x y j) (swapIndex x y i)))"
    by (simp add: symGet_def)
qed

lemma UnblockedPivoted_1x1_Inr:
  assumes r: "UnblockedPivoted_1x1 c n k pivot (A, dSub, p) = Inr (A', dSub', p')"
  defines "As \<equiv> SymmetricSwap A k (k + from' pivot ! 0) c"
  shows "Get As k k \<noteq> 0" "dSub' = dSub" "p' = p[k := k + from' pivot ! 0]"
    "Get A' i j =
       (if k < i \<and> i < n \<and> j = k then Get As i k / Get As k k
        else if k < j \<and> j \<le> i \<and> i < n then Get As i j - Get As i k * cj c (Get As j k) / Get As k k
        else Get As i j)"
proof -
  from r show nz: "Get As k k \<noteq> 0" and "dSub' = dSub" and "p' = p[k := k + from' pivot ! 0]"
    by (auto simp: UnblockedPivoted_1x1_def Let_def As_def split: if_splits)
  from r nz have A': "A' = WriteView
        (WriteView As (k + 1) (k + 1)
           (Syr (- (1 / Get As k k)) (ViewRange As (k + 1) k n (k + 1))
              (ViewRange As (k + 1) (k + 1) n n) c))
        (k + 1) k (Scale (1 / Get As k k) (ViewRange As (k + 1) k n (k + 1)))"
    by (simp add: UnblockedPivoted_1x1_def Let_def As_def)
  show "Get A' i j =
       (if k < i \<and> i < n \<and> j = k then Get As i k / Get As k k
        else if k < j \<and> j \<le> i \<and> i < n then Get As i j - Get As i k * cj c (Get As j k) / Get As k k
        else Get As i j)"
    unfolding A' by (auto simp: vecGet_def)
qed

lemma UnblockedPivoted_1x1_inv:
  assumes r: "UnblockedPivoted_1x1 c n k pivot (A, dSub, p) = Inr (A', dSub', p')"
    and inv: "unblockedInv c A0 n k A dSub p" and kn: "k < n" and fr: "from' pivot ! 0 < n - k"
  shows "unblockedInv c A0 n (Suc k) A' dSub' p'"
proof -
  define y where "y = k + from' pivot ! 0"
  define As where "As = SymmetricSwap A k y c"
  note R = UnblockedPivoted_1x1_Inr [OF r, folded y_def, folded As_def]
  from inv have len: "length p = n" and rng: "\<forall>t<k. p ! t < n"
    and f: "factored c n k (permuted c A0 p k) (Get A) (\<lambda>t. Get dSub t 0) (Get A)"
    by (simp_all add: unblockedInv_def)
  have y: "k \<le> y" "y < n" using fr by (simp_all add: y_def)
  have fs: "factored c n k (\<lambda>i j. permuted c A0 p k (swapIndex k y i) (swapIndex k y j))
      (Get As) (\<lambda>t. Get dSub t 0) (Get As)"
    unfolding As_def by (rule unblocked_swap [OF f _ kn y]) simp
  have f1: "factored c n (Suc k) (\<lambda>i j. permuted c A0 p k (swapIndex k y i) (swapIndex k y j))
      (Get A') (\<lambda>t. Get dSub t 0) (Get A')"
    by (rule factored_1x1 [OF fs kn R(1)]) (simp_all add: R(4))
  have B: "permuted c A0 p' (Suc k) = (\<lambda>i j. permuted c A0 p k (swapIndex k y i) (swapIndex k y j))"
    using kn len by (intro ext) (simp add: R(3) permuted_swap)
  show ?thesis
    unfolding unblockedInv_def B R(2)
    using f1 len rng y kn by (auto simp: R(3) nth_list_update less_Suc_eq)
qed

lemma UnblockedPivoted_2x2_Inr:
  assumes r: "UnblockedPivoted_2x2 c n k pivot (A, dSub, p) = Inr (A', dSub', p')"
  defines "As \<equiv> SymmetricSwap (SymmetricSwap A k (k + from' pivot ! 0) c) (k + 1)
                   (k + from' pivot ! 1) c"
  defines "det \<equiv> Get As k k * Get As (Suc k) (Suc k) - Get As (Suc k) k * cj c (Get As (Suc k) k)"
  shows "det \<noteq> 0"
    and "Get dSub' t 0 = (if t = k then Get As (Suc k) k else Get dSub t 0)"
    and "p' = p[k := k + from' pivot ! 0, Suc k := k + from' pivot ! 1]"
    and "s < k \<Longrightarrow> Get A' i s = Get As i s"
    and "Get A' k k = Get As k k" "Get A' (Suc k) (Suc k) = Get As (Suc k) (Suc k)"
      "Get A' (Suc k) k = 0"
    and "Suc k < i \<Longrightarrow> i < n \<Longrightarrow>
         Get A' i k = (Get As i k * Get As (Suc k) (Suc k) - Get As i (Suc k) * Get As (Suc k) k) / det"
    and "Suc k < i \<Longrightarrow> i < n \<Longrightarrow>
         Get A' i (Suc k) = (Get As i (Suc k) * Get As k k - Get As i k * cj c (Get As (Suc k) k)) / det"
    and "Suc k < j \<Longrightarrow> j \<le> i \<Longrightarrow> i < n \<Longrightarrow>
         Get A' i j = Get As i j - (Get A' i k * cj c (Get As j k)
                                    + Get A' i (Suc k) * cj c (Get As j (Suc k)))"
proof -
  let ?D11 = "ViewRange As k k (k + 2) (k + 2)"
  let ?A21 = "ViewRange As (k + 2) k n (k + 2)"
  let ?A22 = "ViewRange As (k + 2) (k + 2) n n"
  from r obtain X where sol: "Symmetric2x2Solve ?D11 ?A21 c = Inr X"
    and A': "A' = Set (WriteView (WriteView As (k + 2) k X) (k + 2) (k + 2)
                         (Trr2 (- 1) X ?A21 ?A22 c)) (k + 1) k 0"
    and d': "dSub' = Set dSub k 0 (Get ?D11 1 0)"
    and p': "p' = p[k := k + from' pivot ! 0, k + 1 := k + from' pivot ! 1]"
    by (auto simp: UnblockedPivoted_2x2_def Let_def As_def split: sum.splits)
  note S = Symmetric2x2Solve_Inr [OF sol]
  have hw: "Height X = n - (k + 2)" "Width X = 2" using S(1,2) by simp_all
  from S(3) show "det \<noteq> 0" by (simp add: det_def)
  show "Get dSub' t 0 = (if t = k then Get As (Suc k) k else Get dSub t 0)"
    by (simp add: d')
  show "p' = p[k := k + from' pivot ! 0, Suc k := k + from' pivot ! 1]"
    by (simp add: p')
  show "s < k \<Longrightarrow> Get A' i s = Get As i s"
    by (simp add: A' hw)
  show "Get A' k k = Get As k k" "Get A' (Suc k) (Suc k) = Get As (Suc k) (Suc k)"
      "Get A' (Suc k) k = 0"
    by (simp_all add: A' hw)
  have X0: "Get X i' 0 = (Get As (k + 2 + i') k * Get As (Suc k) (Suc k)
                           - Get As (k + 2 + i') (Suc k) * Get As (Suc k) k) / det" for i'
    by (simp add: S(4) det_def)
  have X1: "Get X i' 1 = (Get As (k + 2 + i') (Suc k) * Get As k k
                           - Get As (k + 2 + i') k * cj c (Get As (Suc k) k)) / det" for i'
    by (simp add: S(4) det_def)
  have c0: "Get A' i k = Get X (i - (k + 2)) 0" if "Suc k < i" "i < n" for i
    using that hw unfolding A' Set_sel WriteView_sel Trr2_sel by auto
  have c1: "Get A' i (Suc k) = Get X (i - (k + 2)) 1" if "Suc k < i" "i < n" for i
    using that hw unfolding A' Set_sel WriteView_sel Trr2_sel by auto
  have restore: "k + 2 + (i - (k + 2)) = i" if "Suc k < i" for i using that by arith
  show "Suc k < i \<Longrightarrow> i < n \<Longrightarrow>
         Get A' i k = (Get As i k * Get As (Suc k) (Suc k) - Get As i (Suc k) * Get As (Suc k) k) / det"
    by (simp only: c0 X0 restore)
  show "Suc k < i \<Longrightarrow> i < n \<Longrightarrow>
         Get A' i (Suc k) = (Get As i (Suc k) * Get As k k - Get As i k * cj c (Get As (Suc k) k)) / det"
    by (simp only: c1 X1 restore)
  show "Suc k < j \<Longrightarrow> j \<le> i \<Longrightarrow> i < n \<Longrightarrow>
         Get A' i j = Get As i j - (Get A' i k * cj c (Get As j k)
                                    + Get A' i (Suc k) * cj c (Get As j (Suc k)))"
  proof -
    assume h: "Suc k < j" "j \<le> i" "i < n"
    then have e: "Suc (Suc (i - 2)) = i" "Suc (Suc (j - 2)) = j" by arith+
    have ki: "Suc k < i" using h by simp
    show ?thesis
      using hw h e unfolding c0 [OF ki h(3)] c1 [OF ki h(3)] A' Set_sel WriteView_sel Trr2_sel
        ViewRange_sel
      by auto
  qed
qed

lemma UnblockedPivoted_2x2_inv:
  assumes r: "UnblockedPivoted_2x2 c n k pivot (A, dSub, p) = Inr (A', dSub', p')"
    and inv: "unblockedInv c A0 n k A dSub p" and kn: "Suc k < n"
    and fr: "from' pivot ! 0 < n - k" "from' pivot ! 1 < n - k"
  shows "unblockedInv c A0 n (Suc (Suc k)) A' dSub' p'"
proof -
  define x where "x = k + from' pivot ! 0"
  define y where "y = k + from' pivot ! 1"
  define A1 where "A1 = SymmetricSwap A k x c"
  define As where "As = SymmetricSwap A1 (k + 1) y c"
  note R = UnblockedPivoted_2x2_Inr [OF r, folded x_def y_def, folded A1_def, folded As_def]
  from inv have len: "length p = n" and rng: "\<forall>t<k. p ! t < n"
    and f: "factored c n k (permuted c A0 p k) (Get A) (\<lambda>t. Get dSub t 0) (Get A)"
    by (simp_all add: unblockedInv_def)
  have x: "k \<le> x" "x < n" and y: "k \<le> y" "y < n" using fr by (simp_all add: x_def y_def)
  let ?B1 = "\<lambda>i j. permuted c A0 p k (swapIndex k x i) (swapIndex k x j)"
  let ?B2 = "\<lambda>i j. ?B1 (swapIndex (k + 1) y i) (swapIndex (k + 1) y j)"
  have f1: "factored c n k ?B1 (Get A1) (\<lambda>t. Get dSub t 0) (Get A1)"
    unfolding A1_def by (rule unblocked_swap [OF f _ _ x]) (use kn in simp_all)
  have fs: "factored c n k ?B2 (Get As) (\<lambda>t. Get dSub t 0) (Get As)"
    unfolding As_def by (rule unblocked_swap [OF f1 _ _ y]) (use kn in simp_all)
  have f2: "factored c n (Suc (Suc k)) ?B2 (Get A') (\<lambda>t. Get dSub' t 0) (Get A')"
  proof (rule factored_2x2 [OF fs kn R(1)])
    show "Get dSub' k 0 = Get As (Suc k) k" by (simp add: R(2))
    show "\<And>t. t \<noteq> k \<Longrightarrow> Get dSub' t 0 = Get dSub t 0" by (simp add: R(2))
  qed (simp_all add: R(4-10))
  have B: "permuted c A0 p' (Suc (Suc k)) = ?B2"
    using kn len by (intro ext) (simp add: R(3) permuted_swap2)
  show ?thesis
    unfolding unblockedInv_def B
    using f2 len rng x y kn by (auto simp: R(3) nth_list_update less_Suc_eq)
qed

lemma swapIndex_bij: "x < n \<Longrightarrow> y < n \<Longrightarrow> bij_betw (swapIndex x y) {..<n} {..<n}"
  by (rule bij_betw_byWitness [where f' = "swapIndex x y"]) (auto simp: swapIndex_less)

lemma pivotPerm_bij:
  "\<forall>t<k. p ! t < n \<Longrightarrow> k \<le> n \<Longrightarrow> bij_betw (pivotPerm p k) {..<n} {..<n}"
proof (induction k)
  case 0
  have "pivotPerm p 0 = id" by (rule ext) simp
  then show ?case by (simp only: bij_betw_id)
next
  case (Suc k)
  have e: "pivotPerm p (Suc k) = pivotPerm p k \<circ> swapIndex k (p ! k)" by (rule ext) simp
  have "bij_betw (swapIndex k (p ! k)) {..<n} {..<n}"
    using Suc.prems by (intro swapIndex_bij) simp_all
  moreover have "bij_betw (pivotPerm p k) {..<n} {..<n}"
    using Suc by simp
  ultimately show ?case unfolding e by (rule bij_betw_trans)
qed

lemma factored_start:
  assumes "c \<longrightarrow> (\<forall>i<n. Im (Get A i i) = 0)" and "\<And>t. d t = 0"
  shows "factored c n 0 (permuted c A p 0) (Get A) d (Get A)"
  unfolding factored_def
proof (intro conjI allI impI)
  fix i j assume "i < n \<and> j < n"
  then show "permuted c A p 0 j i = cj c (permuted c A p 0 i j)"
    using assms(1) by (cases i j rule: linorder_cases) (auto simp: permuted_def symGet_def cj_real)
qed (use assms in \<open>auto simp: permuted_def symGet_def\<close>)

lemma inv_factorizes:
  assumes inv: "unblockedInv c A n n A' dSub' p'" and h: "Height A = n"
  shows "factorizes c A A' dSub' p'"
proof -
  from inv have len: "length p' = n" and rng: "\<forall>t<n. p' ! t < n"
    and f: "factored c n n (permuted c A p' n) (Get A') (\<lambda>t. Get dSub' t 0) (Get A')"
    by (simp_all add: unblockedInv_def)
  note d0 = factoredD(3) [OF f] and bl = factoredD(4) [OF f]
  have id: "permuted c A p' n i j
      = (\<Sum>s<n. \<Sum>t<n. factorL A' i s * factorD c A' dSub' s t * cj c (factorL A' j t))"
    if "i < n" "j < n" for i j
    using factored_final [OF f that] by (simp add: LDLt_def factorL_def factorD_def)
  have blk: "Suc t < n \<and> Get dSub' (Suc t) 0 = 0 \<and> Get A' (Suc t) t = 0" if "Get dSub' t 0 \<noteq> 0" for t
    using that d0 [of t] bl [of t] by (cases "Suc t < n") auto
  show ?thesis
    unfolding factorizes_def Let_def h
    using len rng pivotPerm_bij [OF rng] id blk by auto
qed

text \<open>The searches of Bunch and Parlett report positions inside the matrix.\<close>

lemma foldl_max_range:
  assumes "\<forall>(i, j) \<in> set xs. j < i \<and> i < h"
    and "0 \<le> pval r0" and "pval r0 \<noteq> 0 \<longrightarrow> (\<exists>i j. indices r0 = [i, j] \<and> j < i \<and> i < h)"
  shows "0 \<le> pval (foldl (\<lambda>pivot (i, j).
              if cmod (Get A i j) > pval pivot
              then \<lparr>pval = cmod (Get A i j), indices = [i, j]\<rparr> else pivot) r0 xs)
     \<and> (pval (foldl (\<lambda>pivot (i, j).
              if cmod (Get A i j) > pval pivot
              then \<lparr>pval = cmod (Get A i j), indices = [i, j]\<rparr> else pivot) r0 xs) \<noteq> 0 \<longrightarrow>
         (\<exists>i j. indices (foldl (\<lambda>pivot (i, j).
              if cmod (Get A i j) > pval pivot
              then \<lparr>pval = cmod (Get A i j), indices = [i, j]\<rparr> else pivot) r0 xs) = [i, j]
            \<and> j < i \<and> i < h))"
  using assms
proof (induction xs arbitrary: r0)
  case Nil
  then show ?case by simp
next
  case (Cons x xs)
  obtain i j where x: "x = (i, j)" by (cases x)
  show ?case
    unfolding foldl_Cons
  proof (rule Cons.IH)
    show "\<forall>(i, j)\<in>set xs. j < i \<and> i < h" using Cons.prems(1) by simp
    show "0 \<le> pval ((\<lambda>pivot (i, j).
              if cmod (Get A i j) > pval pivot
              then \<lparr>pval = cmod (Get A i j), indices = [i, j]\<rparr> else pivot) r0 x)"
      using Cons.prems(2) by (simp add: x)
    show "pval ((\<lambda>pivot (i, j).
              if cmod (Get A i j) > pval pivot
              then \<lparr>pval = cmod (Get A i j), indices = [i, j]\<rparr> else pivot) r0 x) \<noteq> 0 \<longrightarrow>
       (\<exists>i j. indices ((\<lambda>pivot (i, j).
              if cmod (Get A i j) > pval pivot
              then \<lparr>pval = cmod (Get A i j), indices = [i, j]\<rparr> else pivot) r0 x) = [i, j]
            \<and> j < i \<and> i < h)"
      using Cons.prems by (auto simp: x)
  qed
qed

lemma SymmetricMax_range:
  assumes "pval (SymmetricMax A) \<noteq> 0"
  shows "\<exists>i j. indices (SymmetricMax A) = [i, j] \<and> j < i \<and> i < Height A"
proof -
  have "\<forall>(i, j) \<in> set (concat (map (\<lambda>j. map (\<lambda>i. (i, j)) [j + 1..<Height A]) [0..<Height A])).
          j < i \<and> i < Height A"
    by auto
  from foldl_max_range [OF this, of "\<lparr>pval = 0, indices = [0, 0]\<rparr>" A] assms
  show ?thesis by (simp add: SymmetricMax_def)
qed

lemma SymmetricMax_nonneg: "0 \<le> pval (SymmetricMax A)"
proof -
  have "\<forall>(i, j) \<in> set (concat (map (\<lambda>j. map (\<lambda>i. (i, j)) [j + 1..<Height A]) [0..<Height A])).
          j < i \<and> i < Height A"
    by auto
  from foldl_max_range [OF this, of "\<lparr>pval = 0, indices = [0, 0]\<rparr>" A]
  show ?thesis by (simp add: SymmetricMax_def)
qed

lemma BunchParlett_range:
  assumes h: "0 < Height A" "Width A = Height A"
  shows "(nb (BunchParlett A g) = 1 \<and> from' (BunchParlett A g) ! 0 < Height A)
       \<or> (nb (BunchParlett A g) = 2 \<and> 1 < Height A \<and> from' (BunchParlett A g) ! 0 < Height A
           \<and> from' (BunchParlett A g) ! 1 < Height A)"
proof -
  define gamma where "gamma = (if g = 0 then (1 + sqrt 17) / 8 else g)"
  show ?thesis
  proof (cases "val (DiagonalMax A) \<ge> gamma * pval (SymmetricMax A)")
    case True
    have "index (DiagonalMax A) < Height A"
      using MaxLoop_index [of "Height A" "\<lambda>i. Get A i i"] h by (simp add: DiagonalMax_def)
    with True show ?thesis by (simp add: BunchParlett_def Let_def gamma_def)
  next
    case False
    have "pval (SymmetricMax A) \<noteq> 0"
    proof
      assume "pval (SymmetricMax A) = 0"
      with False MaxLoop_nonneg [of "\<lambda>i. Get A i i" "min (Height A) (Width A)"] show False
        by (simp add: DiagonalMax_def)
    qed
    from SymmetricMax_range [OF this] obtain i j where
      "indices (SymmetricMax A) = [i, j]" "j < i" "i < Height A" by auto
    with False show ?thesis by (simp add: BunchParlett_def Let_def gamma_def)
  qed
qed

lemma UnblockedPivoted_loop_1x1:
  "k < n \<Longrightarrow> t \<noteq> BUNCH_KAUFMAN_C \<Longrightarrow> ChoosePivot (ViewRange A k k n n) t g = Inr pivot \<Longrightarrow>
   nb pivot = 1 \<Longrightarrow>
   UnblockedPivoted_loop c t g n (A, dSub, p) k =
     (case UnblockedPivoted_1x1 c n k pivot (A, dSub, p) of
        Inl e \<Rightarrow> Inl e
      | Inr st' \<Rightarrow> UnblockedPivoted_loop c t g n st' (k + 1))"
  by (subst UnblockedPivoted_loop.simps) simp

lemma UnblockedPivoted_loop_2x2:
  "k < n \<Longrightarrow> t \<noteq> BUNCH_KAUFMAN_C \<Longrightarrow> ChoosePivot (ViewRange A k k n n) t g = Inr pivot \<Longrightarrow>
   nb pivot \<noteq> 1 \<Longrightarrow>
   UnblockedPivoted_loop c t g n (A, dSub, p) k =
     (case UnblockedPivoted_2x2 c n k pivot (A, dSub, p) of
        Inl e \<Rightarrow> Inl e
      | Inr st' \<Rightarrow> UnblockedPivoted_loop c t g n st' (k + 2))"
  by (subst UnblockedPivoted_loop.simps) simp

lemma UnblockedPivoted_loop_inv:
  assumes res: "UnblockedPivoted_loop c t g n (A, dSub, p) k = Inr (A', dSub', p')"
    and inv: "unblockedInv c A0 n k A dSub p" and kn: "k \<le> n"
    and rng: "\<And>A k pivot. k < n \<Longrightarrow> ChoosePivot (ViewRange A k k n n) t g = Inr pivot \<Longrightarrow>
        (nb pivot = 1 \<and> from' pivot ! 0 < n - k)
        \<or> (nb pivot \<noteq> 1 \<and> Suc k < n \<and> from' pivot ! 0 < n - k \<and> from' pivot ! 1 < n - k)"
  shows "unblockedInv c A0 n n A' dSub' p'"
  using res inv kn
proof (induction "n - k" arbitrary: A dSub p k rule: less_induct)
  case less
  show ?case
  proof (cases "k < n")
    case False
    with less.prems show ?thesis by (simp add: UnblockedPivoted_loop.simps)
  next
    case True
    note k = True
    from less.prems(1) k have nc: "t \<noteq> BUNCH_KAUFMAN_C"
      by (auto simp: UnblockedPivoted_loop.simps)
    from less.prems(1) k nc obtain pivot where
      pv: "ChoosePivot (ViewRange A k k n n) t g = Inr pivot"
      by (cases "ChoosePivot (ViewRange A k k n n) t g") (auto simp: UnblockedPivoted_loop.simps)
    from rng [OF k pv] show ?thesis
    proof (elim disjE conjE)
      assume n1: "nb pivot = 1" and fr: "from' pivot ! 0 < n - k"
      from less.prems(1) obtain A1 dSub1 p1 where
        s1: "UnblockedPivoted_1x1 c n k pivot (A, dSub, p) = Inr (A1, dSub1, p1)"
        and r: "UnblockedPivoted_loop c t g n (A1, dSub1, p1) (k + 1) = Inr (A', dSub', p')"
        unfolding UnblockedPivoted_loop_1x1 [OF k nc pv n1] by (auto split: sum.splits)
      have "unblockedInv c A0 n (Suc k) A1 dSub1 p1"
        by (rule UnblockedPivoted_1x1_inv [OF s1 less.prems(2) k fr])
      then show ?thesis
        using r k by (intro less.hyps [of "k + 1" A1 dSub1 p1]) simp_all
    next
      assume n2: "nb pivot \<noteq> 1" and k2: "Suc k < n"
        and fr: "from' pivot ! 0 < n - k" "from' pivot ! 1 < n - k"
      from less.prems(1) obtain A1 dSub1 p1 where
        s1: "UnblockedPivoted_2x2 c n k pivot (A, dSub, p) = Inr (A1, dSub1, p1)"
        and r: "UnblockedPivoted_loop c t g n (A1, dSub1, p1) (k + 2) = Inr (A', dSub', p')"
        unfolding UnblockedPivoted_loop_2x2 [OF k nc pv n2] by (auto split: sum.splits)
      have "unblockedInv c A0 n (Suc (Suc k)) A1 dSub1 p1"
        by (rule UnblockedPivoted_2x2_inv [OF s1 less.prems(2) k2 fr])
      then show ?thesis
        using r k2 by (intro less.hyps [of "k + 2" A1 dSub1 p1]) simp_all
    qed
  qed
qed

lemma unblockedInv_start:
  assumes "c \<longrightarrow> (\<forall>i<n. Im (Get A i i) = 0)"
  shows "unblockedInv c A n 0 A (Zeros m 1) (replicate n 0)"
  unfolding unblockedInv_def
  using factored_start [OF assms, of "\<lambda>t. Get (Zeros m 1) t 0" "replicate n 0"] by simp

lemma factorizes_empty: "Height A = 0 \<Longrightarrow> factorizes c A A' (Zeros m w) []"
  by (simp add: factorizes_def bij_betw_def)

lemma UnblockedPivoted_factorizes:
  assumes res: "UnblockedPivoted A c BUNCH_PARLETT g = Inr (A', dSub', p')"
    and re: "c \<longrightarrow> (\<forall>i<Height A. Im (Get A i i) = 0)"
  shows "factorizes c A A' dSub' p'"
proof (cases "Height A = 0")
  case True
  with res show ?thesis by (auto simp: UnblockedPivoted_def factorizes_empty split: if_splits)
next
  case False
  define n where "n = Height A"
  from res False have r: "UnblockedPivoted_loop c BUNCH_PARLETT g n
      (A, Zeros (n - 1) 1, replicate n 0) 0 = Inr (A', dSub', p')"
    by (auto simp: UnblockedPivoted_def Let_def n_def split: if_splits)
  have "unblockedInv c A n n A' dSub' p'"
  proof (rule UnblockedPivoted_loop_inv [OF r])
    show "unblockedInv c A n 0 A (Zeros (n - 1) 1) (replicate n 0)"
      by (rule unblockedInv_start) (use re in \<open>simp add: n_def\<close>)
  next
    fix M k pivot assume k: "k < n" and "ChoosePivot (ViewRange M k k n n) BUNCH_PARLETT g = Inr pivot"
    then have pv: "pivot = BunchParlett (ViewRange M k k n n) g" by (simp add: ChoosePivot_def)
    from BunchParlett_range [of "ViewRange M k k n n" g] k
    show "(nb pivot = 1 \<and> from' pivot ! 0 < n - k)
        \<or> (nb pivot \<noteq> 1 \<and> Suc k < n \<and> from' pivot ! 0 < n - k \<and> from' pivot ! 1 < n - k)"
      unfolding pv by auto
  qed simp
  then show ?thesis by (rule inv_factorizes) (simp add: n_def)
qed

section \<open>The panel and the drivers keep the invariant\<close>

lemma swapIndex_shift:
  "off \<le> i \<Longrightarrow> swapIndex x y (i - off) = swapIndex (off + x) (off + y) i - off"
  by (auto simp: swapIndex_def)

lemma panel_swap:
  assumes f: "factored c n (off + k) B (Get A) d (panelS A X Y off k)"
    and W: "\<forall>i j. k \<le> i \<and> i < n - off \<and> k \<le> j \<and> j < n - off \<longrightarrow>
           (\<Sum>t<k. Get X j t * Get Y i t) = cj c (\<Sum>t<k. Get X i t * Get Y j t)"
    and x: "k \<le> x" "x < n - off" and y: "k \<le> y" "y < n - off"
  shows "factored c n (off + k)
           (\<lambda>i j. B (swapIndex (off + x) (off + y) i) (swapIndex (off + x) (off + y) j))
           (Get (SymmetricSwap A (off + x) (off + y) c)) d
           (panelS (SymmetricSwap A (off + x) (off + y) c) (RowSwap X x y) (RowSwap Y x y) off k)"
    and "\<forall>i j. k \<le> i \<and> i < n - off \<and> k \<le> j \<and> j < n - off \<longrightarrow>
           (\<Sum>t<k. Get (RowSwap X x y) j t * Get (RowSwap Y x y) i t)
           = cj c (\<Sum>t<k. Get (RowSwap X x y) i t * Get (RowSwap Y x y) j t)"
proof -
  let ?T = "swapIndex (off + x) (off + y)"
  have X: "off + k \<le> off + x" "off + x < n" and Y: "off + k \<le> off + y" "off + y < n"
    using x y by simp_all
  show "factored c n (off + k) (\<lambda>i j. B (?T i) (?T j))
           (Get (SymmetricSwap A (off + x) (off + y) c)) d
           (panelS (SymmetricSwap A (off + x) (off + y) c) (RowSwap X x y) (RowSwap Y x y) off k)"
  proof (rule factored_swap [OF f X Y])
    fix i s assume s: "s < off + k" "s \<le> i" "i < n"
    have ts: "?T s = s" using s x y by (simp add: swapIndex_fix)
    have "s \<le> ?T i"
    proof (cases "i < off + k")
      case True then show ?thesis using s x y by (simp add: swapIndex_fix)
    next
      case False
      then have "off + k \<le> ?T i" using x y by (simp add: swapIndex_ge)
      with s show ?thesis by simp
    qed
    then show "Get (SymmetricSwap A (off + x) (off + y) c) i s = Get A (?T i) s"
      using s by (simp add: ts symGet_def)
  next
    fix i j assume ij: "off + k \<le> j" "j \<le> i" "i < n"
    then have ki: "off + k \<le> i" and jn: "j < n" by simp_all
    have gi: "off + k \<le> ?T i" "?T i < n" and gj: "off + k \<le> ?T j" "?T j < n"
      using ij ki jn X Y by (simp_all add: swapIndex_ge swapIndex_less)
    have si: "swapIndex x y (i - off) = ?T i - off" and sj: "swapIndex x y (j - off) = ?T j - off"
      using ij ki by (simp_all add: swapIndex_shift)
    show "panelS (SymmetricSwap A (off + x) (off + y) c) (RowSwap X x y) (RowSwap Y x y) off k i j =
        (if ?T j \<le> ?T i then panelS A X Y off k (?T i) (?T j)
         else cj c (panelS A X Y off k (?T j) (?T i)))"
    proof (cases "?T j \<le> ?T i")
      case True
      then show ?thesis using ij by (simp add: panelS_def si sj symGet_def)
    next
      case False
      have "(\<Sum>t<k. Get X (?T i - off) t * Get Y (?T j - off) t)
          = cj c (\<Sum>t<k. Get X (?T j - off) t * Get Y (?T i - off) t)"
        using gi gj by (intro W [rule_format]) auto
      then show ?thesis using ij False by (simp add: panelS_def si sj symGet_def)
    qed
  qed
  show "\<forall>i j. k \<le> i \<and> i < n - off \<and> k \<le> j \<and> j < n - off \<longrightarrow>
           (\<Sum>t<k. Get (RowSwap X x y) j t * Get (RowSwap Y x y) i t)
           = cj c (\<Sum>t<k. Get (RowSwap X x y) i t * Get (RowSwap Y x y) j t)"
  proof (intro allI impI)
    fix i j assume "k \<le> i \<and> i < n - off \<and> k \<le> j \<and> j < n - off"
    then have "k \<le> swapIndex x y i \<and> swapIndex x y i < n - off
        \<and> k \<le> swapIndex x y j \<and> swapIndex x y j < n - off"
      using x y by (simp add: swapIndex_ge swapIndex_less)
    from W [rule_format, OF this]
    show "(\<Sum>t<k. Get (RowSwap X x y) j t * Get (RowSwap Y x y) i t)
           = cj c (\<Sum>t<k. Get (RowSwap X x y) i t * Get (RowSwap Y x y) j t)"
      by simp
  qed
qed

lemma PanelPivoted_1x1_Inr:
  assumes r: "PanelPivoted_1x1 c n off k (A, X, Y) = Inr (A', X', Y')"
    and re: "c \<longrightarrow> Im (panelS A X Y off k (off + k) (off + k)) = 0"
    and kn: "off + k < n"
  shows "panelS A X Y off k (off + k) (off + k) \<noteq> 0"
    and "j \<noteq> off + k \<Longrightarrow> Get A' i j = Get A i j"
    and "Get A' (off + k) (off + k) = panelS A X Y off k (off + k) (off + k)"
    and "off + k < i \<Longrightarrow> i < n \<Longrightarrow>
         Get A' i (off + k) = panelS A X Y off k i (off + k) / panelS A X Y off k (off + k) (off + k)"
    and "t \<noteq> k \<Longrightarrow> Get X' i' t = Get X i' t" "t \<noteq> k \<Longrightarrow> Get Y' i' t = Get Y i' t"
    and "k < i' \<Longrightarrow> i' < n - off \<Longrightarrow>
         Get X' i' k = panelS A X Y off k (off + i') (off + k) / panelS A X Y off k (off + k) (off + k)"
    and "k < i' \<Longrightarrow> i' < n - off \<Longrightarrow> Get Y' i' k = cj c (panelS A X Y off k (off + i') (off + k))"
proof -
  define K where "K = off + k"
  define S where "S = panelS A X Y off k"
  define aB1 where "aB1 = Gemv (- 1) (LockedViewRange X k 0 (n - off) k)
      (LockedViewRange Y k 0 (k + 1) k) 1 (ViewRange A (off + k) (off + k) n (off + k + 1))"
  define aB1' where "aB1' = (if c then MakeReal aB1 0 0 else aB1)"
  define A1 where "A1 = WriteView A (off + k) (off + k) aB1'"
  have col: "Get aB1 i 0 = S (K + i) K" for i
  proof -
    have "(\<Sum>t<k. Get X (k + i) t * vecGet (LockedViewRange Y k 0 (k + 1) k) t)
        = (\<Sum>t<k. Get X (k + i) t * Get Y k t)"
      by (rule sum.cong) (use vecGet_rowview [of _ k 0 Y k] in auto)
    then show ?thesis by (simp add: aB1_def Gemv_sel panelS_def add.assoc S_def K_def)
  qed
  have dims: "Height aB1' = n - K" "Width aB1' = 1"
    by (simp_all add: aB1'_def aB1_def Gemv_sel K_def)
  have reK: "c \<Longrightarrow> Im (S K K) = 0" using re by (simp add: S_def K_def)
  have col': "Get aB1' i 0 = S (K + i) K" for i
    using reK by (cases "i = 0") (auto simp: aB1'_def col complex_eq_iff)
  have A1: "Get A1 i j = (if K \<le> i \<and> i < n \<and> j = K then S i K else Get A i j)" for i j
  proof (cases "K \<le> i \<and> i < n \<and> j = K")
    case True
    then have "Get A1 i j = Get aB1' (i - K) 0"
      unfolding A1_def K_def [symmetric] WriteView_sel dims by auto
    also have "\<dots> = S i K" using True by (simp add: col')
    finally show ?thesis using True by simp
  next
    case False
    then show ?thesis unfolding A1_def K_def [symmetric] WriteView_sel dims by auto
  qed
  have kn': "K < n" using kn by (simp add: K_def)
  have A1kk: "Get A1 K K = S K K" using kn' by (simp add: A1)
  define a21 where "a21 = ViewRange A1 (K + 1) K n (K + 1)"
  define y21 where "y21 = (if c then Conjugate a21 else a21)"
  define x21 where "x21 = Scale (1 / Get A1 K K) a21"
  have unf: "PanelPivoted_1x1 c n off k (A, X, Y) =
      (if Get A1 K K = 0 then Inl DivisionByZero
       else Inr (WriteView A1 (K + 1) K x21, WriteView X (k + 1) k x21, WriteView Y (k + 1) k y21))"
    unfolding PanelPivoted_1x1_def Let_def x21_def y21_def a21_def A1_def aB1'_def aB1_def K_def
    by (simp only: prod.case)
  from r have nz': "Get A1 K K \<noteq> 0" and res: "A' = WriteView A1 (K + 1) K x21"
    "X' = WriteView X (k + 1) k x21" "Y' = WriteView Y (k + 1) k y21"
    unfolding unf by (auto split: if_splits)
  from nz' have nz: "S K K \<noteq> 0" by (simp add: A1kk)
  have a21: "Get a21 i 0 = S (K + 1 + i) K" if "K + 1 + i < n" for i
    using that by (simp add: a21_def A1)
  have x21: "Get x21 i 0 = S (K + 1 + i) K / S K K" if "K + 1 + i < n" for i
    using a21 [OF that] by (simp add: x21_def A1kk)
  have y21: "Get y21 i 0 = cj c (S (K + 1 + i) K)" if "K + 1 + i < n" for i
    using a21 [OF that] by (simp add: y21_def cj_def)
  have d21: "Height x21 = n - (K + 1)" "Width x21 = 1" "Height y21 = n - (K + 1)" "Width y21 = 1"
    by (simp_all add: x21_def y21_def a21_def)
  have g1: "j \<noteq> K \<Longrightarrow> Get A' i j = Get A i j" for i j
    unfolding res WriteView_sel d21 by (auto simp: A1)
  have g2: "Get A' K K = S K K"
    unfolding res WriteView_sel d21 using A1kk by simp
  have g3: "Get A' i K = S i K / S K K" if "K < i" "i < n" for i
  proof -
    have "Get A' i K = Get x21 (i - (K + 1)) 0"
      unfolding res WriteView_sel d21 using that by auto
    also have "\<dots> = S i K / S K K"
      using x21 [of "i - (K + 1)"] that by simp
    finally show ?thesis .
  qed
  have g4: "t \<noteq> k \<Longrightarrow> Get X' i' t = Get X i' t" for t i'
    unfolding res WriteView_sel d21 by auto
  have g5: "t \<noteq> k \<Longrightarrow> Get Y' i' t = Get Y i' t" for t i'
    unfolding res WriteView_sel d21 by auto
  have e: "K + 1 + (i' - (k + 1)) = off + i'" if "k < i'" for i'
    using that by (simp add: K_def)
  have g6: "Get X' i' k = S (off + i') K / S K K" if "k < i'" "i' < n - off" for i'
  proof -
    have "Get X' i' k = Get x21 (i' - (k + 1)) 0"
      unfolding res WriteView_sel d21 using that kn by (auto simp: K_def)
    also have "\<dots> = S (off + i') K / S K K"
      using x21 [of "i' - (k + 1)"] that unfolding e [OF that(1)] by simp
    finally show ?thesis .
  qed
  have g7: "Get Y' i' k = cj c (S (off + i') K)" if "k < i'" "i' < n - off" for i'
  proof -
    have "Get Y' i' k = Get y21 (i' - (k + 1)) 0"
      unfolding res WriteView_sel d21 using that kn by (auto simp: K_def)
    also have "\<dots> = cj c (S (off + i') K)"
      using y21 [of "i' - (k + 1)"] that unfolding e [OF that(1)] by simp
    finally show ?thesis .
  qed
  from nz show "panelS A X Y off k (off + k) (off + k) \<noteq> 0" by (simp add: S_def K_def)
  from g1 show "j \<noteq> off + k \<Longrightarrow> Get A' i j = Get A i j" by (simp add: K_def)
  from g2 show "Get A' (off + k) (off + k) = panelS A X Y off k (off + k) (off + k)"
    by (simp add: S_def K_def)
  from g3 show "off + k < i \<Longrightarrow> i < n \<Longrightarrow>
         Get A' i (off + k) = panelS A X Y off k i (off + k) / panelS A X Y off k (off + k) (off + k)"
    by (simp add: S_def K_def)
  from g4 show "t \<noteq> k \<Longrightarrow> Get X' i' t = Get X i' t" by simp
  from g5 show "t \<noteq> k \<Longrightarrow> Get Y' i' t = Get Y i' t" by simp
  from g6 show "k < i' \<Longrightarrow> i' < n - off \<Longrightarrow>
         Get X' i' k = panelS A X Y off k (off + i') (off + k) / panelS A X Y off k (off + k) (off + k)"
    by (simp add: S_def K_def)
  from g7 show "k < i' \<Longrightarrow> i' < n - off \<Longrightarrow> Get Y' i' k = cj c (panelS A X Y off k (off + i') (off + k))"
    by (simp add: S_def K_def)
qed

lemma panelInvD:
  assumes "panelInv c A0 n off k A dSub p X Y"
  shows "length p = n" and "\<forall>t<off + k. p ! t < n"
    and "factored c n (off + k) (permuted c A0 p (off + k)) (Get A) (\<lambda>t. Get dSub t 0)
         (panelS A X Y off k)"
    and "\<forall>i j. k \<le> i \<and> i < n - off \<and> k \<le> j \<and> j < n - off \<longrightarrow>
           (\<Sum>t<k. Get X j t * Get Y i t) = cj c (\<Sum>t<k. Get X i t * Get Y j t)"
proof -
  note a = assms [unfolded panelInv_def]
  show "length p = n" by (rule conjunct1 [OF a])
  show "\<forall>t<off + k. p ! t < n" by (rule conjunct1 [OF conjunct2 [OF a]])
  show "factored c n (off + k) (permuted c A0 p (off + k)) (Get A) (\<lambda>t. Get dSub t 0)
         (panelS A X Y off k)"
    by (rule conjunct1 [OF conjunct2 [OF conjunct2 [OF a]]])
  show "\<forall>i j. k \<le> i \<and> i < n - off \<and> k \<le> j \<and> j < n - off \<longrightarrow>
           (\<Sum>t<k. Get X j t * Get Y i t) = cj c (\<Sum>t<k. Get X i t * Get Y j t)"
    by (rule conjunct2 [OF conjunct2 [OF conjunct2 [OF a]]])
qed

lemma PanelPivoted_1x1_inv:
  assumes r: "PanelPivoted_1x1 c n off k
        (SymmetricSwap A (off + k) (off + f) c, RowSwap X k f, RowSwap Y k f) = Inr (A1, X1, Y1)"
    and inv: "panelInv c A0 n off k A dSub p X Y"
    and kn: "off + k < n" and fr: "k \<le> f" "f < n - off"
  shows "panelInv c A0 n off (Suc k) A1 dSub (p[off + k := off + f]) X1 Y1"
proof -
  define K where "K = off + k"
  define As where "As = SymmetricSwap A (off + k) (off + f) c"
  define Xs where "Xs = RowSwap X k f"
  define Ys where "Ys = RowSwap Y k f"
  define S where "S = panelS As Xs Ys off k"
  define B where "B = (\<lambda>i j. permuted c A0 p (off + k) (swapIndex (off + k) (off + f) i)
      (swapIndex (off + k) (off + f) j))"
  note len = panelInvD(1) [OF inv] and rng = panelInvD(2) [OF inv] and f = panelInvD(3) [OF inv]
    and W = panelInvD(4) [OF inv]
  have kk: "k \<le> k" "k < n - off" using kn by simp_all
  note sw = panel_swap [OF f W kk fr, folded As_def Xs_def Ys_def, folded S_def B_def]
  have fs: "factored c n K B (Get As) (\<lambda>t. Get dSub t 0) S"
    using sw(1) by (simp add: K_def)
  have Ws: "(\<Sum>t<k. Get Xs j t * Get Ys i t) = cj c (\<Sum>t<k. Get Xs i t * Get Ys j t)"
    if "k \<le> i" "i < n - off" "k \<le> j" "j < n - off" for i j
    by (rule sw(2) [rule_format]) (use that in simp)
  have kn': "K < n" using kn by (simp add: K_def)
  have re: "c \<Longrightarrow> Im (S K K) = 0" using factoredD(6) [OF fs, of K] kn' by simp
  have rp: "cj c (S K K) = S K K" by (rule cj_real) (rule re)
  have re': "c \<longrightarrow> Im (panelS As Xs Ys off k (off + k) (off + k)) = 0"
    using re by (simp add: S_def K_def)
  note R = PanelPivoted_1x1_Inr [OF r [folded As_def Xs_def Ys_def] re' kn, folded S_def,
      folded K_def]
  have Snew: "panelS A1 X1 Y1 off (Suc k) i j = S i j - S i K * cj c (S j K) / S K K"
    if "K < j" "j \<le> i" "i < n" for i j
  proof -
    have i: "k < i - off" "i - off < n - off" "off + (i - off) = i"
      and j: "k < j - off" "j - off < n - off" "off + (j - off) = j"
      using that by (auto simp: K_def)
    have K: "j \<noteq> K" using that by simp
    have "(\<Sum>t<k. Get X1 (i - off) t * Get Y1 (j - off) t)
        = (\<Sum>t<k. Get Xs (i - off) t * Get Ys (j - off) t)"
      by (rule sum.cong) (simp_all add: R(5,6))
    then show ?thesis
      by (simp add: panelS_def R(2) [OF K] R(7) [OF i(1,2)] R(8) [OF j(1,2)] i(3) j(3) S_def)
  qed
  have f1: "factored c n (Suc K) B (Get A1) (\<lambda>t. Get dSub t 0) (panelS A1 X1 Y1 off (Suc k))"
  proof (rule factored_1x1 [OF fs kn' R(1)])
    show "\<And>i s. s < K \<Longrightarrow> s \<le> i \<Longrightarrow> i < n \<Longrightarrow> Get A1 i s = Get As i s"
      by (simp add: R(2))
  qed (simp_all add: R(3,4) Snew)
  have W1: "(\<Sum>t<Suc k. Get X1 j t * Get Y1 i t) = cj c (\<Sum>t<Suc k. Get X1 i t * Get Y1 j t)"
    if "Suc k \<le> i \<and> i < n - off \<and> Suc k \<le> j \<and> j < n - off" for i j
  proof -
    from that have i: "k < i" "i < n - off" and j: "k < j" "j < n - off" by simp_all
    have a: "(\<Sum>t<k. Get X1 j t * Get Y1 i t) = (\<Sum>t<k. Get Xs j t * Get Ys i t)"
      by (rule sum.cong) (simp_all add: R(5,6))
    have b: "(\<Sum>t<k. Get X1 i t * Get Y1 j t) = (\<Sum>t<k. Get Xs i t * Get Ys j t)"
      by (rule sum.cong) (simp_all add: R(5,6))
    have w: "(\<Sum>t<k. Get Xs j t * Get Ys i t) = cj c (\<Sum>t<k. Get Xs i t * Get Ys j t)"
      using i j by (intro Ws) simp_all
    show ?thesis
      by (simp add: a b w R(7) [OF i] R(7) [OF j] R(8) [OF i] R(8) [OF j] rp)
  qed
  have Bp: "permuted c A0 (p[off + k := off + f]) (Suc K) = B"
    using kn len by (intro ext) (simp add: K_def B_def permuted_swap)
  have rng': "\<forall>t<off + Suc k. (p[off + k := off + f]) ! t < n"
    using rng fr len kn by (auto simp: nth_list_update less_Suc_eq)
  show ?thesis
    unfolding panelInv_def
  proof (intro conjI)
    show "length (p[off + k := off + f]) = n" using len by simp
    show "\<forall>t<off + Suc k. p[off + k := off + f] ! t < n" by (rule rng')
    show "factored c n (off + Suc k) (permuted c A0 (p[off + k := off + f]) (off + Suc k)) (Get A1)
        (\<lambda>t. Get dSub t 0) (panelS A1 X1 Y1 off (Suc k))"
      using f1 Bp by (simp add: K_def)
    show "\<forall>i j. Suc k \<le> i \<and> i < n - off \<and> Suc k \<le> j \<and> j < n - off \<longrightarrow>
        (\<Sum>t<Suc k. Get X1 j t * Get Y1 i t) = cj c (\<Sum>t<Suc k. Get X1 i t * Get Y1 j t)"
      by (intro allI impI) (rule W1)
  qed
qed

lemma PanelPivoted_2x2_Inr:
  fixes K :: nat
  assumes r: "PanelPivoted_2x2 c n off k (A, dSub, X, Y) = Inr (A', dSub', X', Y')"
    and K: "K = off + k" and S: "S = panelS A X Y off k"
    and det: "det = S K K * S (Suc K) (Suc K) - S (Suc K) K * cj c (S (Suc K) K)"
    and re: "c \<longrightarrow> Im (S K K) = 0 \<and> Im (S (Suc K) (Suc K)) = 0"
    and kn: "Suc K < n"
  shows "det \<noteq> 0"
    and "Get dSub' t 0 = (if t = K then S (Suc K) K else Get dSub t 0)"
    and "j \<noteq> K \<Longrightarrow> j \<noteq> Suc K \<Longrightarrow> Get A' i j = Get A i j"
    and "Get A' K K = S K K" "Get A' (Suc K) (Suc K) = S (Suc K) (Suc K)" "Get A' (Suc K) K = 0"
    and "Suc K < i \<Longrightarrow> i < n \<Longrightarrow>
         Get A' i K = (S i K * S (Suc K) (Suc K) - S i (Suc K) * S (Suc K) K) / det"
    and "Suc K < i \<Longrightarrow> i < n \<Longrightarrow>
         Get A' i (Suc K) = (S i (Suc K) * S K K - S i K * cj c (S (Suc K) K)) / det"
    and "t \<noteq> k \<Longrightarrow> t \<noteq> Suc k \<Longrightarrow> Get X' i' t = Get X i' t"
    and "t \<noteq> k \<Longrightarrow> t \<noteq> Suc k \<Longrightarrow> Get Y' i' t = Get Y i' t"
    and "Suc k < i' \<Longrightarrow> i' < n - off \<Longrightarrow> Get X' i' k = Get A' (off + i') K"
    and "Suc k < i' \<Longrightarrow> i' < n - off \<Longrightarrow> Get X' i' (Suc k) = Get A' (off + i') (Suc K)"
    and "Suc k < i' \<Longrightarrow> i' < n - off \<Longrightarrow> Get Y' i' k = cj c (S (off + i') K)"
    and "Suc k < i' \<Longrightarrow> i' < n - off \<Longrightarrow> Get Y' i' (Suc k) = cj c (S (off + i') (Suc K))"
proof -
  define AB0 where "AB0 = ViewRange A (off + k) (off + k) n (off + k + 2)"
  define AB1 where "AB1 = Set (Gemm (- 1) (LockedViewRange X k 0 (n - off) k)
      (LockedViewRange Y k 0 (k + 2) k) 1 AB0) 0 1 (Get AB0 0 1)"
  define AB1' where "AB1' = (if c then MakeReal (MakeReal AB1 0 0) 1 1 else AB1)"
  define A1 where "A1 = WriteView A (off + k) (off + k) AB1'"
  define D11 where "D11 = ViewRange A1 (off + k) (off + k) (off + k + 2) (off + k + 2)"
  define A21 where "A21 = ViewRange A1 (off + k + 2) (off + k) n (off + k + 2)"
  define Y21 where "Y21 = (if c then Conjugate A21 else A21)"
  have unf: "PanelPivoted_2x2 c n off k (A, dSub, X, Y) =
      (case Symmetric2x2Solve D11 A21 c of
         Inl e \<Rightarrow> Inl e
       | Inr X2 \<Rightarrow> Inr (Set (WriteView A1 (off + k + 2) (off + k) X2) (off + k + 1) (off + k) 0,
                        Set dSub (off + k) 0 (Get D11 1 0),
                        WriteView X (k + 2) k X2, WriteView Y (k + 2) k Y21))"
    unfolding PanelPivoted_2x2_def Let_def Y21_def A21_def D11_def A1_def AB1'_def AB1_def AB0_def
    by (simp only: prod.case)
  from r obtain X2 where sol: "Symmetric2x2Solve D11 A21 c = Inr X2"
    and res: "A' = Set (WriteView A1 (K + 2) K X2) (K + 1) K 0"
      "dSub' = Set dSub K 0 (Get D11 1 0)"
      "X' = WriteView X (k + 2) k X2" "Y' = WriteView Y (k + 2) k Y21"
    unfolding unf K by (auto split: sum.splits)
  have gm: "Get AB1 i j = (if i = 0 \<and> j = 1 then Get A K (Suc K) else S (K + i) (K + j))" for i j
    by (simp add: AB1_def AB0_def K S panelS_def add.assoc)
  have reK: "c \<Longrightarrow> Im (S K K) = 0" "c \<Longrightarrow> Im (S (Suc K) (Suc K)) = 0" using re by simp_all
  have gm': "Get AB1' i j = (if i = 0 \<and> j = 1 then Get A K (Suc K) else S (K + i) (K + j))" for i j
    using reK by (auto simp: AB1'_def gm complex_eq_iff)
  have dims: "Height AB1' = n - K" "Width AB1' = 2"
    by (simp_all add: AB1'_def AB1_def AB0_def K)
  have A1: "Get A1 i j =
      (if K \<le> i \<and> i < n \<and> (j = K \<or> j = Suc K)
       then (if i = K \<and> j = Suc K then Get A K (Suc K) else S i j) else Get A i j)" for i j
  proof (cases "K \<le> i \<and> i < n \<and> (j = K \<or> j = Suc K)")
    case True
    then have "Get A1 i j = Get AB1' (i - K) (j - K)"
      unfolding A1_def K [symmetric] WriteView_sel dims by auto
    also have "\<dots> = (if i = K \<and> j = Suc K then Get A K (Suc K) else S i j)"
      using True by (auto simp: gm')
    finally show ?thesis using True by simp
  next
    case False
    then show ?thesis unfolding A1_def K [symmetric] WriteView_sel dims by auto
  qed
  have D: "Get D11 0 0 = S K K" "Get D11 1 0 = S (Suc K) K" "Get D11 1 1 = S (Suc K) (Suc K)"
    using kn by (simp_all add: D11_def K [symmetric] A1)
  note D = D D [unfolded One_nat_def]
  have a21: "Get A21 i j = S (K + 2 + i) (K + j)" if "K + 2 + i < n" "j < 2" for i j
    using that by (auto simp: A21_def K [symmetric] A1 less_2_cases_iff)
  have y21: "Get Y21 i j = cj c (S (K + 2 + i) (K + j))" if "K + 2 + i < n" "j < 2" for i j
    using a21 [OF that] by (simp add: Y21_def cj_def)
  have dA: "Height A21 = n - (K + 2)" "Width A21 = 2" "Height Y21 = n - (K + 2)" "Width Y21 = 2"
    by (simp_all add: A21_def Y21_def K)
  note Sv = Symmetric2x2Solve_Inr [OF sol]
  have hw: "Height X2 = n - (K + 2)" "Width X2 = 2" using Sv(1,2) dA by simp_all
  from Sv(3) show dz: "det \<noteq> 0" by (simp add: D det)
  have X0: "Get X2 i 0 = (S (K + 2 + i) K * S (Suc K) (Suc K) - S (K + 2 + i) (Suc K) * S (Suc K) K) / det"
    if "K + 2 + i < n" for i
    using a21 [OF that, of 0] a21 [OF that, of 1] by (simp add: Sv(4) D det)
  have X1: "Get X2 i 1 = (S (K + 2 + i) (Suc K) * S K K - S (K + 2 + i) K * cj c (S (Suc K) K)) / det"
    if "K + 2 + i < n" for i
    using a21 [OF that, of 0] a21 [OF that, of 1] by (simp add: Sv(4) D det)
  show "Get dSub' t 0 = (if t = K then S (Suc K) K else Get dSub t 0)"
    by (simp add: res D)
  show "j \<noteq> K \<Longrightarrow> j \<noteq> Suc K \<Longrightarrow> Get A' i j = Get A i j"
    unfolding res Set_sel WriteView_sel hw by (auto simp: A1)
  show "Get A' K K = S K K" "Get A' (Suc K) (Suc K) = S (Suc K) (Suc K)" "Get A' (Suc K) K = 0"
    unfolding res Set_sel WriteView_sel hw using kn by (auto simp: A1)
  have restore: "K + 2 + (i - (K + 2)) = i" if "Suc K < i" for i using that by arith
  have c0: "Get A' i K = Get X2 (i - (K + 2)) 0" if "Suc K < i" "i < n" for i
    using that hw unfolding res Set_sel WriteView_sel by auto
  have c1: "Get A' i (Suc K) = Get X2 (i - (K + 2)) 1" if "Suc K < i" "i < n" for i
    using that hw unfolding res Set_sel WriteView_sel by auto
  show "Suc K < i \<Longrightarrow> i < n \<Longrightarrow>
         Get A' i K = (S i K * S (Suc K) (Suc K) - S i (Suc K) * S (Suc K) K) / det"
    using X0 [of "i - (K + 2)"] by (simp only: c0 restore)
  show "Suc K < i \<Longrightarrow> i < n \<Longrightarrow>
         Get A' i (Suc K) = (S i (Suc K) * S K K - S i K * cj c (S (Suc K) K)) / det"
    using X1 [of "i - (K + 2)"] by (simp only: c1 restore)
  show "t \<noteq> k \<Longrightarrow> t \<noteq> Suc k \<Longrightarrow> Get X' i' t = Get X i' t"
    unfolding res WriteView_sel hw by auto
  show "t \<noteq> k \<Longrightarrow> t \<noteq> Suc k \<Longrightarrow> Get Y' i' t = Get Y i' t"
    unfolding res WriteView_sel dA by auto
  have ii: "Suc K < off + i'" "off + i' < n" "off + i' - (K + 2) = i' - (k + 2)"
    "K + 2 + (i' - (k + 2)) = off + i'" if "Suc k < i'" "i' < n - off"
    using that by (auto simp: K)
  show "Get X' i' k = Get A' (off + i') K" if "Suc k < i'" "i' < n - off"
  proof -
    have "Get X' i' k = Get X2 (i' - (k + 2)) 0"
      using that hw unfolding res WriteView_sel by (auto simp: K)
    then show ?thesis using c0 [OF ii(1,2) [OF that]] ii(3) [OF that] by simp
  qed
  show "Get X' i' (Suc k) = Get A' (off + i') (Suc K)" if "Suc k < i'" "i' < n - off"
  proof -
    have "Get X' i' (Suc k) = Get X2 (i' - (k + 2)) 1"
      using that hw unfolding res WriteView_sel by (auto simp: K)
    then show ?thesis using c1 [OF ii(1,2) [OF that]] ii(3) [OF that] by simp
  qed
  show "Get Y' i' k = cj c (S (off + i') K)" if "Suc k < i'" "i' < n - off"
  proof -
    have "Get Y' i' k = Get Y21 (i' - (k + 2)) 0"
      using that dA unfolding res WriteView_sel by (auto simp: K)
    also have "\<dots> = cj c (S (off + i') K)"
      using y21 [of "i' - (k + 2)" 0] ii [OF that] by simp
    finally show ?thesis .
  qed
  show "Get Y' i' (Suc k) = cj c (S (off + i') (Suc K))" if "Suc k < i'" "i' < n - off"
  proof -
    have "Get Y' i' (Suc k) = Get Y21 (i' - (k + 2)) 1"
      using that dA unfolding res WriteView_sel by (auto simp: K)
    also have "\<dots> = cj c (S (off + i') (Suc K))"
      using y21 [of "i' - (k + 2)" 1] ii [OF that] by simp
    finally show ?thesis .
  qed
qed

lemma rank2_herm:
  fixes p q r :: complex
  assumes rp: "cj c p = p" and rr: "cj c r = r"
    and i: "si0 = xi0 * p + xi1 * q" "si1 = xi0 * cj c q + xi1 * r"
    and j: "sj0 = xj0 * p + xj1 * q" "sj1 = xj0 * cj c q + xj1 * r"
  shows "xj0 * cj c si0 + xj1 * cj c si1 = cj c (xi0 * cj c sj0 + xi1 * cj c sj1)"
  unfolding i j by (simp add: rp rr algebra_simps)

lemma PanelPivoted_2x2_inv:
  assumes r: "PanelPivoted_2x2 c n off k
        (SymmetricSwap A (off + k + 1) (off + f) c, dSub, RowSwap X (k + 1) f, RowSwap Y (k + 1) f)
        = Inr (A1, dSub1, X1, Y1)"
    and inv: "panelInv c A0 n off k A dSub p X Y"
    and kn: "Suc (off + k) < n" and fr: "k \<le> f" "f < n - off"
  shows "panelInv c A0 n off (Suc (Suc k)) A1 dSub1 (p[off + k := off + k, off + k + 1 := off + f])
           X1 Y1"
proof -
  define K where "K = off + k"
  define As where "As = SymmetricSwap A (off + Suc k) (off + f) c"
  define Xs where "Xs = RowSwap X (Suc k) f"
  define Ys where "Ys = RowSwap Y (Suc k) f"
  define S where "S = panelS As Xs Ys off k"
  define B where "B = (\<lambda>i j. permuted c A0 p (off + k) (swapIndex (off + Suc k) (off + f) i)
      (swapIndex (off + Suc k) (off + f) j))"
  define det where "det = S K K * S (Suc K) (Suc K) - S (Suc K) K * cj c (S (Suc K) K)"
  note len = panelInvD(1) [OF inv] and rng = panelInvD(2) [OF inv] and f = panelInvD(3) [OF inv]
    and W = panelInvD(4) [OF inv]
  have kk: "k \<le> Suc k" "Suc k < n - off" using kn by simp_all
  note sw = panel_swap [OF f W kk fr, folded As_def Xs_def Ys_def, folded S_def B_def]
  have fs: "factored c n K B (Get As) (\<lambda>t. Get dSub t 0) S"
    using sw(1) by (simp add: K_def)
  have Ws: "(\<Sum>t<k. Get Xs j t * Get Ys i t) = cj c (\<Sum>t<k. Get Xs i t * Get Ys j t)"
    if "k \<le> i" "i < n - off" "k \<le> j" "j < n - off" for i j
    by (rule sw(2) [rule_format]) (use that in simp)
  have kn': "Suc K < n" using kn by (simp add: K_def)
  have re: "c \<Longrightarrow> Im (S K K) = 0" "c \<Longrightarrow> Im (S (Suc K) (Suc K)) = 0"
    using factoredD(6) [OF fs, of K] factoredD(6) [OF fs, of "Suc K"] kn' by simp_all
  have rp: "cj c (S K K) = S K K" "cj c (S (Suc K) (Suc K)) = S (Suc K) (Suc K)"
    by (rule cj_real, rule re, assumption)+
  have r': "PanelPivoted_2x2 c n off k (As, dSub, Xs, Ys) = Inr (A1, dSub1, X1, Y1)"
    using r by (simp add: As_def Xs_def Ys_def)
  have re': "c \<longrightarrow> Im (S K K) = 0 \<and> Im (S (Suc K) (Suc K)) = 0" using re by simp
  note R = PanelPivoted_2x2_Inr [OF r' K_def S_def det_def re' kn']
  have sol: "Get A1 i K * S K K + Get A1 i (Suc K) * S (Suc K) K = S i K"
    "Get A1 i K * cj c (S (Suc K) K) + Get A1 i (Suc K) * S (Suc K) (Suc K) = S i (Suc K)"
    if "Suc K < i" "i < n" for i
    using solve2x2 [of "S K K" "S (Suc K) (Suc K)" "S (Suc K) K" "cj c (S (Suc K) K)"
        "Get A1 i K" "S i K" "S i (Suc K)" "Get A1 i (Suc K)"]
      R(1) R(7) [OF that] R(8) [OF that] by (simp_all add: det_def)
  have Snew: "panelS A1 X1 Y1 off (Suc (Suc k)) i j
      = S i j - (Get A1 i K * cj c (S j K) + Get A1 i (Suc K) * cj c (S j (Suc K)))"
    if "Suc K < j" "j \<le> i" "i < n" for i j
  proof -
    have i: "Suc k < i - off" "i - off < n - off" "off + (i - off) = i"
      and j: "Suc k < j - off" "j - off < n - off" "off + (j - off) = j"
      using that by (auto simp: K_def)
    have jK: "j \<noteq> K" "j \<noteq> Suc K" using that by simp_all
    have "(\<Sum>t<k. Get X1 (i - off) t * Get Y1 (j - off) t)
        = (\<Sum>t<k. Get Xs (i - off) t * Get Ys (j - off) t)"
      by (rule sum.cong) (simp_all add: R(9,10))
    then show ?thesis
      by (simp add: panelS_def R(3) [OF jK] R(11) [OF i(1,2)] R(12) [OF i(1,2)]
          R(13) [OF j(1,2)] R(14) [OF j(1,2)] i(3) j(3) S_def algebra_simps)
  qed
  have f2: "factored c n (Suc (Suc K)) B (Get A1) (\<lambda>t. Get dSub1 t 0)
      (panelS A1 X1 Y1 off (Suc (Suc k)))"
  proof (rule factored_2x2 [OF fs kn' R(1) [unfolded det_def]])
    show "\<And>i s. s < K \<Longrightarrow> s \<le> i \<Longrightarrow> i < n \<Longrightarrow> Get A1 i s = Get As i s"
      by (simp add: R(3))
    show "Get dSub1 K 0 = S (Suc K) K" by (simp add: R(2))
    show "\<And>t. t \<noteq> K \<Longrightarrow> Get dSub1 t 0 = Get dSub t 0" by (simp add: R(2))
    show "\<And>i. Suc K < i \<Longrightarrow> i < n \<Longrightarrow> Get A1 i K =
        (S i K * S (Suc K) (Suc K) - S i (Suc K) * S (Suc K) K)
        / (S K K * S (Suc K) (Suc K) - S (Suc K) K * cj c (S (Suc K) K))"
      using R(7) by (simp add: det_def)
    show "\<And>i. Suc K < i \<Longrightarrow> i < n \<Longrightarrow> Get A1 i (Suc K) =
        (S i (Suc K) * S K K - S i K * cj c (S (Suc K) K))
        / (S K K * S (Suc K) (Suc K) - S (Suc K) K * cj c (S (Suc K) K))"
      using R(8) by (simp add: det_def)
  qed (simp_all add: R(4-6) Snew)
  have W2: "(\<Sum>t<Suc (Suc k). Get X1 j t * Get Y1 i t)
      = cj c (\<Sum>t<Suc (Suc k). Get X1 i t * Get Y1 j t)"
    if "Suc (Suc k) \<le> i \<and> i < n - off \<and> Suc (Suc k) \<le> j \<and> j < n - off" for i j
  proof -
    from that have i: "Suc k < i" "i < n - off" and j: "Suc k < j" "j < n - off" by simp_all
    have i': "Suc K < off + i" "off + i < n" and j': "Suc K < off + j" "off + j < n"
      using i j by (simp_all add: K_def)
    have a: "(\<Sum>t<k. Get X1 j t * Get Y1 i t) = (\<Sum>t<k. Get Xs j t * Get Ys i t)"
      by (rule sum.cong) (simp_all add: R(9,10))
    have b: "(\<Sum>t<k. Get X1 i t * Get Y1 j t) = (\<Sum>t<k. Get Xs i t * Get Ys j t)"
      by (rule sum.cong) (simp_all add: R(9,10))
    have w: "(\<Sum>t<k. Get Xs j t * Get Ys i t) = cj c (\<Sum>t<k. Get Xs i t * Get Ys j t)"
      using i j by (intro Ws) simp_all
    have h: "Get A1 (off + j) K * cj c (S (off + i) K)
          + Get A1 (off + j) (Suc K) * cj c (S (off + i) (Suc K))
        = cj c (Get A1 (off + i) K * cj c (S (off + j) K)
                + Get A1 (off + i) (Suc K) * cj c (S (off + j) (Suc K)))"
      by (rule rank2_herm [OF rp sol(1) [OF i', symmetric] sol(2) [OF i', symmetric]
            sol(1) [OF j', symmetric] sol(2) [OF j', symmetric]])
    have "(\<Sum>t<Suc (Suc k). Get X1 j t * Get Y1 i t)
        = (\<Sum>t<k. Get Xs j t * Get Ys i t)
          + (Get A1 (off + j) K * cj c (S (off + i) K)
             + Get A1 (off + j) (Suc K) * cj c (S (off + i) (Suc K)))"
      by (simp add: a R(11) [OF j] R(12) [OF j] R(13) [OF i] R(14) [OF i])
    also have "\<dots> = cj c ((\<Sum>t<k. Get Xs i t * Get Ys j t)
          + (Get A1 (off + i) K * cj c (S (off + j) K)
             + Get A1 (off + i) (Suc K) * cj c (S (off + j) (Suc K))))"
      unfolding w h by simp
    also have "\<dots> = cj c (\<Sum>t<Suc (Suc k). Get X1 i t * Get Y1 j t)"
      by (simp add: b R(11) [OF i] R(12) [OF i] R(13) [OF j] R(14) [OF j])
    finally show ?thesis .
  qed
  have Bp: "permuted c A0 (p[off + k := off + k, off + k + 1 := off + f]) (Suc (Suc K)) = B"
    using kn len by (intro ext) (simp add: K_def B_def permuted_swap2)
  have rng': "\<forall>t<off + Suc (Suc k). (p[off + k := off + k, off + k + 1 := off + f]) ! t < n"
    using rng fr len kn by (auto simp: nth_list_update less_Suc_eq)
  show ?thesis
    unfolding panelInv_def
  proof (intro conjI)
    show "length (p[off + k := off + k, off + k + 1 := off + f]) = n" using len by simp
    show "\<forall>t<off + Suc (Suc k). p[off + k := off + k, off + k + 1 := off + f] ! t < n"
      by (rule rng')
    show "factored c n (off + Suc (Suc k))
        (permuted c A0 (p[off + k := off + k, off + k + 1 := off + f]) (off + Suc (Suc k)))
        (Get A1) (\<lambda>t. Get dSub1 t 0) (panelS A1 X1 Y1 off (Suc (Suc k)))"
      using f2 Bp by (simp add: K_def)
    show "\<forall>i j. Suc (Suc k) \<le> i \<and> i < n - off \<and> Suc (Suc k) \<le> j \<and> j < n - off \<longrightarrow>
        (\<Sum>t<Suc (Suc k). Get X1 j t * Get Y1 i t)
        = cj c (\<Sum>t<Suc (Suc k). Get X1 i t * Get Y1 j t)"
      by (intro allI impI) (rule W2)
  qed
qed

lemma panel_row_range:
  assumes "\<not> cmod (Get (panelColumn A X Y k) 0 0) \<ge> gamma * val (panelA21Max A X Y k)"
  shows "index (panelA21Max A X Y k) + (k + 1) < Height A"
proof -
  from panel_first_test_fails(1) [OF assms]
  have pos: "0 < val (MaxLoop (\<lambda>t. corrected A X Y k (Suc (k + t)) k) (Height A - Suc k))"
    by (simp add: panelA21Max_eq)
  from MaxLoop_index [OF MaxLoop_pos [OF pos], of "\<lambda>t. corrected A X Y k (Suc (k + t)) k"]
  have "index (panelA21Max A X Y k) < Height A - Suc k" by (simp add: panelA21Max_eq)
  then show ?thesis by arith
qed

lemma PanelBunchKaufmanA_range:
  assumes "PanelBunchKaufmanA A X Y k g = Inr pivot"
  shows "k < Height A"
    and "nb pivot = 1 \<Longrightarrow> k \<le> from' pivot ! 0 \<and> from' pivot ! 0 < Height A"
    and "nb pivot = 2 \<Longrightarrow> Suc k < Height A \<and> k \<le> from' pivot ! 1 \<and> from' pivot ! 1 < Height A"
proof -
  define gamma where "gamma = (if g = 0 then (1 + sqrt 17) / 8 else g)"
  define alpha where "alpha = cmod (Get (panelColumn A X Y k) 0 0)"
  define omega where "omega = val (panelA21Max A X Y k)"
  define r where "r = index (panelA21Max A X Y k) + (k + 1)"
  define rho where "rho = panelRowMaxValA A X Y k r"
  define arr where "arr = cmod (Get (panelBottom A X Y k r) 0 0)"
  have unf: "PanelBunchKaufmanA A X Y k g =
     (if Height A \<le> k then Inl LogicError
      else if omega = 0 \<and> alpha = 0 then Inl SingularMatrixException
      else if alpha \<ge> gamma * omega then Inr \<lparr>nb = 1, from' = [k]\<rparr>
      else if rho = 0 then Inl DivisionByZero
      else if alpha \<ge> gamma * omega * (omega / rho) then Inr \<lparr>nb = 1, from' = [k]\<rparr>
      else if arr \<ge> gamma * rho then Inr \<lparr>nb = 1, from' = [r]\<rparr>
      else Inr \<lparr>nb = 2, from' = [k, r]\<rparr>)"
    unfolding PanelBunchKaufmanA_def Let_def gamma_def alpha_def omega_def r_def rho_def arr_def
    by (rule refl)
  have rr: "r < Height A" if "\<not> alpha \<ge> gamma * omega"
    using panel_row_range [of gamma A X Y k] that by (simp add: alpha_def omega_def r_def)
  from assms show k: "k < Height A" unfolding unf by (auto split: if_splits)
  from assms have c: "pivot = \<lparr>nb = 1, from' = [k]\<rparr>
      \<or> (\<not> alpha \<ge> gamma * omega \<and> (pivot = \<lparr>nb = 1, from' = [r]\<rparr> \<or> pivot = \<lparr>nb = 2, from' = [k, r]\<rparr>))"
    unfolding unf by (auto split: if_splits)
  have kr: "k < r" by (simp add: r_def)
  from c k rr kr show "nb pivot = 1 \<Longrightarrow> k \<le> from' pivot ! 0 \<and> from' pivot ! 0 < Height A"
    by auto
  from c k rr kr show "nb pivot = 2 \<Longrightarrow> Suc k < Height A \<and> k \<le> from' pivot ! 1 \<and> from' pivot ! 1 < Height A"
    by auto
qed

lemma PanelBunchKaufmanD_range:
  assumes "PanelBunchKaufmanD A X Y k g = Inr pivot"
  shows "k < Height A"
    and "nb pivot = 1 \<Longrightarrow> k \<le> from' pivot ! 0 \<and> from' pivot ! 0 < Height A"
    and "nb pivot = 2 \<Longrightarrow> Suc k < Height A \<and> k \<le> from' pivot ! 1 \<and> from' pivot ! 1 < Height A"
proof -
  define gamma where "gamma = (if g = 0 then 525 / 1000 else g)"
  define alpha where "alpha = cmod (Get (panelColumn A X Y k) 0 0)"
  define omega where "omega = val (panelA21Max A X Y k)"
  define r where "r = index (panelA21Max A X Y k) + (k + 1)"
  define rho where "rho = panelRowMaxValD A X Y k r"
  have unf: "PanelBunchKaufmanD A X Y k g =
     (if Height A \<le> k then Inl LogicError
      else if omega = 0 \<and> alpha = 0 then Inl SingularMatrixException
      else if alpha \<ge> gamma * omega then Inr \<lparr>nb = 1, from' = [k]\<rparr>
      else if rho = 0 then Inl DivisionByZero
      else if alpha \<ge> gamma * omega * (omega / rho) then Inr \<lparr>nb = 1, from' = [k]\<rparr>
      else Inr \<lparr>nb = 2, from' = [k, r]\<rparr>)"
    unfolding PanelBunchKaufmanD_def Let_def gamma_def alpha_def omega_def r_def rho_def
    by (rule refl)
  have rr: "r < Height A" if "\<not> alpha \<ge> gamma * omega"
    using panel_row_range [of gamma A X Y k] that by (simp add: alpha_def omega_def r_def)
  from assms show k: "k < Height A" unfolding unf by (auto split: if_splits)
  from assms have c: "pivot = \<lparr>nb = 1, from' = [k]\<rparr>
      \<or> (\<not> alpha \<ge> gamma * omega \<and> pivot = \<lparr>nb = 2, from' = [k, r]\<rparr>)"
    unfolding unf by (auto split: if_splits)
  have kr: "k < r" by (simp add: r_def)
  from c k rr kr show "nb pivot = 1 \<Longrightarrow> k \<le> from' pivot ! 0 \<and> from' pivot ! 0 < Height A"
    by auto
  from c k rr kr show "nb pivot = 2 \<Longrightarrow> Suc k < Height A \<and> k \<le> from' pivot ! 1 \<and> from' pivot ! 1 < Height A"
    by auto
qed

lemma ChoosePanelPivot_range:
  assumes "ChoosePanelPivot A X Y k t g = Inr pivot"
  shows "k < Height A"
    and "nb pivot = 1 \<Longrightarrow> k \<le> from' pivot ! 0 \<and> from' pivot ! 0 < Height A"
    and "nb pivot = 2 \<Longrightarrow> Suc k < Height A \<and> k \<le> from' pivot ! 1 \<and> from' pivot ! 1 < Height A"
  using assms PanelBunchKaufmanA_range [of A X Y k g pivot] PanelBunchKaufmanD_range [of A X Y k g pivot]
  by (cases t; simp add: ChoosePanelPivot_def)+

lemma panelInv_start:
  assumes "unblockedInv c A0 n off A dSub p"
  shows "panelInv c A0 n off 0 A dSub p (Zeros m w) (Zeros m w)"
proof -
  have e: "panelS A (Zeros m w) (Zeros m w) off 0 = Get A"
    by (intro ext) (simp add: panelS_def)
  from assms show ?thesis by (simp add: panelInv_def unblockedInv_def e)
qed

lemma PanelPivoted_loop_inv:
  assumes res: "PanelPivoted_loop c t g n off bsize (A, dSub, p, X, Y) k = Inr (A', dSub', p', X', Y')"
    and inv: "panelInv c A0 n off k A dSub p X Y" and w: "Width X = bsize" and kb: "k \<le> bsize"
  shows "panelInv c A0 n off (Width X') A' dSub' p' X' Y'"
    and "Width X' = bsize \<or> (Width X' + 1 = bsize \<and> Suc (Width X') < n - off)"
proof -
  let ?I = "\<lambda>(A1, dSub1, p1, X1, Y1) k. panelInv c A0 n off k A1 dSub1 p1 X1 Y1 \<and> Width X1 = bsize"
  let ?Q = "\<lambda>(A1, dSub1, p1, X1, Y1). panelInv c A0 n off (Width X1) A1 dSub1 p1 X1 Y1
      \<and> (Width X1 = bsize \<or> (Width X1 + 1 = bsize \<and> Suc (Width X1) < n - off))"
  have "?Q (A', dSub', p', X', Y')"
  proof (rule PanelPivoted_loop_rule [where I = ?I and Q = ?Q, OF res _ kb])
    show "?I (A, dSub, p, X, Y) k" using inv w by simp
  next
    fix A dSub p X Y k pivot A1 X1 Y1
    assume i: "?I (A, dSub, p, X, Y) k" and k: "k < bsize"
      and pv: "ChoosePanelPivot (LockedViewRange A off off n n) X Y k t g = Inr pivot"
      and n1: "nb pivot = 1"
      and s: "PanelPivoted_1x1 c n off k
             (SymmetricSwap A (off + k) (off + from' pivot ! 0) c,
              RowSwap X k (from' pivot ! 0), RowSwap Y k (from' pivot ! 0)) = Inr (A1, X1, Y1)"
    from i have inv: "panelInv c A0 n off k A dSub p X Y" and w: "Width X = bsize" by simp_all
    from ChoosePanelPivot_range(1,2) [OF pv] n1
    have kn: "off + k < n" and fr: "k \<le> from' pivot ! 0" "from' pivot ! 0 < n - off" by auto
    have "panelInv c A0 n off (Suc k) A1 dSub (p[off + k := off + from' pivot ! 0]) X1 Y1"
      by (rule PanelPivoted_1x1_inv [OF s inv kn fr])
    moreover have "Width X1 = bsize" using PanelPivoted_1x1_dims(4) [OF s] w by simp
    ultimately show "?I (A1, dSub, p[off + k := off + from' pivot ! 0], X1, Y1) (k + 1)" by simp
  next
    fix A dSub p X Y k pivot A1 dSub1 X1 Y1
    assume i: "?I (A, dSub, p, X, Y) k" and k: "k + 2 \<le> bsize"
      and pv: "ChoosePanelPivot (LockedViewRange A off off n n) X Y k t g = Inr pivot"
      and n2: "nb pivot = 2"
      and s: "PanelPivoted_2x2 c n off k
             (SymmetricSwap A (off + k + 1) (off + from' pivot ! 1) c, dSub,
              RowSwap X (k + 1) (from' pivot ! 1), RowSwap Y (k + 1) (from' pivot ! 1))
          = Inr (A1, dSub1, X1, Y1)"
    from i have inv: "panelInv c A0 n off k A dSub p X Y" and w: "Width X = bsize" by simp_all
    from ChoosePanelPivot_range(3) [OF pv n2]
    have kn: "Suc (off + k) < n" and fr: "k \<le> from' pivot ! 1" "from' pivot ! 1 < n - off" by auto
    have "panelInv c A0 n off (Suc (Suc k)) A1 dSub1
        (p[off + k := off + k, off + k + 1 := off + from' pivot ! 1]) X1 Y1"
      by (rule PanelPivoted_2x2_inv [OF s inv kn fr])
    moreover have "Width X1 = bsize" using PanelPivoted_2x2_dims(4) [OF s] w by simp
    ultimately show "?I (A1, dSub1, (p[off + k := off + k])[off + k + 1 := off + from' pivot ! 1], X1, Y1)
        (k + 2)" by simp
  next
    fix st assume "?I st bsize"
    then show "?Q st" by (cases st) auto
  next
    fix A dSub p X Y k pivot
    assume i: "?I (A, dSub, p, X, Y) k" and k: "k + 1 = bsize"
      and pv: "ChoosePanelPivot (LockedViewRange A off off n n) X Y k t g = Inr pivot"
      and n2: "nb pivot = 2"
    from i have inv: "panelInv c A0 n off k A dSub p X Y" by simp
    from ChoosePanelPivot_range(3) [OF pv n2] have kn: "Suc k < n - off" by simp
    have e: "panelS A (ResizeTo X (n - off) k) (ResizeTo Y (n - off) k) off k = panelS A X Y off k"
      by (intro ext) (simp add: panelS_def)
    have "panelInv c A0 n off k A dSub p (ResizeTo X (n - off) k) (ResizeTo Y (n - off) k)"
      unfolding panelInv_def e ResizeTo_sel using inv [unfolded panelInv_def] .
    with k kn show "?Q (A, dSub, p, ResizeTo X (n - off) k, ResizeTo Y (n - off) k)" by simp
  qed
  then show "panelInv c A0 n off (Width X') A' dSub' p' X' Y'"
    and "Width X' = bsize \<or> (Width X' + 1 = bsize \<and> Suc (Width X') < n - off)"
    by simp_all
qed

lemma factored_cong:
  assumes f: "factored c n k B a d S" and kn: "k \<le> n"
    and a': "\<And>i s. s < k \<Longrightarrow> s \<le> i \<Longrightarrow> i < n \<Longrightarrow> a' i s = a i s"
    and S': "\<And>i j. k \<le> j \<Longrightarrow> j \<le> i \<Longrightarrow> i < n \<Longrightarrow> S' i j = S i j"
  shows "factored c n k B a' d S'"
proof -
  note B = factoredD(1) [OF f] and H = factoredD(2) [OF f] and d0 = factoredD(3) [OF f]
    and bl = factoredD(4) [OF f] and reA = factoredD(5) [OF f] and reS = factoredD(6) [OF f]
  have old: "LDLt c a' d k i j = LDLt c a d k i j" if "i < n" "j < n" for i j
    by (rule LDLt_cong_below [where n = n]) (use a' kn that in auto)
  show ?thesis
    unfolding factored_def
  proof (intro conjI allI impI)
    fix i j assume ij: "j \<le> i \<and> i < n"
    then show "B i j = LDLt c a' d k i j + (if k \<le> j then S' i j else 0)"
      using B [of j i] by (simp add: old S')
  next
    fix i j assume "i < n \<and> j < n"
    then show "B j i = cj c (B i j)" by (intro H) simp_all
  next
    fix t assume "k \<le> Suc t" then show "d t = 0" by (rule d0)
  next
    fix t assume dt: "d t \<noteq> 0"
    then show "d (Suc t) = 0" using bl by simp
    from dt d0 [of t] have tk: "Suc t < k" by (cases "Suc t < k") auto
    then have "a' (Suc t) t = a (Suc t) t" using kn by (intro a') auto
    then show "a' (Suc t) t = 0" using bl [OF dt] by simp
  next
    fix s assume "c" "s < k"
    then show "Im (a' s s) = 0" using reA [of s] a' [of s s] kn by simp
  next
    fix i assume "c" and i: "k \<le> i \<and> i < n"
    then show "Im (S' i i) = 0" using reS [of i] S' [of i i] by simp
  qed
qed

lemma PanelPivoted_inv:
  assumes res: "PanelPivoted A dSub p X Y bsize off c t g = Inr (A1, dSub1, p1, X1, Y1)"
    and inv: "unblockedInv c A0 n off A dSub p" and h: "Height A = n" and n0: "0 < n"
  shows "panelInv c A0 n off (Width X1) A1 dSub1 p1 X1 Y1"
    and "Width X1 = bsize \<or> (Width X1 + 1 = bsize \<and> Suc (Width X1) < n - off)"
proof -
  from res h n0 have r: "PanelPivoted_loop c t g n off bsize
      (A, dSub, p, Zeros (n - off) bsize, Zeros (n - off) bsize) 0 = Inr (A1, dSub1, p1, X1, Y1)"
    by (auto simp: PanelPivoted_def Let_def split: if_splits)
  note L = PanelPivoted_loop_inv [OF r panelInv_start [OF inv]]
  show "panelInv c A0 n off (Width X1) A1 dSub1 p1 X1 Y1" by (rule L(1)) simp_all
  show "Width X1 = bsize \<or> (Width X1 + 1 = bsize \<and> Suc (Width X1) < n - off)"
    by (rule L(2)) simp_all
qed

lemma trailingUpdate_inv:
  assumes inv: "panelInv c A0 n off (Width X1) A1 dSub1 p1 X1 Y1" and b: "off + Width X1 \<le> n"
  shows "unblockedInv c A0 n (off + Width X1) (trailingUpdate n off A1 X1 Y1) dSub1 p1"
proof -
  note len = panelInvD(1) [OF inv] and rng = panelInvD(2) [OF inv] and f = panelInvD(3) [OF inv]
  have "factored c n (off + Width X1) (permuted c A0 p1 (off + Width X1))
      (Get (trailingUpdate n off A1 X1 Y1)) (\<lambda>t. Get dSub1 t 0) (Get (trailingUpdate n off A1 X1 Y1))"
    by (rule factored_cong [OF f b]) (simp_all add: Get_trailingUpdate panelS_def)
  with len rng show ?thesis by (simp add: unblockedInv_def)
qed

lemma trailingUpdate_dims [simp]:
  "Height (trailingUpdate n k A X Y) = Height A" "Width (trailingUpdate n k A X Y) = Width A"
  by (simp_all add: trailingUpdate_def Let_def)

lemma BlockedPivoted_loop_inv:
  assumes "BlockedPivoted_loop fuel bsize c t g n (A, dSub, p, X, Y) k = Some (Inr (A', dSub', p'))"
    and "unblockedInv c A0 n k A dSub p" and "Height A = n" and "k \<le> n"
  shows "unblockedInv c A0 n n A' dSub' p'"
  using assms
proof (induction fuel arbitrary: A dSub p X Y k)
  case 0
  then show ?case by (cases "k < n") (simp_all add: BlockedPivoted_loop.simps)
next
  case (Suc fuel)
  show ?case
  proof (cases "k < n")
    case False
    with Suc.prems show ?thesis by (simp add: BlockedPivoted_loop.simps)
  next
    case True
    with Suc.prems(1) obtain A1 dSub1 p1 X1 Y1 where
      pp: "PanelPivoted A dSub p X Y (min bsize (n - k)) k c t g = Inr (A1, dSub1, p1, X1, Y1)"
      by (cases "PanelPivoted A dSub p X Y (min bsize (n - k)) k c t g")
         (auto simp: BlockedPivoted_loop.simps)
    from Suc.prems(1) have r: "BlockedPivoted_loop fuel bsize c t g n
           (trailingUpdate n k A1 X1 Y1, dSub1, p1, X1, Y1) (k + Width X1)
         = Some (Inr (A', dSub', p'))"
      by (simp add: BlockedPivoted_loop_step [OF True pp])
    have n0: "0 < n" using True by simp
    note P = PanelPivoted_inv [OF pp Suc.prems(2,3) n0]
    have b: "k + Width X1 \<le> n" using P(2) True by auto
    have h: "Height (trailingUpdate n k A1 X1 Y1) = n"
      using PanelPivoted_dims(1) [OF pp] Suc.prems(3) n0 by simp
    show ?thesis
      by (rule Suc.IH [OF r trailingUpdate_inv [OF P(1) b] h b])
  qed
qed

lemma BlockedPivoted_loop_total:
  assumes "Height A = n" and "n - k \<le> fuel" and "2 \<le> bsize"
  shows "BlockedPivoted_loop fuel bsize c t g n (A, dSub, p, X, Y) k \<noteq> None"
  using assms
proof (induction fuel arbitrary: A dSub p X Y k)
  case 0
  then show ?case by (simp add: BlockedPivoted_loop.simps)
next
  case (Suc fuel)
  show ?case
  proof (cases "k < n")
    case False
    then show ?thesis by (simp add: BlockedPivoted_loop.simps)
  next
    case True
    show ?thesis
    proof (cases "PanelPivoted A dSub p X Y (min bsize (n - k)) k c t g")
      case (Inl e)
      with True show ?thesis by (simp add: BlockedPivoted_loop.simps)
    next
      case (Inr r)
      obtain A1 dSub1 p1 X1 Y1 where r: "r = (A1, dSub1, p1, X1, Y1)" by (cases r) auto
      note pp = Inr [unfolded r]
      have n0: "0 < Height A" using True Suc.prems(1) by simp
      from pp n0 Suc.prems(1) have l: "PanelPivoted_loop c t g n k (min bsize (n - k))
          (A, dSub, p, Zeros (n - k) (min bsize (n - k)), Zeros (n - k) (min bsize (n - k))) 0
          = Inr (A1, dSub1, p1, X1, Y1)"
        by (auto simp: PanelPivoted_def Let_def split: if_splits)
      have w: "0 < Width X1"
      proof -
        let ?b = "min bsize (n - k)"
        let ?I = "\<lambda>(A1 :: Matrix, dSub1 :: Matrix, p1 :: nat list, X1, Y1 :: Matrix) (k' :: nat).
            Width X1 = ?b"
        let ?Q = "\<lambda>(A1 :: Matrix, dSub1 :: Matrix, p1 :: nat list, X1, Y1 :: Matrix).
            Width X1 = ?b \<or> (Width X1 + 1 = ?b \<and> Suc (Width X1) < n - k)"
        have "?Q (A1, dSub1, p1, X1, Y1)"
        proof (rule PanelPivoted_loop_rule [where I = ?I and Q = ?Q, OF l])
          fix A dSub p X Y k' pivot A1 X1 Y1
          assume "PanelPivoted_1x1 c n k k'
             (SymmetricSwap A (k + k') (k + from' pivot ! 0) c,
              RowSwap X k' (from' pivot ! 0), RowSwap Y k' (from' pivot ! 0)) = Inr (A1, X1, Y1)"
          from PanelPivoted_1x1_dims(4) [OF this]
          show "?I (A, dSub, p, X, Y) k' \<Longrightarrow> ?I (A1, dSub, p[k + k' := k + from' pivot ! 0], X1, Y1) (k' + 1)"
            by simp
        next
          fix A dSub p X Y k' pivot A1 dSub1 X1 Y1
          assume "PanelPivoted_2x2 c n k k'
             (SymmetricSwap A (k + k' + 1) (k + from' pivot ! 1) c, dSub,
              RowSwap X (k' + 1) (from' pivot ! 1), RowSwap Y (k' + 1) (from' pivot ! 1))
            = Inr (A1, dSub1, X1, Y1)"
          from PanelPivoted_2x2_dims(4) [OF this]
          show "?I (A, dSub, p, X, Y) k' \<Longrightarrow>
            ?I (A1, dSub1, (p[k + k' := k + k'])[k + k' + 1 := k + from' pivot ! 1], X1, Y1) (k' + 2)"
            by simp
        next
          fix A dSub p X Y k' pivot
          assume "ChoosePanelPivot (LockedViewRange A k k n n) X Y k' t g = Inr pivot"
            and "nb pivot = 2" and "k' + 1 = ?b"
          from ChoosePanelPivot_range(3) [OF this(1,2)] this(3)
          show "?Q (A, dSub, p, ResizeTo X (n - k) k', ResizeTo Y (n - k) k')" by simp
        qed auto
        with True Suc.prems(3) show ?thesis by auto
      qed
      have h: "Height (trailingUpdate n k A1 X1 Y1) = n"
        using PanelPivoted_dims(1) [OF pp n0] Suc.prems(1) by simp
      have "BlockedPivoted_loop fuel bsize c t g n
           (trailingUpdate n k A1 X1 Y1, dSub1, p1, X1, Y1) (k + Width X1) \<noteq> None"
        by (rule Suc.IH [OF h]) (use w Suc.prems in simp_all)
      then show ?thesis by (simp add: BlockedPivoted_loop_step [OF True pp])
    qed
  qed
qed

lemma BlockedPivoted_factorizes:
  assumes res: "BlockedPivoted fuel bsize A c t g = Some (Inr (A', dSub', p'))"
    and re: "c \<longrightarrow> (\<forall>i<Height A. Im (Get A i i) = 0)"
  shows "factorizes c A A' dSub' p'"
proof (cases "Height A = 0")
  case True
  with res show ?thesis by (auto simp: BlockedPivoted_def factorizes_empty split: if_splits)
next
  case False
  define n where "n = Height A"
  from res False have r: "BlockedPivoted_loop fuel bsize c t g n
      (A, Zeros (n - 1) 1, replicate n 0, Zeros 0 0, Zeros 0 0) 0 = Some (Inr (A', dSub', p'))"
    by (auto simp: BlockedPivoted_def Let_def n_def split: if_splits)
  have "unblockedInv c A n n A' dSub' p'"
    by (rule BlockedPivoted_loop_inv [OF r unblockedInv_start])
       (use re in \<open>simp_all add: n_def\<close>)
  then show ?thesis by (rule inv_factorizes) (simp add: n_def)
qed

lemma UnblockedPivoted_unsupported:
  assumes "t \<noteq> BUNCH_KAUFMAN_A" "t \<noteq> BUNCH_KAUFMAN_D" "t \<noteq> BUNCH_PARLETT" "0 < Height A"
  shows "UnblockedPivoted A c t g = Inl LogicError"
proof -
  have l: "UnblockedPivoted_loop c t g (Height A) st 0 = Inl LogicError" for st
    using assms by (subst UnblockedPivoted_loop.simps) (cases t; simp add: ChoosePivot_def)
  show ?thesis
  proof (cases "Height A = Width A")
    case True
    then show ?thesis using assms(4) l unfolding UnblockedPivoted_def Let_def by simp
  next
    case False
    then show ?thesis by (simp add: UnblockedPivoted_def)
  qed
qed

lemma Pivoted_factorizes:
  assumes res: "Pivoted fuel bsize A c t g = Some (Inr (A', dSub', p'))"
    and re: "c \<longrightarrow> (\<forall>i<Height A. Im (Get A i i) = 0)"
  shows "factorizes c A A' dSub' p'"
proof (cases t)
  case BUNCH_KAUFMAN_A
  with res have "BlockedPivoted fuel bsize A c t g = Some (Inr (A', dSub', p'))"
    by (simp add: Pivoted_def)
  then show ?thesis using re by (rule BlockedPivoted_factorizes)
next
  case BUNCH_KAUFMAN_C
  with res have "BlockedPivoted fuel bsize A c t g = Some (Inr (A', dSub', p'))"
    by (simp add: Pivoted_def)
  then show ?thesis using re by (rule BlockedPivoted_factorizes)
next
  case BUNCH_KAUFMAN_D
  with res have "BlockedPivoted fuel bsize A c t g = Some (Inr (A', dSub', p'))"
    by (simp add: Pivoted_def)
  then show ?thesis using re by (rule BlockedPivoted_factorizes)
next
  case BUNCH_PARLETT
  with res have "UnblockedPivoted A c BUNCH_PARLETT g = Inr (A', dSub', p')"
    by (simp add: Pivoted_def)
  then show ?thesis using re by (rule UnblockedPivoted_factorizes)
next
  case BUNCH_KAUFMAN_BOUNDED
  with res have u: "UnblockedPivoted A c BUNCH_KAUFMAN_BOUNDED g = Inr (A', dSub', p')"
    by (simp add: Pivoted_def)
  have "Height A = 0"
  proof (rule ccontr)
    assume "Height A \<noteq> 0"
    then have "UnblockedPivoted A c BUNCH_KAUFMAN_BOUNDED g = Inl LogicError"
      by (intro UnblockedPivoted_unsupported) simp_all
    with u show False by simp
  qed
  with u show ?thesis by (auto simp: UnblockedPivoted_def factorizes_empty split: if_splits)
qed

lemma Pivoted_total:
  assumes "2 \<le> bsize" "Height A \<le> fuel"
  shows "Pivoted fuel bsize A c t g \<noteq> None"
proof -
  have l: "BlockedPivoted_loop fuel bsize c t g (Height A) (A, dSub, p, X, Y) 0 \<noteq> None"
    for dSub p X Y
    by (rule BlockedPivoted_loop_total) (use assms in simp_all)
  have "BlockedPivoted fuel bsize A c t g \<noteq> None"
  proof (cases "Height A \<noteq> Width A \<or> Height A = 0")
    case True
    then show ?thesis unfolding BlockedPivoted_def Let_def by auto
  next
    case False
    then have "BlockedPivoted fuel bsize A c t g
        = BlockedPivoted_loop fuel bsize c t g (Height A)
            (A, Zeros (Height A - 1) 1, replicate (Height A) 0, Zeros 0 0, Zeros 0 0) 0"
      unfolding BlockedPivoted_def Let_def by simp
    then show ?thesis by (simp only: l not_False_eq_True)
  qed
  then show ?thesis by (cases t) (simp_all add: Pivoted_def)
qed

section \<open>The overflow of the panel and the step of the blocked driver\<close>














section \<open>The factorization is correct\<close>

text \<open>The only failures of a run with a supported strategy are zero pivots.\<close>

lemma UnblockedPivoted_1x1_Inl:
  "UnblockedPivoted_1x1 c n k pivot st = Inl e \<Longrightarrow> e = DivisionByZero"
  by (cases st) (auto simp: UnblockedPivoted_1x1_def Let_def split: if_splits)

lemma Symmetric2x2Solve_Inl: "Symmetric2x2Solve D A c = Inl e \<Longrightarrow> e = DivisionByZero"
  by (auto simp: Symmetric2x2Solve_def Let_def split: if_splits)

lemma UnblockedPivoted_2x2_Inl:
  "UnblockedPivoted_2x2 c n k pivot st = Inl e \<Longrightarrow> e = DivisionByZero"
  by (cases st)
     (auto simp: UnblockedPivoted_2x2_def Let_def split: sum.splits dest: Symmetric2x2Solve_Inl)

lemma PanelPivoted_1x1_Inl:
  "PanelPivoted_1x1 c n off k st = Inl e \<Longrightarrow> e = DivisionByZero"
  by (cases st) (auto simp: PanelPivoted_1x1_def Let_def split: if_splits)

lemma PanelPivoted_2x2_Inl:
  "PanelPivoted_2x2 c n off k st = Inl e \<Longrightarrow> e = DivisionByZero"
  by (cases st)
     (auto simp: PanelPivoted_2x2_def Let_def split: sum.splits dest: Symmetric2x2Solve_Inl)

lemma UnblockedPivoted_loop_Inl:
  assumes "UnblockedPivoted_loop c BUNCH_PARLETT g n st k = Inl e"
  shows "e = DivisionByZero"
  using assms
proof (induction "n - k" arbitrary: st k rule: less_induct)
  case less
  obtain A dSub p where st: "st = (A, dSub, p)" by (cases st) auto
  show ?case
  proof (cases "k < n")
    case False
    with less.prems show ?thesis by (simp add: UnblockedPivoted_loop.simps)
  next
    case True
    have nc: "BUNCH_PARLETT \<noteq> BUNCH_KAUFMAN_C" by simp
    define pivot where "pivot = BunchParlett (ViewRange A k k n n) g"
    have pv: "ChoosePivot (ViewRange A k k n n) BUNCH_PARLETT g = Inr pivot"
      by (simp add: ChoosePivot_def pivot_def)
    show ?thesis
    proof (cases "nb pivot = 1")
      case n1: True
      show ?thesis
      proof (cases "UnblockedPivoted_1x1 c n k pivot (A, dSub, p)")
        case (Inl e')
        with less.prems show ?thesis
          unfolding st UnblockedPivoted_loop_1x1 [OF True nc pv n1]
          by (auto dest: UnblockedPivoted_1x1_Inl)
      next
        case (Inr st')
        with less.prems have "UnblockedPivoted_loop c BUNCH_PARLETT g n st' (k + 1) = Inl e"
          unfolding st UnblockedPivoted_loop_1x1 [OF True nc pv n1] by simp
        then show ?thesis using True by (intro less.hyps [of "k + 1" st']) simp_all
      qed
    next
      case n2: False
      show ?thesis
      proof (cases "UnblockedPivoted_2x2 c n k pivot (A, dSub, p)")
        case (Inl e')
        with less.prems show ?thesis
          unfolding st UnblockedPivoted_loop_2x2 [OF True nc pv n2]
          by (auto dest: UnblockedPivoted_2x2_Inl)
      next
        case (Inr st')
        with less.prems have "UnblockedPivoted_loop c BUNCH_PARLETT g n st' (k + 2) = Inl e"
          unfolding st UnblockedPivoted_loop_2x2 [OF True nc pv n2] by simp
        then show ?thesis using True by (intro less.hyps [of "k + 2" st']) simp_all
      qed
    qed
  qed
qed

lemma UnblockedPivoted_Inl:
  assumes "UnblockedPivoted A c BUNCH_PARLETT g = Inl e" and "Height A = Width A"
  shows "e = DivisionByZero"
  using assms
  by (auto simp: UnblockedPivoted_def Let_def split: if_splits dest: UnblockedPivoted_loop_Inl)

lemma PanelBunchKaufmanA_Inl:
  "PanelBunchKaufmanA A X Y k g = Inl e \<Longrightarrow> k < Height A \<Longrightarrow> e = SingularMatrixException"
  using PanelBunchKaufmanA_no_div [of A X Y k g]
  by (auto simp: PanelBunchKaufmanA_def Let_def split: if_splits)

lemma PanelBunchKaufmanD_Inl:
  "PanelBunchKaufmanD A X Y k g = Inl e \<Longrightarrow> k < Height A \<Longrightarrow> e = SingularMatrixException"
  using PanelBunchKaufmanD_no_div [of A X Y k g]
  by (auto simp: PanelBunchKaufmanD_def Let_def split: if_splits)

lemma ChoosePanelPivot_Inl:
  assumes "ChoosePanelPivot A X Y k t g = Inl e" "t = BUNCH_KAUFMAN_A \<or> t = BUNCH_KAUFMAN_D"
    and "k < Height A"
  shows "e = SingularMatrixException"
  using assms by (auto simp: ChoosePanelPivot_def dest: PanelBunchKaufmanA_Inl PanelBunchKaufmanD_Inl)

lemma PanelPivoted_loop_Inl:
  assumes "PanelPivoted_loop c t g n off bsize st k = Inl e"
    and t: "t = BUNCH_KAUFMAN_A \<or> t = BUNCH_KAUFMAN_D" and b: "bsize \<le> n - off"
  shows "e = SingularMatrixException \<or> e = DivisionByZero"
  using assms(1)
proof (induction "bsize - k" arbitrary: st k rule: less_induct)
  case less
  obtain A dSub p X Y where st: "st = (A, dSub, p, X, Y)" by (cases st) auto
  have nc: "t \<noteq> BUNCH_KAUFMAN_C" using t by auto
  show ?case
  proof (cases "k < bsize")
    case False
    with less.prems show ?thesis by (simp add: PanelPivoted_loop_exit)
  next
    case True
    note k = True
    show ?thesis
    proof (cases "ChoosePanelPivot (LockedViewRange A off off n n) X Y k t g")
      case (Inl e')
      with less.prems have "e' = e" by (simp add: st PanelPivoted_loop_fail [OF k nc Inl])
      with ChoosePanelPivot_Inl [OF Inl t] k b show ?thesis by simp
    next
      case (Inr pivot)
      note pv = Inr
      show ?thesis
      proof (cases "k + nb pivot > bsize")
        case True
        from panel_overflow(3) [OF k nc pv True] less.prems show ?thesis by (simp add: st)
      next
        case False
        from ChoosePanelPivot_nb [OF pv] show ?thesis
        proof
          assume n1: "nb pivot = 1"
          note u = less.prems [unfolded st PanelPivoted_loop_1x1 [OF k nc pv n1]]
          show ?thesis
          proof (cases "PanelPivoted_1x1 c n off k
             (SymmetricSwap A (off + k) (off + from' pivot ! 0) c,
              RowSwap X k (from' pivot ! 0), RowSwap Y k (from' pivot ! 0))")
            case (Inl e')
            with u show ?thesis by (auto dest: PanelPivoted_1x1_Inl)
          next
            case (Inr r)
            obtain A1 X1 Y1 where r: "r = (A1, X1, Y1)" by (cases r) auto
            from u Inr r have "PanelPivoted_loop c t g n off bsize
                (A1, dSub, p[off + k := off + from' pivot ! 0], X1, Y1) (k + 1) = Inl e"
              by simp
            then show ?thesis by (rule less.hyps [rotated]) (use k in simp)
          qed
        next
          assume n2: "nb pivot = 2"
          with False have k2: "k + 2 \<le> bsize" by simp
          note u = less.prems [unfolded st PanelPivoted_loop_2x2 [OF k2 nc pv n2 refl]]
          show ?thesis
          proof (cases "PanelPivoted_2x2 c n off k
             (SymmetricSwap A (off + k + 1) (off + from' pivot ! 1) c, dSub,
              RowSwap X (k + 1) (from' pivot ! 1), RowSwap Y (k + 1) (from' pivot ! 1))")
            case (Inl e')
            with u show ?thesis by (auto dest: PanelPivoted_2x2_Inl)
          next
            case (Inr r)
            obtain A1 dSub1 X1 Y1 where r: "r = (A1, dSub1, X1, Y1)" by (cases r) auto
            from u Inr r have "PanelPivoted_loop c t g n off bsize
                (A1, dSub1, (p[off + k := off + k])[off + k + 1 := off + from' pivot ! 1], X1, Y1)
                (k + 2) = Inl e"
              by simp
            then show ?thesis by (rule less.hyps [rotated]) (use k2 in simp)
          qed
        qed
      qed
    qed
  qed
qed

lemma BlockedPivoted_loop_Inl:
  assumes "BlockedPivoted_loop fuel bsize c t g n (A, dSub, p, X, Y) k = Some (Inl e)"
    and t: "t = BUNCH_KAUFMAN_A \<or> t = BUNCH_KAUFMAN_D"
    and "Height A = n" "Width A = n" "Height dSub = n - 1" "Width dSub = 1" "length p = n"
  shows "e = SingularMatrixException \<or> e = DivisionByZero"
  using assms(1,3-)
proof (induction fuel arbitrary: A dSub p X Y k)
  case 0
  then show ?case by (cases "k < n") (simp_all add: BlockedPivoted_loop.simps)
next
  case (Suc fuel)
  show ?case
  proof (cases "k < n")
    case False
    with Suc.prems show ?thesis by (simp add: BlockedPivoted_loop.simps)
  next
    case True
    have n0: "0 < Height A" using True Suc.prems(2) by simp
    show ?thesis
    proof (cases "PanelPivoted A dSub p X Y (min bsize (n - k)) k c t g")
      case (Inl e')
      with True Suc.prems(1) have "e' = e" by (simp add: BlockedPivoted_loop.simps)
      with Inl Suc.prems(2-) n0 have "PanelPivoted_loop c t g n k (min bsize (n - k))
          (A, dSub, p, Zeros (n - k) (min bsize (n - k)), Zeros (n - k) (min bsize (n - k))) 0 = Inl e"
        by (auto simp: PanelPivoted_def Let_def split: if_splits)
      then show ?thesis using t by (rule PanelPivoted_loop_Inl) simp
    next
      case (Inr r)
      obtain A1 dSub1 p1 X1 Y1 where r: "r = (A1, dSub1, p1, X1, Y1)" by (cases r) auto
      note pp = Inr [unfolded r]
      note d = PanelPivoted_dims [OF pp n0]
      from Suc.prems(1) have "BlockedPivoted_loop fuel bsize c t g n
           (trailingUpdate n k A1 X1 Y1, dSub1, p1, X1, Y1) (k + Width X1) = Some (Inl e)"
        by (simp add: BlockedPivoted_loop_step [OF True pp])
      then show ?thesis
        by (rule Suc.IH) (use d Suc.prems in simp_all)
    qed
  qed
qed

lemma BlockedPivoted_Inl:
  assumes "BlockedPivoted fuel bsize A c t g = Some (Inl e)"
    and t: "t = BUNCH_KAUFMAN_A \<or> t = BUNCH_KAUFMAN_D" and sq: "Height A = Width A"
  shows "e = SingularMatrixException \<or> e = DivisionByZero"
proof -
  from assms(1) sq have n0: "Height A \<noteq> 0" and
    l: "BlockedPivoted_loop fuel bsize c t g (Height A)
      (A, Zeros (Height A - 1) 1, replicate (Height A) 0, Zeros 0 0, Zeros 0 0) 0 = Some (Inl e)"
    unfolding BlockedPivoted_def Let_def by (auto split: if_splits)
  show ?thesis
    by (rule BlockedPivoted_loop_Inl [OF l t]) (use sq in simp_all)
qed

lemma Pivoted_Inl:
  assumes "Pivoted fuel bsize A c t g = Some (Inl e)"
    and t: "t = BUNCH_KAUFMAN_A \<or> t = BUNCH_KAUFMAN_D \<or> t = BUNCH_PARLETT"
    and sq: "Height A = Width A"
  shows "e = SingularMatrixException \<or> e = DivisionByZero"
  using assms
  by (auto simp: Pivoted_def dest: BlockedPivoted_Inl UnblockedPivoted_Inl)

lemma symGet_symmetric:
  assumes "\<And>i j. i < n \<Longrightarrow> j < n \<Longrightarrow> Get A j i = cj c (Get A i j)" and "i < n" "j < n"
  shows "symGet c A i j = Get A i j"
proof (cases "j \<le> i")
  case True
  then show ?thesis by (simp add: symGet_def)
next
  case False
  then show ?thesis using assms(1) [OF assms(3,2)] by (simp add: symGet_def)
qed

lemma permuted_symmetric:
  assumes sym: "\<And>i j. i < n \<Longrightarrow> j < n \<Longrightarrow> Get A j i = cj c (Get A i j)"
    and p: "\<forall>t<n. p ! t < n" and i: "i < n" and j: "j < n"
  shows "permuted c A p n i j = Get A (pivotPerm p n i) (pivotPerm p n j)"
proof -
  from pivotPerm_bij [OF p] have "pivotPerm p n ` {..<n} = {..<n}"
    by (simp add: bij_betw_def)
  with i j have r: "pivotPerm p n i < n" "pivotPerm p n j < n" by blast+
  show ?thesis unfolding permuted_def
    by (rule symGet_symmetric [where n = n, OF sym r]) assumption+
qed

lemma exampleOne_run:
  "\<exists>A' dSub p. Pivoted 1 2 exampleOne False BUNCH_KAUFMAN_A 0 = Some (Inr (A', dSub, p))"
proof -
  from exampleOnePanel obtain A1 dSub1 p1 X1 Y1 where
    pp: "PanelPivoted exampleOne (Zeros 0 1) [0] (Zeros 0 0) (Zeros 0 0) (min 2 (1 - 0)) 0 False
          BUNCH_KAUFMAN_A 0 = Inr (A1, dSub1, p1, X1, Y1)"
    by auto
  have h: "Height exampleOne = 1" "Width exampleOne = 1"
    by (simp_all add: exampleOne_def MatrixOfRows_def)
  have inv: "unblockedInv False exampleOne 1 0 exampleOne (Zeros 0 1) [0]"
    using unblockedInv_start [of False 1 exampleOne 0] by simp
  from PanelPivoted_inv(2) [OF pp inv h(1)] have w: "Width X1 = 1" by simp
  have "BlockedPivoted_loop (Suc 0) 2 False BUNCH_KAUFMAN_A 0 1
          (exampleOne, Zeros 0 1, [0], Zeros 0 0, Zeros 0 0) 0
        = Some (Inr (trailingUpdate 1 0 A1 X1 Y1, dSub1, p1))"
    using BlockedPivoted_loop_step [of 0 1 exampleOne "Zeros 0 1" "[0]" "Zeros 0 0" "Zeros 0 0" 2
        False BUNCH_KAUFMAN_A 0 A1 dSub1 p1 X1 Y1 0] pp
    by (simp add: w BlockedPivoted_loop.simps)
  then show ?thesis
    by (simp add: Pivoted_def BlockedPivoted_def h)
qed

lemma exampleSwap_sel:
  "Height exampleSwap = 2" "Width exampleSwap = 2"
  "Get exampleSwap 0 0 = 0" "Get exampleSwap 1 0 = 1" "Get exampleSwap 1 1 = 0"
  "Get exampleSwap (Suc 0) 0 = 1" "Get exampleSwap (Suc 0) (Suc 0) = 0"
  by (simp_all add: exampleSwap_def MatrixOfRows_def)

lemma exampleSwapPivot:
  "ChoosePanelPivot (LockedViewRange exampleSwap 0 0 2 2) (Zeros 2 w) (Zeros 2 w) 0
     BUNCH_KAUFMAN_A 0 = Inr \<lparr>nb = 2, from' = [0, 1]\<rparr>"
  using sqrt17_bounds
  by (simp add: ChoosePanelPivot_def exampleSwap_def pivot_eval panel_eval)

lemma trailingUpdate_empty: "Width X = 0 \<Longrightarrow> trailingUpdate n k A X Y = A"
proof -
  assume w: "Width X = 0"
  have "Get (trailingUpdate n k A X Y) = Get A"
    by (intro ext) (simp add: Get_trailingUpdate w)
  moreover have "Height (trailingUpdate n k A X Y) = Height A"
    "Width (trailingUpdate n k A X Y) = Width A" by simp_all
  ultimately show ?thesis by (intro Matrix.equality) (simp_all add: trailingUpdate_def Let_def WriteView_def)
qed

text \<open>With a block size of one a pivot of two columns never fits, and the driver stays at \<open>k = 0\<close>.\<close>

lemma exampleSwapPanel:
  "PanelPivoted exampleSwap (Zeros 1 1) [0, 0] X Y 1 0 False BUNCH_KAUFMAN_A 0
     = Inr (exampleSwap, Zeros 1 1, [0, 0], ResizeTo (Zeros 2 1) 2 0, ResizeTo (Zeros 2 1) 2 0)"
proof -
  have "PanelPivoted_loop False BUNCH_KAUFMAN_A 0 2 0 1
      (exampleSwap, Zeros 1 1, [0, 0], Zeros 2 1, Zeros 2 1) 0
    = Inr (exampleSwap, Zeros 1 1, [0, 0], ResizeTo (Zeros 2 1) (2 - 0) 0, ResizeTo (Zeros 2 1) (2 - 0) 0)"
    by (rule panel_overflow(3) [OF _ _ exampleSwapPivot]) simp_all
  then show ?thesis by (simp add: PanelPivoted_def exampleSwap_sel)
qed

lemma BlockedPivoted_loop_blocksize_one:
  "BlockedPivoted_loop fuel 1 False BUNCH_KAUFMAN_A 0 2 (exampleSwap, Zeros 1 1, [0, 0], X, Y) 0 = None"
proof (induction fuel arbitrary: X Y)
  case 0
  show ?case by (simp add: BlockedPivoted_loop.simps)
next
  case (Suc fuel)
  have pp: "PanelPivoted exampleSwap (Zeros 1 1) [0, 0] X Y (min 1 (2 - 0)) 0 False BUNCH_KAUFMAN_A 0
     = Inr (exampleSwap, Zeros 1 1, [0, 0], ResizeTo (Zeros 2 1) 2 0, ResizeTo (Zeros 2 1) 2 0)"
    using exampleSwapPanel [of X Y] by simp
  have st: "BlockedPivoted_loop (Suc fuel) 1 False BUNCH_KAUFMAN_A 0 2
        (exampleSwap, Zeros 1 1, [0, 0], X, Y) 0
      = BlockedPivoted_loop fuel 1 False BUNCH_KAUFMAN_A 0 2
          (trailingUpdate 2 0 exampleSwap (ResizeTo (Zeros 2 1) 2 0) (ResizeTo (Zeros 2 1) 2 0),
           Zeros 1 1, [0, 0], ResizeTo (Zeros 2 1) 2 0, ResizeTo (Zeros 2 1) 2 0)
          (0 + Width (ResizeTo (Zeros 2 1) 2 0))"
    by (rule BlockedPivoted_loop_step [OF _ pp]) simp
  show ?case
    unfolding st using Suc.IH [of "ResizeTo (Zeros 2 1) 2 0" "ResizeTo (Zeros 2 1) 2 0"]
    by (simp add: trailingUpdate_empty)
qed

lemma Pivoted_blocksize_one:
  "Pivoted fuel 1 exampleSwap False BUNCH_KAUFMAN_A 0 = None"
  using BlockedPivoted_loop_blocksize_one [of fuel "Zeros 0 0" "Zeros 0 0"]
  by (simp add: Pivoted_def BlockedPivoted_def exampleSwap_sel numeral_2_eq_2)

lemma exampleSwapStep:
  "\<exists>r. PanelPivoted_2x2 False 2 0 0
        (SymmetricSwap exampleSwap (0 + 0 + 1) (0 + from' \<lparr>nb = 2, from' = [0, 1]\<rparr> ! 1) False,
         Zeros 1 1, RowSwap (Zeros 2 2) (0 + 1) (from' \<lparr>nb = 2, from' = [0, 1]\<rparr> ! 1),
         RowSwap (Zeros 2 2) (0 + 1) (from' \<lparr>nb = 2, from' = [0, 1]\<rparr> ! 1)) = Inr r"
  by (simp add: PanelPivoted_2x2_def Let_def Symmetric2x2Solve_def symGet_def swapIndex_def
      exampleSwap_sel cj_def)

lemma exampleSwap_run:
  "\<exists>A' dSub p. Pivoted 2 2 exampleSwap False BUNCH_KAUFMAN_A 0 = Some (Inr (A', dSub, p))"
proof -
  from exampleSwapStep obtain A1 dSub1 X1 Y1 where
    s: "PanelPivoted_2x2 False 2 0 0
        (SymmetricSwap exampleSwap (0 + 0 + 1) (0 + from' \<lparr>nb = 2, from' = [0, 1]\<rparr> ! 1) False,
         Zeros 1 1, RowSwap (Zeros 2 2) (0 + 1) (from' \<lparr>nb = 2, from' = [0, 1]\<rparr> ! 1),
         RowSwap (Zeros 2 2) (0 + 1) (from' \<lparr>nb = 2, from' = [0, 1]\<rparr> ! 1))
       = Inr (A1, dSub1, X1, Y1)"
    by (metis prod_cases4)
  have w: "Width X1 = 2" using PanelPivoted_2x2_dims(4) [OF s] by simp
  define p1 where "p1 = ([0, 0][0 + 0 := 0 + 0])[0 + 0 + 1 := 0 + from' \<lparr>nb = 2, from' = [0, 1]\<rparr> ! 1]"
  have l: "PanelPivoted_loop False BUNCH_KAUFMAN_A 0 2 0 2
      (exampleSwap, Zeros 1 1, [0, 0], Zeros 2 2, Zeros 2 2) 0 = Inr (A1, dSub1, p1, X1, Y1)"
  proof -
    have u: "PanelPivoted_loop False BUNCH_KAUFMAN_A 0 2 0 2
        (exampleSwap, Zeros 1 1, [0, 0], Zeros 2 2, Zeros 2 2) 0
      = (case PanelPivoted_2x2 False 2 0 0
             (SymmetricSwap exampleSwap (0 + 0 + 1) (0 + from' \<lparr>nb = 2, from' = [0, 1]\<rparr> ! 1) False,
              Zeros 1 1, RowSwap (Zeros 2 2) (0 + 1) (from' \<lparr>nb = 2, from' = [0, 1]\<rparr> ! 1),
              RowSwap (Zeros 2 2) (0 + 1) (from' \<lparr>nb = 2, from' = [0, 1]\<rparr> ! 1)) of
          Inl e \<Rightarrow> Inl e
        | Inr (A1, dSub1, X1, Y1) \<Rightarrow>
            PanelPivoted_loop False BUNCH_KAUFMAN_A 0 2 0 2
              (A1, dSub1, ([0, 0][0 + 0 := 0 + 0])[0 + 0 + 1 := 0 + from' \<lparr>nb = 2, from' = [0, 1]\<rparr> ! 1],
               X1, Y1) (0 + 2))"
      by (rule PanelPivoted_loop_2x2 [OF _ _ exampleSwapPivot [of 2] _ refl]) simp_all
    show ?thesis unfolding u s by (simp add: PanelPivoted_loop_exit p1_def)
  qed
  have pp: "PanelPivoted exampleSwap (Zeros 1 1) [0, 0] (Zeros 0 0) (Zeros 0 0) (min 2 (2 - 0)) 0 False
      BUNCH_KAUFMAN_A 0 = Inr (A1, dSub1, p1, X1, Y1)"
    using l by (simp add: PanelPivoted_def exampleSwap_sel)
  have "BlockedPivoted_loop (Suc 1) 2 False BUNCH_KAUFMAN_A 0 2
          (exampleSwap, Zeros 1 1, [0, 0], Zeros 0 0, Zeros 0 0) 0
        = BlockedPivoted_loop 1 2 False BUNCH_KAUFMAN_A 0 2
          (trailingUpdate 2 0 A1 X1 Y1, dSub1, p1, X1, Y1) (0 + Width X1)"
    by (rule BlockedPivoted_loop_step [OF _ pp]) simp
  then have "BlockedPivoted_loop 2 2 False BUNCH_KAUFMAN_A 0 2
          (exampleSwap, Zeros 1 1, [0, 0], Zeros 0 0, Zeros 0 0) 0
        = Some (Inr (trailingUpdate 2 0 A1 X1 Y1, dSub1, p1))"
    by (simp add: w BlockedPivoted_loop.simps numeral_2_eq_2)
  then show ?thesis
    by (simp add: Pivoted_def BlockedPivoted_def exampleSwap_sel numeral_2_eq_2)
qed

text \<open>
  With one of the strategies \<open>BUNCH_KAUFMAN_A\<close>, \<open>BUNCH_KAUFMAN_D\<close> and \<open>BUNCH_PARLETT\<close>, a
  block size of at least two and a square input whose diagonal is real in the Hermitian
  case, \<open>ldl::Pivoted\<close> returns.  Either it has met a zero pivot, reported as the
  singular-matrix exception of the pivot search or met as the zero divisor of a \<open>1 \<times> 1\<close>
  or \<open>2 \<times> 2\<close> pivot block, or it returns a pivot vector \<open>p\<close>, the overwritten matrix and the
  sub-diagonal vector such that: \<open>p\<close> has length \<open>n\<close> and names rows below \<open>n\<close>, so that the
  exchanges of \<open>k\<close> and \<open>p[k]\<close> make a permutation \<open>P\<close>; with \<open>L\<close> the strict lower triangle of
  the overwritten matrix and a unit diagonal, and \<open>D\<close> its diagonal together with the
  sub-diagonal vector, \<open>P A P\<^sup>T = L D L\<^sup>T\<close> (\<open>L D L\<^sup>H\<close> in the Hermitian case) holds entry by
  entry over the exact field, \<open>A\<close> being the symmetric (Hermitian) matrix that the lower
  triangle of the input stands for; and no two adjacent sub-diagonal entries of \<open>D\<close> are
  non-zero, so its blocks have order one or two.  The strategy \<open>BUNCH_KAUFMAN_C\<close> is refused
  with a logic error.
\<close>

lemma Pivoted_factorization:
  assumes "pivotType = BUNCH_KAUFMAN_A \<or> pivotType = BUNCH_KAUFMAN_D \<or> pivotType = BUNCH_PARLETT"
    and "Height A = Width A"
    and "conjugate \<longrightarrow> (\<forall>i<Height A. Im (Get A i i) = 0)"
    and "2 \<le> bsize" and "Height A \<le> fuel"
  shows "\<exists>r. Pivoted fuel bsize A conjugate pivotType gamma = Some r
     \<and> (case r of
           Inl e \<Rightarrow> e = SingularMatrixException \<or> e = DivisionByZero
         | Inr (A', dSub, p) \<Rightarrow> factorizes conjugate A A' dSub p)"
proof -
  from Pivoted_total [OF assms(4,5), where c = conjugate and t = pivotType and g = gamma]
  obtain r where
    r: "Pivoted fuel bsize A conjugate pivotType gamma = Some r" by auto
  have "case r of
           Inl e \<Rightarrow> e = SingularMatrixException \<or> e = DivisionByZero
         | Inr (A', dSub, p) \<Rightarrow> factorizes conjugate A A' dSub p"
  proof (cases r)
    case (Inl e)
    with Pivoted_Inl [OF r [unfolded Inl] assms(1,2)] show ?thesis by simp
  next
    case (Inr s)
    obtain A' dSub p where s: "s = (A', dSub, p)" by (cases s) auto
    from Pivoted_factorizes [OF r [unfolded Inr s] assms(3)] show ?thesis by (simp add: Inr s)
  qed
  with r show ?thesis by auto
qed

lemma Pivoted_factorization_examples:
  "(\<exists>A' dSub p. Pivoted 1 2 exampleOne False BUNCH_KAUFMAN_A 0 = Some (Inr (A', dSub, p))
      \<and> factorizes False exampleOne A' dSub p)
   \<and> (\<exists>A' dSub p. Pivoted 2 2 exampleSwap False BUNCH_KAUFMAN_A 0 = Some (Inr (A', dSub, p))
      \<and> factorizes False exampleSwap A' dSub p)"
proof
  have h: "Height exampleOne = Width exampleOne" "Height exampleOne \<le> 1"
    by (simp_all add: exampleOne_def MatrixOfRows_def)
  from Pivoted_factorization [where pivotType = BUNCH_KAUFMAN_A and A = exampleOne
      and conjugate = False and bsize = 2 and fuel = 1 and gamma = 0] h
  obtain r where r: "Pivoted 1 2 exampleOne False BUNCH_KAUFMAN_A 0 = Some r"
    "case r of Inl e \<Rightarrow> e = SingularMatrixException \<or> e = DivisionByZero
         | Inr (A', dSub, p) \<Rightarrow> factorizes False exampleOne A' dSub p"
    by auto
  from exampleOne_run r(1) obtain A' dSub p where "r = Inr (A', dSub, p)" by auto
  with r show "\<exists>A' dSub p. Pivoted 1 2 exampleOne False BUNCH_KAUFMAN_A 0 = Some (Inr (A', dSub, p))
      \<and> factorizes False exampleOne A' dSub p" by auto
next
  from Pivoted_factorization [where pivotType = BUNCH_KAUFMAN_A and A = exampleSwap
      and conjugate = False and bsize = 2 and fuel = 2 and gamma = 0]
  obtain r where r: "Pivoted 2 2 exampleSwap False BUNCH_KAUFMAN_A 0 = Some r"
    "case r of Inl e \<Rightarrow> e = SingularMatrixException \<or> e = DivisionByZero
         | Inr (A', dSub, p) \<Rightarrow> factorizes False exampleSwap A' dSub p"
    by (auto simp: exampleSwap_sel)
  from exampleSwap_run r(1) obtain A' dSub p where "r = Inr (A', dSub, p)" by auto
  with r show "\<exists>A' dSub p. Pivoted 2 2 exampleSwap False BUNCH_KAUFMAN_A 0 = Some (Inr (A', dSub, p))
      \<and> factorizes False exampleSwap A' dSub p" by auto
qed

lemma Pivoted_strategy_C_LogicError:
  "Height exampleOne = Width exampleOne \<and> Get exampleOne 0 0 = 5
   \<and> Pivoted 1 2 exampleOne False BUNCH_KAUFMAN_C 0 = Some (Inl LogicError)"
  by (simp add: exampleOne_def MatrixOfRows_def Pivoted_def BlockedPivoted_def
      BlockedPivoted_loop.simps PanelPivoted_def PanelPivoted_loop_C)

section \<open>The exchanges of a pivot of Bunch and Parlett\<close>

text \<open>
  \<open>UnblockedPivoted\<close> brings a pivot of two columns to the front by exchanging \<open>k\<close> with the
  first index of the pair and then \<open>k + 1\<close> with the second.  When the second index is \<open>k\<close>
  and the first is beyond \<open>k + 1\<close>, the first exchange has moved row \<open>k\<close> away, and the second
  brings row \<open>k + 1\<close> to the front in its place.
\<close>

lemma exampleParlett_sel:
  "Height exampleParlett = 3" "Width exampleParlett = 3"
  "Get exampleParlett 0 0 = 0" "Get exampleParlett 1 0 = 0" "Get exampleParlett 2 0 = 5"
  "Get exampleParlett 1 1 = 1" "Get exampleParlett 2 1 = 0" "Get exampleParlett 2 2 = 0"
  by (simp_all add: exampleParlett_def MatrixOfRows_def)

lemma exampleParlettPivot:
  "BunchParlett (ViewRange exampleParlett 0 0 3 3) 0 = \<lparr>nb = 2, from' = [2, 0]\<rparr>"
  using sqrt17_bounds
  by (simp add: BunchParlett_def Let_def DiagonalMax_def SymmetricMax_def exampleParlett_def
      ViewRange_def LockedViewRange_def MatrixOfRows_def eval_nat_numeral upt_rec)

lemma exampleParlettSwapped:
  "Get (SymmetricSwap (SymmetricSwap exampleParlett 0 2 False) 1 0 False) 0 0 = 1"
  "Get (SymmetricSwap (SymmetricSwap exampleParlett 0 2 False) 1 0 False) 1 0 = 0"
  "Get (SymmetricSwap (SymmetricSwap exampleParlett 0 2 False) 1 0 False) 1 1 = 0"
  "Get (SymmetricSwap (SymmetricSwap exampleParlett 0 2 False) 1 0 False) 2 0 = 0"
  "Get (SymmetricSwap (SymmetricSwap exampleParlett 0 2 False) 1 0 False) 2 1 = 5"
  by (simp_all add: SymmetricSwap_def symGet_def swapIndex_def exampleParlett_def MatrixOfRows_def
      cj_def eval_nat_numeral)

lemma exampleParlettStep:
  "UnblockedPivoted_2x2 False 3 0 \<lparr>nb = 2, from' = [2, 0]\<rparr> (exampleParlett, Zeros 2 1, [0, 0, 0])
     = Inl DivisionByZero"
  by (simp add: UnblockedPivoted_2x2_def Let_def Symmetric2x2Solve_def ViewRange_def
      LockedViewRange_def SymmetricSwap_def symGet_def swapIndex_def exampleParlett_def
      MatrixOfRows_def cj_def eval_nat_numeral)

lemma exampleParlettRun:
  "UnblockedPivoted exampleParlett False BUNCH_PARLETT 0 = Inl DivisionByZero"
proof -
  have "UnblockedPivoted_loop False BUNCH_PARLETT 0 3 (exampleParlett, Zeros 2 1, [0, 0, 0]) 0
      = Inl DivisionByZero"
    by (subst UnblockedPivoted_loop.simps)
      (simp add: ChoosePivot_def exampleParlettPivot exampleParlettStep [unfolded One_nat_def])
  then show ?thesis
    by (simp add: UnblockedPivoted_def exampleParlett_sel Let_def eval_nat_numeral)
qed

lemma exampleParlett_factorizes:
  "factorizes False exampleParlett exampleParlettFactor exampleParlettSub [2, 2, 2]"
proof -
  have pp: "pivotPerm [2, 2, 2] 3 i = (if i = 0 then 2 else if i = 1 then 0 else if i = 2 then 1 else i)"
    for i
    by (simp add: eval_nat_numeral swapIndex_def)
  have b: "bij_betw (pivotPerm [2, 2, 2] 3) {..<3} {..<3}"
  proof -
    have "inj_on (pivotPerm [2, 2, 2] 3) {..<3}"
      by (auto simp: inj_on_def pp split: if_splits)
    moreover have "pivotPerm [2, 2, 2] 3 ` {..<3} = {..<3}"
    proof -
      have "{..<3} = {0, 1, 2 :: nat}" by auto
      then show ?thesis by (auto simp: pp)
    qed
    ultimately show ?thesis by (simp add: bij_betw_def)
  qed
  have lt: "i < 3 \<longleftrightarrow> i = 0 \<or> i = 1 \<or> i = 2" for i :: nat by auto
  have e: "\<forall>i<3. \<forall>j<3. permuted False exampleParlett [2, 2, 2] 3 i j
               = (\<Sum>s<3. \<Sum>t<3. factorL exampleParlettFactor i s
                    * factorD False exampleParlettFactor exampleParlettSub s t
                    * cj False (factorL exampleParlettFactor j t))"
    unfolding permuted_def pp
    by (auto simp: lt symGet_def cj_def factorL_def factorD_def Lf_def Df_def exampleParlett_def
        exampleParlettFactor_def exampleParlettSub_def MatrixOfRows_def eval_nat_numeral
        lessThan_Suc)
  have d: "\<forall>t. Get exampleParlettSub t 0 \<noteq> 0 \<longrightarrow>
      Suc t < 3 \<and> Get exampleParlettSub (Suc t) 0 = 0 \<and> Get exampleParlettFactor (Suc t) t = 0"
    by (simp add: exampleParlettSub_def exampleParlettFactor_def MatrixOfRows_def)
  from b e d show ?thesis
    by (simp add: factorizes_def Let_def exampleParlett_sel lt)
qed

text \<open>
  C1.  Every non-singular symmetric input is to be factored as \<open>P A P\<^sup>T = L D L\<^sup>T\<close>.  With the
  strategy \<open>BUNCH_PARLETT\<close>, \<open>ldl::Pivoted\<close> fails on the symmetric matrix with the rows
  \<open>(0, 0, 5)\<close>, \<open>(0, 1, 0)\<close>, \<open>(5, 0, 0)\<close>, which has an inverse.  The pivot search chooses the
  pivot of rows 2 and 0, whose block has the determinant \<open>-25\<close>.  The exchanges of 0 with 2
  and then of 1 with 0 leave the leading block \<open>((1, 0), (0, 0))\<close> above the row \<open>(0, 5)\<close>: the
  solve with this block divides by zero, and no multipliers \<open>x0\<close>, \<open>x1\<close> give the entry 5 from
  its second column.  So the unblocked driver, and \<open>ldl::Pivoted\<close> for every block size, ends
  in that division.  Exchanging 1 with 2 in the second place brings the chosen block
  \<open>((0, 5), (5, 0))\<close> to the front, and for the pivot vector \<open>(2, 2, 2)\<close> the factors \<open>L = I\<close> and
  \<open>D\<close> with that block and the entry 1 satisfy \<open>P A P\<^sup>T = L D L\<^sup>T\<close>.
\<close>

theorem Pivoted_BunchParlett_swap_order:
  "map (\<lambda>i. map (\<lambda>j. symGet False exampleParlett i j) [0..<3]) [0..<3]
      = [[0, 0, 5], [0, 1, 0], [5, 0, 0]]
   \<and> map (\<lambda>i. map (\<lambda>j. \<Sum>t<3. symGet False exampleParlett i t * Get exampleParlettInverse t j)
        [0..<3]) [0..<3] = [[1, 0, 0], [0, 1, 0], [0, 0, 1]]
   \<and> BunchParlett (ViewRange exampleParlett 0 0 3 3) 0 = \<lparr>nb = 2, from' = [2, 0]\<rparr>
   \<and> Get exampleParlett 2 2 * Get exampleParlett 0 0 - Get exampleParlett 2 0 * Get exampleParlett 2 0
       = - 25
   \<and> map (\<lambda>(i, j). Get (SymmetricSwap (SymmetricSwap exampleParlett 0 2 False) 1 0 False) i j)
        [(0, 0), (1, 0), (1, 1), (2, 0), (2, 1)] = [1, 0, 0, 0, 5]
   \<and> Symmetric2x2Solve
        (ViewRange (SymmetricSwap (SymmetricSwap exampleParlett 0 2 False) 1 0 False) 0 0 2 2)
        (ViewRange (SymmetricSwap (SymmetricSwap exampleParlett 0 2 False) 1 0 False) 2 0 3 2)
        False = Inl DivisionByZero
   \<and> (\<forall>x0 x1.
        x0 * Get (SymmetricSwap (SymmetricSwap exampleParlett 0 2 False) 1 0 False) 1 0
        + x1 * Get (SymmetricSwap (SymmetricSwap exampleParlett 0 2 False) 1 0 False) 1 1
        \<noteq> Get (SymmetricSwap (SymmetricSwap exampleParlett 0 2 False) 1 0 False) 2 1)
   \<and> UnblockedPivoted exampleParlett False BUNCH_PARLETT 0 = Inl DivisionByZero
   \<and> Pivoted fuel bsize exampleParlett False BUNCH_PARLETT 0 = Some (Inl DivisionByZero)
   \<and> map (\<lambda>(i, j). Get (SymmetricSwap (SymmetricSwap exampleParlett 0 2 False) 1 2 False) i j)
        [(0, 0), (1, 0), (1, 1), (2, 0), (2, 1), (2, 2)] = [0, 5, 0, 0, 0, 1]
   \<and> map (\<lambda>i. map (\<lambda>j. permuted False exampleParlett [2, 2, 2] 3 i j) [0..<3]) [0..<3]
      = map (\<lambda>i. map (\<lambda>j. \<Sum>s<3. \<Sum>t<3. factorL exampleParlettFactor i s
                    * factorD False exampleParlettFactor exampleParlettSub s t
                    * cj False (factorL exampleParlettFactor j t)) [0..<3]) [0..<3]"
proof (intro conjI)
  show "map (\<lambda>i. map (\<lambda>j. symGet False exampleParlett i j) [0..<3]) [0..<3]
      = [[0, 0, 5], [0, 1, 0], [5, 0, 0]]"
    by (simp add: symGet_def cj_def exampleParlett_def MatrixOfRows_def eval_nat_numeral upt_rec)
  show "map (\<lambda>i. map (\<lambda>j. \<Sum>t<3. symGet False exampleParlett i t * Get exampleParlettInverse t j)
        [0..<3]) [0..<3] = [[1, 0, 0], [0, 1, 0], [0, 0, 1]]"
    by (simp add: symGet_def cj_def exampleParlett_def exampleParlettInverse_def MatrixOfRows_def
        eval_nat_numeral upt_rec lessThan_Suc)
  show "BunchParlett (ViewRange exampleParlett 0 0 3 3) 0 = \<lparr>nb = 2, from' = [2, 0]\<rparr>"
    by (rule exampleParlettPivot)
  show "Get exampleParlett 2 2 * Get exampleParlett 0 0 - Get exampleParlett 2 0 * Get exampleParlett 2 0
       = - 25"
    by (simp add: exampleParlett_sel)
  show "map (\<lambda>(i, j). Get (SymmetricSwap (SymmetricSwap exampleParlett 0 2 False) 1 0 False) i j)
        [(0, 0), (1, 0), (1, 1), (2, 0), (2, 1)] = [1, 0, 0, 0, 5]"
    by (simp add: SymmetricSwap_def symGet_def swapIndex_def exampleParlett_def MatrixOfRows_def
        cj_def eval_nat_numeral)
  show "Symmetric2x2Solve
        (ViewRange (SymmetricSwap (SymmetricSwap exampleParlett 0 2 False) 1 0 False) 0 0 2 2)
        (ViewRange (SymmetricSwap (SymmetricSwap exampleParlett 0 2 False) 1 0 False) 2 0 3 2)
        False = Inl DivisionByZero"
    by (simp add: Symmetric2x2Solve_def Let_def ViewRange_def LockedViewRange_def
        SymmetricSwap_def symGet_def swapIndex_def exampleParlett_def MatrixOfRows_def
        cj_def eval_nat_numeral)
  show "\<forall>x0 x1.
        x0 * Get (SymmetricSwap (SymmetricSwap exampleParlett 0 2 False) 1 0 False) 1 0
        + x1 * Get (SymmetricSwap (SymmetricSwap exampleParlett 0 2 False) 1 0 False) 1 1
        \<noteq> Get (SymmetricSwap (SymmetricSwap exampleParlett 0 2 False) 1 0 False) 2 1"
    by (simp add: SymmetricSwap_def symGet_def swapIndex_def exampleParlett_def MatrixOfRows_def
        cj_def eval_nat_numeral)
  show "UnblockedPivoted exampleParlett False BUNCH_PARLETT 0 = Inl DivisionByZero"
    by (rule exampleParlettRun)
  show "Pivoted fuel bsize exampleParlett False BUNCH_PARLETT 0 = Some (Inl DivisionByZero)"
    by (simp add: Pivoted_def exampleParlettRun)
  show "map (\<lambda>(i, j). Get (SymmetricSwap (SymmetricSwap exampleParlett 0 2 False) 1 2 False) i j)
        [(0, 0), (1, 0), (1, 1), (2, 0), (2, 1), (2, 2)] = [0, 5, 0, 0, 0, 1]"
    by (simp add: SymmetricSwap_def symGet_def swapIndex_def exampleParlett_def MatrixOfRows_def
        cj_def eval_nat_numeral)
  show "map (\<lambda>i. map (\<lambda>j. permuted False exampleParlett [2, 2, 2] 3 i j) [0..<3]) [0..<3]
      = map (\<lambda>i. map (\<lambda>j. \<Sum>s<3. \<Sum>t<3. factorL exampleParlettFactor i s
                    * factorD False exampleParlettFactor exampleParlettSub s t
                    * cj False (factorL exampleParlettFactor j t)) [0..<3]) [0..<3]"
    by (simp add: permuted_def swapIndex_def symGet_def cj_def factorL_def factorD_def Lf_def
        Df_def exampleParlett_def exampleParlettFactor_def exampleParlettSub_def MatrixOfRows_def
        eval_nat_numeral upt_rec lessThan_Suc)
qed

end
